(* ===== verification/Prelude.thy ===== *)
theory Prelude
  imports Main "HOL-Library.Char_ord" "HOL-Library.List_Lexorder"
begin

text \<open>
  Shared vocabulary of the development: the ways a C++ operation can fail as a datatype and
  the result type over it; the parts of the standard library the sources use (\<open>std::string\<close>
  searches and \<open>substr\<close>, \<open>std::getline\<close> with a delimiter, \<open>isspace\<close>, \<open>atoi\<close>, decimal
  output of integers, \<open>std::map\<close> as a sorted association list); and the generic lemmas on
  them that every component uses.
\<close>

named_theorems res_simps \<open>results: sequencing and inversion\<close>
named_theorems str_simps \<open>C++ string operations on concrete shapes\<close>

section \<open>Failures and results\<close>

text \<open>
  \<open>Out_of_range\<close>, \<open>Invalid_argument\<close> and \<open>Length_error\<close> are the standard exceptions, \<open>Runtime_error\<close> the one the
  sources throw themselves, \<open>Undefined\<close> an access the language leaves undefined (an index outside
  a string or array, a null pointer), \<open>Assert_failed\<close> a failed \<open>assert\<close>, \<open>Exit_called\<close>
  a call of \<open>exit\<close>.
\<close>

datatype cxx_error =
    Out_of_range
  | Invalid_argument
  | Length_error
  | Runtime_error
  | Undefined
  | Assert_failed
  | Exit_called int

type_synonym 'a res = "cxx_error + 'a"

definition rbind :: "'a res \<Rightarrow> ('a \<Rightarrow> 'b res) \<Rightarrow> 'b res" where
  "rbind m f = (case m of Inl e \<Rightarrow> Inl e | Inr x \<Rightarrow> f x)"

lemma rbind_Inl [simp, res_simps]: "rbind (Inl e) f = Inl e"
  by (simp add: rbind_def)

lemma rbind_Inr [simp, res_simps]: "rbind (Inr x) f = f x"
  by (simp add: rbind_def)

lemma rbind_eq_Inr [res_simps]: "rbind m f = Inr y \<longleftrightarrow> (\<exists>x. m = Inr x \<and> f x = Inr y)"
  by (simp add: rbind_def split: sum.splits)

lemma rbind_cong [fundef_cong]:
  "m = m' \<Longrightarrow> (\<And>x. m' = Inr x \<Longrightarrow> f x = f' x) \<Longrightarrow> rbind m f = rbind m' f'"
  by (simp add: rbind_def split: sum.splits)

text \<open>A loop over a list whose body may fail: the first failure ends it.\<close>

fun rmap :: "('a \<Rightarrow> 'b res) \<Rightarrow> 'a list \<Rightarrow> 'b list res" where
  "rmap f [] = Inr []"
| "rmap f (x # xs) = rbind (f x) (\<lambda>y. rbind (rmap f xs) (\<lambda>ys. Inr (y # ys)))"

fun rfold :: "('a \<Rightarrow> 's \<Rightarrow> 's res) \<Rightarrow> 'a list \<Rightarrow> 's \<Rightarrow> 's res" where
  "rfold f [] s = Inr s"
| "rfold f (x # xs) s = rbind (f x s) (rfold f xs)"

lemma rmap_cong [fundef_cong]:
  "xs = ys \<Longrightarrow> (\<And>x. x \<in> set ys \<Longrightarrow> f x = g x) \<Longrightarrow> rmap f xs = rmap g ys"
  by (induction xs arbitrary: ys) (auto cong: rbind_cong)

lemma rmap_Inr_map: "(\<And>x. x \<in> set xs \<Longrightarrow> f x = Inr (g x)) \<Longrightarrow> rmap f xs = Inr (map g xs)"
  by (induction xs) auto

lemma rmap_eq_Inr:
  "rmap f xs = Inr ys \<longleftrightarrow> list_all2 (\<lambda>x y. f x = Inr y) xs ys"
proof (induction xs arbitrary: ys)
  case Nil
  then show ?case by auto
next
  case (Cons x xs)
  then show ?case by (cases ys) (auto simp: rbind_eq_Inr)
qed

lemma rmap_source: "rmap f xs = Inr ys \<Longrightarrow> y \<in> set ys \<Longrightarrow> \<exists>x \<in> set xs. f x = Inr y"
  by (induction xs arbitrary: ys) (auto simp: rbind_eq_Inr)

lemma rfold_append: "rfold f (xs @ ys) s = rbind (rfold f xs s) (rfold f ys)"
  by (induction xs arbitrary: s) (auto simp: rbind_def split: sum.splits)

lemma rfold_invariant:
  assumes "rfold f xs s = Inr t" and "P s"
    and "\<And>x s s'. x \<in> set xs \<Longrightarrow> P s \<Longrightarrow> f x s = Inr s' \<Longrightarrow> P s'"
  shows "P t"
  using assms
proof (induction xs arbitrary: s)
  case Nil
  then show ?case by simp
next
  case (Cons x xs)
  then obtain s' where "f x s = Inr s'" "rfold f xs s' = Inr t"
    by (auto simp: rbind_eq_Inr)
  with Cons show ?case by (metis list.set_intros)
qed

section \<open>Machine integers\<close>

text \<open>\<open>size_t\<close> values are integers below \<open>2 ^ 64\<close>; an \<open>int\<close> is 32 bits in two's complement. A
  non-negative value converted to \<open>size_t\<close> is always a position in, or the length of, an existing
  string, so it is below \<open>2 ^ 64\<close> already; a negative one wraps around.\<close>

definition to_size :: "int \<Rightarrow> int" where
  "to_size x = (if 0 \<le> x then x else x mod 18446744073709551616)"

definition to_int32 :: "int \<Rightarrow> int" where
  "to_int32 x = (x + 2147483648) mod 4294967296 - 2147483648"

definition npos :: int where
  "npos = 18446744073709551615"

lemma to_size_id [simp]: "0 \<le> x \<Longrightarrow> to_size x = x"
  by (simp add: to_size_def)

lemma to_size_minus_one [simp]: "to_size (- 1) = npos"
  by (simp add: to_size_def npos_def)

lemma to_int32_id [simp]: "- 2147483648 \<le> x \<Longrightarrow> x < 2147483648 \<Longrightarrow> to_int32 x = x"
  by (simp add: to_int32_def)

lemma to_int32_npos [simp]: "to_int32 npos = - 1"
  by (simp add: to_int32_def npos_def)

lemma to_int32_bounds: "- 2147483648 \<le> to_int32 x \<and> to_int32 x < 2147483648"
  using pos_mod_bound[of 4294967296 "x + 2147483648"] pos_mod_sign[of 4294967296 "x + 2147483648"]
  by (simp add: to_int32_def)

section \<open>Characters\<close>

definition isspace :: "char \<Rightarrow> bool" where
  "isspace c \<longleftrightarrow> of_char c = (32::nat) \<or> (9 \<le> (of_char c :: nat) \<and> of_char c \<le> (13::nat))"

definition isdigit :: "char \<Rightarrow> bool" where
  "isdigit c \<longleftrightarrow> 48 \<le> (of_char c :: nat) \<and> of_char c \<le> (57::nat)"

definition digit_val :: "char \<Rightarrow> int" where
  "digit_val c = int (of_char c) - 48"

definition digit_char :: "nat \<Rightarrow> char" where
  "digit_char d = char_of (48 + d)"

lemma isdigit_digit_char [simp]: "d < 10 \<Longrightarrow> isdigit (digit_char d)"
  by (simp add: isdigit_def digit_char_def)

lemma digit_val_digit_char [simp]: "d < 10 \<Longrightarrow> digit_val (digit_char d) = int d"
  by (simp add: digit_val_def digit_char_def)

lemma isdigit_not_space: "isdigit c \<Longrightarrow> \<not> isspace c"
  by (auto simp: isdigit_def isspace_def)

section \<open>Decimal output and input of integers\<close>

text \<open>\<open>operator<<\<close> for integers; \<open>atoi\<close> is glibc's \<open>(int) strtol (s, NULL, 10)\<close>: leading white
  space, a sign, decimal digits, saturated at 64 bits and then cut to 32.\<close>

function show_dec :: "int \<Rightarrow> string" where
  "show_dec n =
     (if n < 10 then [digit_char (nat n)] else show_dec (n div 10) @ [digit_char (nat (n mod 10))])"
  by pat_completeness auto
termination
  by (relation "measure nat") auto

declare show_dec.simps [simp del]

definition show_int :: "int \<Rightarrow> string" where
  "show_int i = (if i < 0 then CHR ''-'' # show_dec (- i) else show_dec i)"

definition digits_val :: "string \<Rightarrow> int" where
  "digits_val s = foldl (\<lambda>n c. 10 * n + digit_val c) 0 s"

definition strtol64 :: "string \<Rightarrow> int" where
  "strtol64 s =
     (let t = dropWhile isspace s;
          neg = (t \<noteq> [] \<and> hd t = CHR ''-'');
          u = (if t \<noteq> [] \<and> (hd t = CHR ''-'' \<or> hd t = CHR ''+'') then tl t else t);
          v = digits_val (takeWhile isdigit u)
      in max (- 9223372036854775808) (min 9223372036854775807 (if neg then - v else v)))"

definition atoi :: "string \<Rightarrow> int" where
  "atoi s = to_int32 (strtol64 s)"

lemma show_dec_digits: "c \<in> set (show_dec n) \<Longrightarrow> isdigit c"
proof (induction n rule: show_dec.induct)
  case (1 n)
  then show ?case
    by (cases "n < 10") (subst (asm) (2) show_dec.simps, auto simp: nat_less_iff)+
qed

lemma show_dec_nonempty [simp]: "show_dec n \<noteq> []"
  by (subst show_dec.simps) simp

lemma digits_val_snoc [simp]: "digits_val (s @ [c]) = 10 * digits_val s + digit_val c"
  by (simp add: digits_val_def)

lemma digits_val_show_dec [simp]: "0 \<le> n \<Longrightarrow> digits_val (show_dec n) = n"
proof (induction n rule: show_dec.induct)
  case (1 n)
  show ?case
  proof (cases "n < 10")
    case True
    with 1 show ?thesis by (subst show_dec.simps) (simp add: digits_val_def nat_less_iff)
  next
    case False
    then have "digits_val (show_dec n) = 10 * (n div 10) + n mod 10"
      using "1.IH" "1.prems" by (subst show_dec.simps) (simp add: nat_less_iff)
    then show ?thesis by simp
  qed
qed

lemma takeWhile_digits_show_dec [simp]: "takeWhile isdigit (show_dec n) = show_dec n"
  by (auto simp: takeWhile_eq_all_conv show_dec_digits)

lemma hd_show_dec: "isdigit (hd (show_dec n))"
  by (rule show_dec_digits [of _ n]) simp

lemma isdigit_not_sign [simp]: "\<not> isdigit (CHR ''-'')" "\<not> isdigit (CHR ''+'')"
  by (simp_all add: isdigit_def)

lemma dropWhile_space_show_dec [simp]: "dropWhile isspace (show_dec n) = show_dec n"
  using hd_show_dec[of n] isdigit_not_space by (cases "show_dec n") auto

lemma not_space_minus [simp]: "\<not> isspace (CHR ''-'')"
  by (simp add: isspace_def)

text \<open>A printed 32-bit integer reads back as itself.\<close>

lemma atoi_show_int:
  assumes "- 2147483648 \<le> i" "i < 2147483648"
  shows "atoi (show_int i) = i"
proof -
  have sgn: "hd (show_dec n) \<noteq> CHR ''-''" "hd (show_dec n) \<noteq> CHR ''+''" for n
    using hd_show_dec[of n] by auto
  have "strtol64 (show_int i) = i"
  proof (cases "i < 0")
    case True
    with assms show ?thesis by (simp add: strtol64_def show_int_def Let_def)
  next
    case False
    with assms sgn[of i] show ?thesis by (simp add: strtol64_def show_int_def Let_def)
  qed
  with assms show ?thesis by (simp add: atoi_def)
qed

lemma show_int_inj [simp]: "show_int m = show_int n \<longleftrightarrow> m = n"
proof
  assume eq: "show_int m = show_int n"
  have hd: "hd (show_int k) = CHR ''-'' \<longleftrightarrow> k < 0" for k
    using hd_show_dec[of k] by (auto simp: show_int_def)
  have "m < 0 \<longleftrightarrow> n < 0" using eq hd[of m] hd[of n] by simp
  then have "show_dec \<bar>m\<bar> = show_dec \<bar>n\<bar>"
    using eq by (cases "m < 0") (simp_all add: show_int_def)
  then have "digits_val (show_dec \<bar>m\<bar>) = digits_val (show_dec \<bar>n\<bar>)" by simp
  with \<open>m < 0 \<longleftrightarrow> n < 0\<close> show "m = n" by auto
qed simp

section \<open>\<open>std::string\<close>\<close>

text \<open>
  Strings are character lists; their lengths are \<open>size_t\<close> values. The searches return a
  \<open>size_t\<close>, \<open>npos\<close> when nothing is found. \<open>substr\<close> takes its arguments as \<open>size_t\<close>, so that
  a negative \<open>int\<close> argument is converted first, as the call does, and throws
  \<open>std::out_of_range\<close> when the position is past the end.
\<close>

fun index_of :: "('a \<Rightarrow> bool) \<Rightarrow> 'a list \<Rightarrow> nat option" where
  "index_of p [] = None"
| "index_of p (x # xs) = (if p x then Some 0 else map_option Suc (index_of p xs))"

definition find_pos :: "(char \<Rightarrow> bool) \<Rightarrow> string \<Rightarrow> int" where
  "find_pos p s = (case index_of p s of None \<Rightarrow> npos | Some i \<Rightarrow> int i)"

definition find_last_pos :: "(char \<Rightarrow> bool) \<Rightarrow> string \<Rightarrow> int" where
  "find_last_pos p s =
     (case index_of p (rev s) of None \<Rightarrow> npos | Some i \<Rightarrow> int (length s) - 1 - int i)"

definition find_first_of :: "string \<Rightarrow> char \<Rightarrow> int" where
  "find_first_of s c = find_pos (\<lambda>x. x = c) s"

definition find_last_of :: "string \<Rightarrow> char \<Rightarrow> int" where
  "find_last_of s c = find_last_pos (\<lambda>x. x = c) s"

definition find_first_not_of :: "string \<Rightarrow> char \<Rightarrow> int" where
  "find_first_not_of s c = find_pos (\<lambda>x. x \<noteq> c) s"

definition find_last_not_of :: "string \<Rightarrow> char \<Rightarrow> int" where
  "find_last_not_of s c = find_last_pos (\<lambda>x. x \<noteq> c) s"

definition substr :: "string \<Rightarrow> int \<Rightarrow> int \<Rightarrow> string res" where
  "substr s pos n =
     (if int (length s) < to_size pos then Inl Out_of_range
      else Inr (take (nat (min (to_size n) (int (length s)))) (drop (nat (to_size pos)) s)))"

text \<open>\<open>s[i]\<close>: the terminating null character at \<open>i = size\<close>, undefined past it.\<close>

definition char_at :: "string \<Rightarrow> int \<Rightarrow> char res" where
  "char_at s i =
     (let k = to_size i
      in if k < int (length s) then Inr (s ! nat k)
         else if k = int (length s) then Inr (CHR 0x00)
         else Inl Undefined)"

text \<open>All the pieces a loop \<open>while (getline (ss, pp, d))\<close> sees.\<close>

function (sequential) getline_split :: "char \<Rightarrow> string \<Rightarrow> string list" where
  "getline_split d [] = []"
| "getline_split d s =
     takeWhile (\<lambda>c. c \<noteq> d) s # getline_split d (drop 1 (dropWhile (\<lambda>c. c \<noteq> d) s))"
  by pat_completeness auto
termination
  by (relation "measure (\<lambda>(d, s). length s)")
     (auto simp: less_Suc_eq_le intro: le_trans [OF diff_le_self length_dropWhile_le])

declare getline_split.simps(2) [simp del]

lemma index_of_None: "index_of p xs = None \<longleftrightarrow> (\<forall>x \<in> set xs. \<not> p x)"
  by (induction xs) auto

lemma index_of_Some_append:
  "\<forall>x \<in> set xs. \<not> p x \<Longrightarrow> p y \<Longrightarrow> index_of p (xs @ y # ys) = Some (length xs)"
  by (induction xs) auto

lemma index_of_SomeD:
  "index_of p xs = Some i \<Longrightarrow> i < length xs \<and> p (xs ! i) \<and> (\<forall>j < i. \<not> p (xs ! j))"
proof (induction xs arbitrary: i)
  case (Cons x xs)
  then show ?case
    by (auto split: if_splits simp: less_Suc_eq_0_disj nth_Cons split: nat.splits)
qed simp

lemma find_first_of_split [str_simps]:
  "c \<notin> set xs \<Longrightarrow> find_first_of (xs @ c # ys) c = int (length xs)"
proof -
  assume "c \<notin> set xs"
  then have "index_of (\<lambda>x. x = c) (xs @ c # ys) = Some (length xs)"
    by (intro index_of_Some_append) auto
  then show ?thesis by (simp add: find_first_of_def find_pos_def)
qed

lemma find_first_of_none [str_simps]: "c \<notin> set xs \<Longrightarrow> find_first_of xs c = npos"
  using index_of_None[of "\<lambda>x. x = c" xs]
  by (auto simp: find_first_of_def find_pos_def split: option.splits)

lemma find_last_of_split [str_simps]:
  "c \<notin> set ys \<Longrightarrow> find_last_of (xs @ c # ys) c = int (length xs)"
proof -
  assume "c \<notin> set ys"
  then have "index_of (\<lambda>x. x = c) (rev (xs @ c # ys)) = Some (length ys)"
    using index_of_Some_append[of "rev ys" "\<lambda>x. x = c" c "rev xs"] by auto
  then show ?thesis by (simp add: find_last_of_def find_last_pos_def)
qed

lemma substr_in_range:
  "p \<le> length s \<Longrightarrow> p + n \<le> length s \<Longrightarrow> substr s (int p) (int n) = Inr (take n (drop p s))"
  by (simp add: substr_def min_def)

lemma substr_take: "substr s 0 (int n) = Inr (take n s)"
proof -
  have "nat (min (int n) (int (length s))) = min n (length s)" by simp
  then show ?thesis by (simp add: substr_def take_eq_Nil min_def)
qed

lemma substr_prefix [str_simps]: "substr (xs @ ys) 0 (int (length xs)) = Inr xs"
  by (simp add: substr_def)

lemma substr_suffix [str_simps]:
  "int (length xs) = p \<Longrightarrow> int (length ys) \<le> n \<Longrightarrow> substr (xs @ ys) p n = Inr ys"
  by (auto simp: substr_def)

section \<open>Splitting at a delimiter\<close>

lemma getline_split_Cons_delim [simp]: "getline_split d (d # s) = [] # getline_split d s"
  by (simp add: getline_split.simps)

lemma getline_split_piece:
  "d \<notin> set p \<Longrightarrow> getline_split d (p @ d # s) = p # getline_split d s"
proof -
  assume d: "d \<notin> set p"
  show ?thesis
  proof (cases "p @ d # s")
    case (Cons c cs)
    have "takeWhile (\<lambda>c. c \<noteq> d) (p @ d # s) = p" "dropWhile (\<lambda>c. c \<noteq> d) (p @ d # s) = d # s"
      using d by (auto simp: takeWhile_append dropWhile_append takeWhile_eq_all_conv)
    with Cons show ?thesis by (metis drop0 drop_Suc_Cons One_nat_def getline_split.simps(2))
  qed simp
qed

lemma getline_split_last:
  "d \<notin> set p \<Longrightarrow> p \<noteq> [] \<Longrightarrow> getline_split d p = [p]"
proof -
  assume d: "d \<notin> set p" "p \<noteq> []"
  then have "takeWhile (\<lambda>c. c \<noteq> d) p = p" "dropWhile (\<lambda>c. c \<noteq> d) p = []"
    by (auto simp: takeWhile_eq_all_conv)
  with d show ?thesis by (cases p) (simp_all add: getline_split.simps(2))
qed

lemma getline_split_no_delim: "p \<in> set (getline_split d s) \<Longrightarrow> d \<notin> set p"
proof (induction d s rule: getline_split.induct)
  case (2 d c cs)
  then show ?case by (auto simp: getline_split.simps(2) dest: set_takeWhileD)
qed simp

section \<open>Joining\<close>

fun intercalate :: "string \<Rightarrow> string list \<Rightarrow> string" where
  "intercalate d [] = []"
| "intercalate d [x] = x"
| "intercalate d (x # y # zs) = x @ d @ intercalate d (y # zs)"

lemma getline_split_intercalate:
  "(\<And>t. t \<in> set ts \<Longrightarrow> t \<noteq> [] \<and> c \<notin> set t) \<Longrightarrow> getline_split c (intercalate [c] ts) = ts"
proof (induction ts rule: induct_list012)
  case (2 x)
  then show ?case by (simp add: getline_split_last)
next
  case (3 x y zs)
  then show ?case by (simp add: getline_split_piece)
qed simp

lemma butlast_concat_delim: "butlast (concat (map (\<lambda>t. t @ [c]) ts)) = intercalate [c] ts"
proof (induction ts rule: induct_list012)
  case (3 x y zs)
  then show ?case by (simp add: butlast_append)
qed simp_all

end
