(* ===== verification/Decimal.thy ===== *)
theory Decimal
  imports Prelude
begin

text \<open>
  The two library functions the compressor rounds coordinates with: \<open>strtod\<close>, which reads the
  longest numeric prefix of a string and returns what follows it, and fixed-point output of a
  \<open>double\<close> with a given precision (\<open>ios::fixed\<close>, \<open>precision (n)\<close>). A finite double is kept
  exactly, as \<open>m * 2 ^ e\<close>; reading rounds to nearest, ties to even, at 53 bits with gradual
  underflow and overflow to infinity; printing rounds the exact value to \<open>n\<close> decimals, ties to
  even, as glibc does.
\<close>

section \<open>Doubles\<close>

datatype magnitude = Fin int int | Infinite | Not_a_number

record dbl =
  neg :: bool
  mag :: magnitude

definition round_half_even :: "int \<Rightarrow> int \<Rightarrow> int" where
  "round_half_even n d =
     (let q = n div d; r = n mod d
      in if d < 2 * r \<or> (2 * r = d \<and> odd q) then q + 1 else q)"

text \<open>\<open>scaled n d e\<close>: the nearest integer to \<open>n / (d * 2 ^ e)\<close>.\<close>

definition scaled :: "int \<Rightarrow> int \<Rightarrow> int \<Rightarrow> int" where
  "scaled n d e =
     (if 0 \<le> e then round_half_even n (d * 2 ^ nat e) else round_half_even (n * 2 ^ nat (- e)) d)"

function bits :: "int \<Rightarrow> int" where
  "bits n = (if n \<le> 0 then 0 else 1 + bits (n div 2))"
  by pat_completeness auto
termination
  by (relation "measure nat") auto

declare bits.simps [simp del]

text \<open>The exponent that leaves 53 significant bits, or the least one there is.\<close>

definition dbl_exponent :: "int \<Rightarrow> int \<Rightarrow> int" where
  "dbl_exponent n d =
     (let e = bits n - bits d - 53;
          big = (if 0 \<le> e then d * 2 ^ nat e * 2 ^ 53 \<le> n else d * 2 ^ 53 \<le> n * 2 ^ nat (- e))
      in max (- 1074) (if big then e + 1 else e))"

definition to_dbl :: "int \<Rightarrow> int \<Rightarrow> magnitude" where
  "to_dbl n d =
     (if n = 0 then Fin 0 0
      else let e = dbl_exponent n d; m = scaled n d e
           in if 971 < e \<or> (e = 971 \<and> 2 ^ 53 \<le> m) then Infinite else Fin m e)"

section \<open>Reading\<close>

definition isxdigit :: "char \<Rightarrow> bool" where
  "isxdigit c \<longleftrightarrow> isdigit c \<or> (97 \<le> (of_char c :: nat) \<and> of_char c \<le> (102::nat))
                        \<or> (65 \<le> (of_char c :: nat) \<and> of_char c \<le> (70::nat))"

definition xdigit_val :: "char \<Rightarrow> int" where
  "xdigit_val c =
     (if isdigit c then digit_val c
      else if 97 \<le> (of_char c :: nat) then int (of_char c) - 87 else int (of_char c) - 55)"

definition lower :: "char \<Rightarrow> char" where
  "lower c = (if 65 \<le> (of_char c :: nat) \<and> of_char c \<le> (90::nat) then char_of (of_char c + (32::nat)) else c)"

definition is_prefix_ci :: "string \<Rightarrow> string \<Rightarrow> bool" where
  "is_prefix_ci p s \<longleftrightarrow> length p \<le> length s \<and> map lower (take (length p) s) = p"

text \<open>\<open>exponent mark s\<close>: an optional exponent part and what follows it.\<close>

definition exponent :: "char \<Rightarrow> string \<Rightarrow> int \<times> string" where
  "exponent mark s =
     (case s of
        [] \<Rightarrow> (0, s)
      | c # t \<Rightarrow>
          (let sgn = t \<noteq> [] \<and> (hd t = CHR ''-'' \<or> hd t = CHR ''+'');
               u = (if sgn then tl t else t);
               ds = takeWhile isdigit u
           in if lower c = mark \<and> ds \<noteq> []
              then (if sgn \<and> hd t = CHR ''-'' then - digits_val ds else digits_val ds,
                    dropWhile isdigit u)
              else (0, s)))"

text \<open>A mantissa in a base: its digits before and after the point, and what follows.\<close>

definition mantissa :: "(char \<Rightarrow> bool) \<Rightarrow> string \<Rightarrow> string \<times> string \<times> string" where
  "mantissa p s =
     (let ip = takeWhile p s; t = dropWhile p s
      in if t \<noteq> [] \<and> hd t = CHR ''.'' \<and> (ip \<noteq> [] \<or> takeWhile p (tl t) \<noteq> [])
         then (ip, takeWhile p (tl t), dropWhile p (tl t))
         else (ip, [], t))"

definition base_val :: "int \<Rightarrow> (char \<Rightarrow> int) \<Rightarrow> string \<Rightarrow> int" where
  "base_val b f s = foldl (\<lambda>n c. b * n + f c) 0 s"

definition power_of :: "int \<Rightarrow> int \<Rightarrow> int \<Rightarrow> magnitude" where
  "power_of m b x = (if 0 \<le> x then to_dbl (m * b ^ nat x) 1 else to_dbl m (b ^ nat (- x)))"

definition read_dec :: "string \<Rightarrow> (magnitude \<times> string) option" where
  "read_dec s =
     (let (ip, fp, t) = mantissa isdigit s
      in if ip = [] \<and> fp = [] then None
         else let (x, u) = exponent (CHR ''e'') t
              in Some (power_of (base_val 10 digit_val (ip @ fp)) 10 (x - int (length fp)), u))"

definition read_hex :: "string \<Rightarrow> (magnitude \<times> string) option" where
  "read_hex s =
     (if is_prefix_ci ''0x'' s then
        (let (ip, fp, t) = mantissa isxdigit (drop 2 s)
         in if ip = [] \<and> fp = [] then None
            else let (x, u) = exponent (CHR ''p'') t
                 in Some (power_of (base_val 16 xdigit_val (ip @ fp)) 2 (x - 4 * int (length fp)), u))
      else None)"

definition nan_char :: "char \<Rightarrow> bool" where
  "nan_char c \<longleftrightarrow> isdigit c \<or> c = CHR ''_''
                      \<or> (97 \<le> (of_char (lower c) :: nat) \<and> of_char (lower c) \<le> (122::nat))"

definition read_special :: "string \<Rightarrow> (magnitude \<times> string) option" where
  "read_special s =
     (if is_prefix_ci ''infinity'' s then Some (Infinite, drop 8 s)
      else if is_prefix_ci ''inf'' s then Some (Infinite, drop 3 s)
      else if is_prefix_ci ''nan'' s then
        (let t = drop 3 s; u = dropWhile nan_char (tl t)
         in if t \<noteq> [] \<and> hd t = CHR ''('' \<and> u \<noteq> [] \<and> hd u = CHR '')''
            then Some (Not_a_number, tl u) else Some (Not_a_number, t))
      else None)"

text \<open>Without a number the value is zero and the end pointer is the start of the string.\<close>

definition strtod :: "string \<Rightarrow> dbl \<times> string" where
  "strtod s =
     (let t = dropWhile isspace s;
          sg = t \<noteq> [] \<and> (hd t = CHR ''-'' \<or> hd t = CHR ''+'');
          n = (sg \<and> hd t = CHR ''-'');
          u = (if sg then tl t else t)
      in case read_hex u of
           Some (m, r) \<Rightarrow> (\<lparr>neg = n, mag = m\<rparr>, r)
         | None \<Rightarrow> (case read_dec u of
             Some (m, r) \<Rightarrow> (\<lparr>neg = n, mag = m\<rparr>, r)
           | None \<Rightarrow> (case read_special u of
               Some (m, r) \<Rightarrow> (\<lparr>neg = n, mag = m\<rparr>, r)
             | None \<Rightarrow> (\<lparr>neg = False, mag = Fin 0 0\<rparr>, s))))"

section \<open>Fixed-point output\<close>

definition pad_left :: "nat \<Rightarrow> string \<Rightarrow> string" where
  "pad_left n s = replicate (n - length s) (CHR ''0'') @ s"

definition fixed_digits :: "nat \<Rightarrow> int \<Rightarrow> string" where
  "fixed_digits prec k =
     (if prec = 0 then show_dec k
      else show_dec (k div 10 ^ prec) @ CHR ''.'' # pad_left prec (show_dec (k mod 10 ^ prec)))"

definition show_fixed :: "nat \<Rightarrow> dbl \<Rightarrow> string" where
  "show_fixed prec x =
     (if neg x then [CHR ''-''] else []) @
     (case mag x of
        Infinite \<Rightarrow> ''inf''
      | Not_a_number \<Rightarrow> ''nan''
      | Fin m e \<Rightarrow> fixed_digits prec (scaled (m * 10 ^ prec) 1 (- e)))"

section \<open>Rounding error\<close>

lemma round_half_even_error:
  assumes "0 < d"
  shows "\<bar>2 * (round_half_even n d * d) - 2 * n\<bar> \<le> d"
proof -
  have n: "n div d * d + n mod d = n" by simp
  have r: "0 \<le> n mod d" "n mod d < d" using assms by auto
  show ?thesis
  proof (cases "d < 2 * (n mod d) \<or> (2 * (n mod d) = d \<and> odd (n div d))")
    case True
    then have "round_half_even n d * d = n div d * d + d"
      by (simp add: round_half_even_def Let_def distrib_right)
    with n r True show ?thesis by linarith
  next
    case False
    then have "round_half_even n d = n div d"
      unfolding round_half_even_def Let_def by (simp only: if_False)
    moreover have "2 * (n mod d) \<le> d" using False by linarith
    moreover have "2 * (n div d * d) - 2 * n = - (2 * (n mod d))" using n by linarith
    ultimately show ?thesis using r by simp
  qed
qed

lemma round_half_even_nonneg: "0 \<le> n \<Longrightarrow> 0 < d \<Longrightarrow> 0 \<le> round_half_even n d"
  by (auto simp: round_half_even_def Let_def pos_imp_zdiv_nonneg_iff intro: order_trans)

lemma show_fixed_nonempty: "show_fixed prec x \<noteq> []"
  by (auto simp: show_fixed_def fixed_digits_def split: magnitude.splits)

end
