(* ===== verification/Ifc_Text.thy ===== *)
theory Ifc_Text
  imports Decimal
begin

text \<open>
  The text layer of \<open>IfcCompressorImpl\<close> (\<open>src/src/storage/compression/ifccompressor_impl.cpp\<close>):
  \<open>trim\<close>, the two \<open>IfcInstanceAna\<close> overloads that take a statement \<open>#12=TYPE(content);\<close> apart,
  and the two \<open>StandardContent\<close> overloads: the one that normalises a content string (rounding
  cartesian coordinates in lossy mode) and collects its references, and the one that renames the
  references through the map from old to new numbers.
\<close>

section \<open>trim\<close>

text \<open>Positions come back as \<open>size_t\<close> and are stored in an \<open>int\<close>.\<close>

definition trim :: "string \<Rightarrow> string res" where
  "trim str =
     (if str = '''' then Inr str
      else if str = '' '' then Inr ''''
      else let s = to_int32 (find_first_not_of str (CHR '' ''));
               e = to_int32 (find_last_not_of str (CHR '' ''))
           in substr str s (e - s + 1))"

definition strlen :: "string \<Rightarrow> int" where
  "strlen s = int (length s)"

text \<open>\<open>c_str\<close>: what a C function sees of a string.\<close>

definition c_str :: "string \<Rightarrow> string" where
  "c_str s = takeWhile (\<lambda>c. c \<noteq> CHR 0x00) s"

section \<open>References inside one comma-separated field\<close>

text \<open>
  Every loop over the fields of a content strips one level of parentheses in the same way:
  a leading \<open>(\<close> with, perhaps, a closing \<open>)\<close>, or a closing \<open>)\<close> alone. \<open>in_field\<close> is that
  skeleton: it hands the inner text to \<open>f\<close> (with a flag that tells the first shape apart) and
  puts the parentheses back around the result.
\<close>

definition in_field :: "(bool \<Rightarrow> string \<Rightarrow> (string \<times> 'a) res) \<Rightarrow> string \<Rightarrow> (string \<times> 'a) res" where
  "in_field f raw =
     rbind (trim raw) (\<lambda>pp.
     rbind (char_at pp 0) (\<lambda>c0.
       if c0 = CHR ''('' then
         rbind (char_at pp (strlen pp - 1)) (\<lambda>cl.
           if cl = CHR '')'' then
             rbind (substr pp 1 (strlen pp - 2)) (\<lambda>q.
             rbind (f True q) (\<lambda>(t, a). Inr (''('' @ t @ '')'', a)))
           else
             rbind (substr pp 1 (strlen pp - 1)) (\<lambda>q.
             rbind (f True q) (\<lambda>(t, a). Inr (''('' @ t, a))))
       else
         rbind (char_at pp (strlen pp - 1)) (\<lambda>cl.
           if cl = CHR '')'' then
             rbind (substr pp 0 (strlen pp - 1)) (\<lambda>q.
             rbind (f False q) (\<lambda>(t, a). Inr (t @ '')'', a)))
           else f False pp)))"

text \<open>The text of the fields, each followed by a comma, without the last comma.\<close>

definition join_fields :: "string list \<Rightarrow> string res" where
  "join_fields ts = (let str = concat (map (\<lambda>t. t @ '','') ts) in substr str 0 (strlen str - 1))"

section \<open>Normalising a content: \<open>StandardContent (type, content, cite, islossy)\<close>\<close>

definition std_text :: "bool \<Rightarrow> nat \<Rightarrow> string \<Rightarrow> bool \<Rightarrow> string \<Rightarrow> (string \<times> int list) res" where
  "std_text islossy prec ty opened pp =
     rbind (char_at pp 0) (\<lambda>c.
       if c = CHR ''#'' then
         rbind (substr pp 1 (strlen pp - 1)) (\<lambda>d. Inr (pp, [atoi (c_str d)]))
       else
         let (dat, sptr) = strtod (c_str pp)
         in if (if opened then sptr \<noteq> '')'' \<and> sptr \<noteq> '''' else sptr \<noteq> '''')
               \<or> ty \<noteq> ''IFCCARTESIANPOINT'' \<or> \<not> islossy
            then Inr (pp, [])
            else Inr (show_fixed prec dat, []))"

definition StandardContent :: "bool \<Rightarrow> nat \<Rightarrow> string \<Rightarrow> string \<Rightarrow> (string \<times> int list) res" where
  "StandardContent islossy prec ty content =
     rbind (rmap (in_field (std_text islossy prec ty)) (getline_split (CHR '','') content)) (\<lambda>fs.
     rbind (join_fields (map fst fs)) (\<lambda>str. Inr (str, concat (map snd fs))))"

section \<open>Renaming references: \<open>StandardContent (content, rel)\<close>\<close>

definition ref_text :: "(int \<rightharpoonup> int) \<Rightarrow> bool \<Rightarrow> string \<Rightarrow> (string \<times> bool) res" where
  "ref_text rel opened pp =
     rbind (char_at pp 0) (\<lambda>c.
       if c = CHR ''#'' then
         rbind (substr pp 1 (strlen pp - 1)) (\<lambda>d.
           case rel (atoi (c_str d)) of
             None \<Rightarrow> Inr (pp, False)
           | Some n \<Rightarrow> Inr (CHR ''#'' # show_int n, True))
       else Inr (pp, True))"

definition RenameContent :: "(int \<rightharpoonup> int) \<Rightarrow> string \<Rightarrow> (string \<times> bool) res" where
  "RenameContent rel content =
     rbind (rmap (in_field (ref_text rel)) (getline_split (CHR '','') content)) (\<lambda>fs.
     rbind (join_fields (map fst fs)) (\<lambda>str.
       let allFind = list_all snd fs
       in Inr (if allFind then str else content, allFind)))"

section \<open>Taking a statement apart\<close>

text \<open>\<open>IfcInstanceAna (instance, type, content, cite)\<close>: number, type, normalised content, references.\<close>

type_synonym parsed = "int \<times> string \<times> string \<times> int list"

definition split_statement :: "string \<Rightarrow> (int \<times> string \<times> string) res" where
  "split_statement inst0 =
     rbind (trim inst0) (\<lambda>inst.
     (let s = to_int32 (find_first_of inst (CHR ''='')) in
      rbind (substr inst 1 (s - 1)) (\<lambda>index.
      rbind (substr inst (s + 1) (strlen inst - s - 1)) (\<lambda>content.
      (let s2 = to_int32 (find_first_of content (CHR ''('')) in
       rbind (substr content 0 s2) (\<lambda>type0.
       rbind (trim type0) (\<lambda>type.
       rbind (substr content (s2 + 1) (find_last_of content (CHR '')'') - s2 - 1)) (\<lambda>sub.
         Inr (atoi (c_str index), type, sub)))))))))"

definition IfcInstanceAna :: "bool \<Rightarrow> nat \<Rightarrow> string \<Rightarrow> parsed res" where
  "IfcInstanceAna fpr prec inst0 =
     rbind (split_statement inst0) (\<lambda>(id, type, sub).
     rbind (StandardContent fpr prec type sub) (\<lambda>(content, cite).
       Inr (id, type, content, cite)))"

text \<open>\<open>IfcInstanceAna (instance, id, type, content, cite)\<close>: the content without its references.\<close>

definition static_text :: "bool \<Rightarrow> string \<Rightarrow> (string \<times> int list) res" where
  "static_text opened pp =
     rbind (char_at pp 0) (\<lambda>c.
       if c = CHR ''#'' then
         rbind (substr pp 1 (strlen pp - 1)) (\<lambda>d. Inr ('''', [atoi (c_str d)]))
       else Inr (pp, []))"

definition IfcInstanceAna_static :: "string \<Rightarrow> parsed res" where
  "IfcInstanceAna_static inst0 =
     rbind (split_statement inst0) (\<lambda>(id, type, sub).
     rbind (rmap (in_field static_text) (getline_split (CHR '','') sub)) (\<lambda>fs.
     rbind (join_fields (map fst fs)) (\<lambda>str.
       Inr (id, type, str, concat (map snd fs)))))"

end
