(* ===== verification/Ordered_Map.thy ===== *)
theory Ordered_Map
  imports Prelude
begin

text \<open>
  \<open>std::map\<close>. The operations the sources use are \<open>find\<close>, \<open>insert\<close> (which keeps an existing
  entry), assignment through \<open>operator[]\<close> (which overwrites it) and iteration in key order.
  The locale states the contract of the first three; it is interpreted on the sorted
  association lists used wherever a component iterates over a map, and on HOL's partial
  functions used where a component only looks up and inserts.
\<close>

section \<open>The contract\<close>

locale std_map =
  fixes empty :: "'m"
    and find :: "'m \<Rightarrow> 'k \<Rightarrow> 'v option"
    and insert :: "'k \<Rightarrow> 'v \<Rightarrow> 'm \<Rightarrow> 'm"
    and assign :: "'k \<Rightarrow> 'v \<Rightarrow> 'm \<Rightarrow> 'm"
    and ok :: "'m \<Rightarrow> bool"
  assumes find_empty: "find empty k = None"
    and ok_empty: "ok empty"
    and ok_insert: "ok m \<Longrightarrow> ok (insert k v m)"
    and ok_assign: "ok m \<Longrightarrow> ok (assign k v m)"
    and find_insert: "ok m \<Longrightarrow>
          find (insert k v m) k' = (if k' = k \<and> find m k = None then Some v else find m k')"
    and find_assign: "ok m \<Longrightarrow> find (assign k v m) k' = (if k' = k then Some v else find m k')"
begin

lemma insert_keeps: "ok m \<Longrightarrow> find m k = Some v \<Longrightarrow> find (insert k' v' m) k = Some v"
  by (auto simp: find_insert)

lemma insert_fresh: "ok m \<Longrightarrow> find m k = None \<Longrightarrow> find (insert k v m) k = Some v"
  by (simp add: find_insert)

lemma insert_dom: "ok m \<Longrightarrow> find (insert k v m) k' \<noteq> None \<longleftrightarrow> k' = k \<or> find m k' \<noteq> None"
  by (auto simp: find_insert)

lemma ok_insert_all: "ok m \<Longrightarrow> ok (fold (\<lambda>(k, v). insert k v) kvs m)"
  by (induction kvs arbitrary: m) (auto simp: ok_insert ok_assign)

lemma ok_assign_all: "ok m \<Longrightarrow> ok (fold (\<lambda>(k, v). assign k v) kvs m)"
  by (induction kvs arbitrary: m) (auto simp: ok_insert ok_assign)

text \<open>Inserting a list of entries: what was there stays, and the first new entry wins.\<close>

lemma find_insert_all:
  "ok m \<Longrightarrow> find (fold (\<lambda>(k, v). insert k v) kvs m) k =
     (case find m k of Some v \<Rightarrow> Some v | None \<Rightarrow> map_of kvs k)"
proof (induction kvs arbitrary: m)
  case (Cons kv kvs)
  then show ?case by (auto simp: find_insert ok_insert split: option.splits prod.splits)
qed (simp split: option.splits)

text \<open>Assigning a list of entries: the last one wins.\<close>

lemma find_assign_all:
  "ok m \<Longrightarrow> find (fold (\<lambda>(k, v). assign k v) kvs m) k =
     (case map_of (rev kvs) k of Some v \<Rightarrow> Some v | None \<Rightarrow> find m k)"
proof (induction kvs arbitrary: m)
  case (Cons kv kvs)
  then show ?case by (auto simp: find_assign ok_assign map_add_def split: option.splits prod.splits)
qed simp

end

section \<open>Sorted association lists\<close>

type_synonym ('k, 'v) omap = "('k \<times> 'v) list"

fun om_assign :: "'k::linorder \<Rightarrow> 'v \<Rightarrow> ('k, 'v) omap \<Rightarrow> ('k, 'v) omap" where
  "om_assign k v [] = [(k, v)]"
| "om_assign k v ((k', v') # m) =
     (if k < k' then (k, v) # (k', v') # m
      else if k = k' then (k, v) # m
      else (k', v') # om_assign k v m)"

definition om_insert :: "'k::linorder \<Rightarrow> 'v \<Rightarrow> ('k, 'v) omap \<Rightarrow> ('k, 'v) omap" where
  "om_insert k v m = (if map_of m k = None then om_assign k v m else m)"

definition om_ok :: "('k::linorder, 'v) omap \<Rightarrow> bool" where
  "om_ok m \<longleftrightarrow> sorted_wrt (<) (map fst m)"

lemma set_om_assign: "fst ` set (om_assign k v m) = Set.insert k (fst ` set m)"
  by (induction k v m rule: om_assign.induct) (auto simp: image_iff)

lemma om_ok_assign: "om_ok m \<Longrightarrow> om_ok (om_assign k v m)"
proof (induction k v m rule: om_assign.induct)
  case (2 k v k' v' m)
  have "\<forall>x \<in> fst ` set (om_assign k v m). k' < x" if "k' < k"
    using 2 that by (auto simp: om_ok_def set_om_assign)
  with 2 show ?case by (auto simp: om_ok_def intro: less_trans)
qed (simp add: om_ok_def)

lemma map_of_om_assign: "om_ok m \<Longrightarrow> map_of (om_assign k v m) = (map_of m)(k \<mapsto> v)"
proof (induction k v m rule: om_assign.induct)
  case (2 k v k' v' m)
  then show ?case by (auto simp: om_ok_def fun_eq_iff map_of_eq_None_iff)
qed simp

lemma om_ok_distinct: "om_ok m \<Longrightarrow> distinct (map fst m)"
  by (simp add: om_ok_def strict_sorted_iff)

lemma om_ok_Nil [simp]: "om_ok []"
  by (simp add: om_ok_def)

interpretation om: std_map "[]" map_of om_insert om_assign om_ok
  by unfold_locales (auto simp: om_insert_def om_ok_assign map_of_om_assign)

section \<open>Partial functions\<close>

definition pm_insert :: "'k \<Rightarrow> 'v \<Rightarrow> ('k \<rightharpoonup> 'v) \<Rightarrow> ('k \<rightharpoonup> 'v)" where
  "pm_insert k v m = (case m k of None \<Rightarrow> m(k \<mapsto> v) | Some _ \<Rightarrow> m)"

interpretation pm: std_map Map.empty "\<lambda>m k. m k" pm_insert "\<lambda>k v m. m(k \<mapsto> v)" "\<lambda>_. True"
  by unfold_locales (auto simp: pm_insert_def split: option.splits)

lemma pm_insert_map_le: "m \<subseteq>\<^sub>m pm_insert k v m"
  by (auto simp: map_le_def pm_insert_def split: option.splits)

lemma dom_pm_insert [simp]: "dom (pm_insert k v m) = Set.insert k (dom m)"
  by (auto simp: pm_insert_def split: option.splits)

lemma pm_insert_same: "m k = None \<Longrightarrow> pm_insert k v m = m(k \<mapsto> v)"
  by (simp add: pm_insert_def)

lemma pm_insert_present: "m k \<noteq> None \<Longrightarrow> pm_insert k v m = m"
  by (auto simp: pm_insert_def)

end
