(* ===== verification/Ifc_Dedup.thy ===== *)
theory Ifc_Dedup
  imports Ifc_Text Ordered_Map
begin

text \<open>
  The content-based compressor itself (\<open>IfcCompressorImpl::IfcCompressor\<close>): its data
  (\<open>IfcInstance\<close>, \<open>MatchSet\<close>, \<open>UnmatchSet\<close> of \<open>ifccompressor_impl.h\<close>), the first step, which
  keeps one copy of every instance without references, and the rounds of the second step, which
  do the same for every instance whose references have all been renumbered. The loop over the
  rounds need not end, so it is a \<open>partial_function\<close> into \<open>option\<close>.
\<close>

section \<open>Data\<close>

record IfcInstance =
  inst_id :: int
  inst_type :: string
  inst_content :: string
  inst_flag :: bool

record MatchSet =
  baseInstance :: "string list"
  index :: "nat list"
  id_baseID :: "int \<rightharpoonup> int"
  type_content :: "string \<rightharpoonup> (string \<rightharpoonup> int)"

record UnmatchSet =
  um_instance :: "IfcInstance list"
  um_flag :: "bool list"
  um_totalCount :: int

text \<open>The local variables of \<open>IfcCompressor\<close>; \<open>csv\<close> is what \<open>ofile2\<close> has received, and writes
  to it while it is not open are lost.\<close>

record compressor =
  mSet :: MatchSet
  umSet :: UnmatchSet
  newInc :: int
  iterCount :: int
  deleteCount :: int
  totalCount :: int
  entity_num :: "(string, int) omap"
  csv_open :: bool
  csv :: string

definition init_compressor :: "bool \<Rightarrow> compressor" where
  "init_compressor opened =
     \<lparr>mSet = \<lparr>baseInstance = [], index = [], id_baseID = Map.empty, type_content = Map.empty\<rparr>,
      umSet = \<lparr>um_instance = [], um_flag = [], um_totalCount = 0\<rparr>,
      newInc = 0, iterCount = 0, deleteCount = 0, totalCount = 0, entity_num = [],
      csv_open = opened, csv = ''''\<rparr>"

definition count_entity :: "int \<Rightarrow> string \<Rightarrow> (string, int) omap \<Rightarrow> (string, int) omap" where
  "count_entity flag ty en =
     (if flag > 0 then
        (case map_of en ty of None \<Rightarrow> om_insert ty 1 en | Some k \<Rightarrow> om_assign ty (k + 1) en)
      else en)"

section \<open>First step: instances without references\<close>

text \<open>An instance that is new under its type: \<open>tc\<close> is the content table with the fresh number.\<close>

definition keep_first ::
    "(int \<Rightarrow> (string \<rightharpoonup> (string \<rightharpoonup> int))) \<Rightarrow> IfcInstance \<Rightarrow> compressor \<Rightarrow> compressor" where
  "keep_first tc inst st =
     (let n = newInc st + 1; m = mSet st; u = umSet st
      in st\<lparr>newInc := n,
            mSet := m\<lparr>type_content := tc n,
                      id_baseID := pm_insert (inst_id inst) n (id_baseID m),
                      index := index m @ [length (um_instance u)]\<rparr>,
            umSet := u\<lparr>um_instance := um_instance u @ [inst\<lparr>inst_id := n\<rparr>],
                       um_flag := um_flag u @ [False],
                       um_totalCount := um_totalCount u - 1\<rparr>\<rparr>)"

definition drop_duplicate :: "int \<Rightarrow> IfcInstance \<Rightarrow> int \<Rightarrow> compressor \<Rightarrow> compressor" where
  "drop_duplicate flag inst b st =
     (let m = mSet st
      in st\<lparr>deleteCount := deleteCount st + 1,
            entity_num := count_entity flag (inst_type inst) (entity_num st),
            mSet := m\<lparr>id_baseID := pm_insert (inst_id inst) b (id_baseID m)\<rparr>\<rparr>)"

definition ingest :: "int \<Rightarrow> parsed \<Rightarrow> compressor \<Rightarrow> compressor" where
  "ingest flag p st0 =
     (let (id, ty, content, cite) = p;
          inst = \<lparr>inst_id = id, inst_type = ty, inst_content = content, inst_flag = (cite = [])\<rparr>;
          st = st0\<lparr>totalCount := totalCount st0 + 1\<rparr>
      in if inst_flag inst then
           let st1 = st\<lparr>iterCount := iterCount st + 1\<rparr>; tc = type_content (mSet st)
           in case tc ty of
                None \<Rightarrow> keep_first (\<lambda>n. tc(ty \<mapsto> [content \<mapsto> n])) inst st1
              | Some cm \<Rightarrow>
                  (case cm content of
                     None \<Rightarrow> keep_first (\<lambda>n. tc(ty \<mapsto> cm(content \<mapsto> n))) inst st1
                   | Some b \<Rightarrow> drop_duplicate flag inst b st1)
         else
           let u = umSet st
           in st\<lparr>umSet := u\<lparr>um_instance := um_instance u @ [inst], um_flag := um_flag u @ [True]\<rparr>\<rparr>)"

section \<open>Renaming the references of one stored instance\<close>

definition rename_at :: "nat \<Rightarrow> compressor \<Rightarrow> compressor res" where
  "rename_at i st =
     (let u = umSet st; inst = um_instance u ! i
      in rbind (RenameContent (id_baseID (mSet st)) (inst_content inst)) (\<lambda>(content, found).
         Inr (st\<lparr>umSet := u\<lparr>um_instance :=
                  (um_instance u)[i := inst\<lparr>inst_content := content, inst_flag := found\<rparr>]\<rparr>\<rparr>)))"

definition rename_all :: "compressor \<Rightarrow> compressor res" where
  "rename_all st = rfold rename_at [0..<length (um_instance (umSet st))] st"

definition refresh_at :: "nat \<Rightarrow> compressor \<Rightarrow> compressor res" where
  "refresh_at i st = (if um_flag (umSet st) ! i then rename_at i st else Inr st)"

definition refresh_all :: "compressor \<Rightarrow> compressor res" where
  "refresh_all st = rfold refresh_at [0..<length (um_instance (umSet st))] st"

section \<open>Second step: one round\<close>

definition keep_at ::
    "(int \<Rightarrow> (string \<rightharpoonup> (string \<rightharpoonup> int))) \<Rightarrow> nat \<Rightarrow> compressor \<Rightarrow> compressor" where
  "keep_at tc i st =
     (let n = newInc st + 1; m = mSet st; u = umSet st; inst = um_instance u ! i
      in st\<lparr>newInc := n,
            mSet := m\<lparr>type_content := tc n,
                      id_baseID := pm_insert (inst_id inst) n (id_baseID m),
                      index := index m @ [i]\<rparr>,
            umSet := u\<lparr>um_instance := (um_instance u)[i := inst\<lparr>inst_id := n\<rparr>]\<rparr>\<rparr>)"

definition settle_at :: "nat \<Rightarrow> compressor \<Rightarrow> compressor" where
  "settle_at i st =
     (let u = umSet st
      in st\<lparr>umSet := u\<lparr>um_totalCount := um_totalCount u - 1, um_flag := (um_flag u)[i := False]\<rparr>\<rparr>)"

definition match_at :: "int \<Rightarrow> nat \<Rightarrow> compressor \<Rightarrow> compressor" where
  "match_at flag i st =
     (let u = umSet st; inst = um_instance u ! i; ty = inst_type inst; content = inst_content inst
      in if um_flag u ! i \<and> inst_flag inst then
           let st1 = st\<lparr>iterCount := iterCount st + 1\<rparr>; tc = type_content (mSet st)
           in settle_at i
               (case tc ty of
                  None \<Rightarrow> keep_at (\<lambda>n. tc(ty \<mapsto> [content \<mapsto> n])) i st1
                | Some cm \<Rightarrow>
                    (case cm content of
                       None \<Rightarrow> keep_at (\<lambda>n. tc(ty \<mapsto> cm(content \<mapsto> n))) i st1
                     | Some b \<Rightarrow> drop_duplicate flag inst b st1))
         else st)"

definition match_all :: "int \<Rightarrow> compressor \<Rightarrow> compressor" where
  "match_all flag st = fold (match_at flag) [0..<length (um_instance (umSet st))] st"

definition emit :: "string \<Rightarrow> compressor \<Rightarrow> compressor" where
  "emit s st = (if csv_open st then st\<lparr>csv := csv st @ s\<rparr> else st)"

definition newline :: string where
  "newline = [CHR 0x0A]"

definition show_entities :: "(string, int) omap \<Rightarrow> string" where
  "show_entities en = concat (map (\<lambda>(k, v). k @ '':'' @ show_int v @ '' '') en)"

definition round_report :: "int \<Rightarrow> int \<Rightarrow> int \<Rightarrow> compressor \<Rightarrow> compressor" where
  "round_report flag it predelete st =
     (if flag = 1 then
        (emit (''Step 2(iter :'' @ show_int it @ ''):,'' @ show_int (iterCount st) @ '',''
                @ show_int (deleteCount st - predelete) @ '',''
                @ show_entities (entity_num st) @ newline) st)\<lparr>entity_num := []\<rparr>
      else st)"

definition one_round :: "int \<Rightarrow> int \<Rightarrow> compressor \<Rightarrow> compressor res" where
  "one_round flag it st =
     rbind (refresh_all (match_all flag (st\<lparr>iterCount := 0\<rparr>))) (\<lambda>st'.
       Inr (round_report flag it (deleteCount st) st'))"

partial_function (option) rounds :: "int \<Rightarrow> int \<Rightarrow> compressor \<Rightarrow> compressor res option" where
  "rounds flag it st =
     (if um_totalCount (umSet st) \<noteq> 0 then
        (case one_round flag (it + 1) st of
           Inl e \<Rightarrow> Some (Inl e)
         | Inr st' \<Rightarrow> rounds flag (it + 1) st')
      else Some (Inr st))"

declare rounds.simps [code]

section \<open>The whole run on the parsed instances\<close>

definition close_first :: "compressor \<Rightarrow> compressor" where
  "close_first st =
     (let u = umSet st
      in st\<lparr>umSet := u\<lparr>um_totalCount := um_totalCount u + int (length (um_instance u))\<rparr>\<rparr>)"

definition first_report :: "int \<Rightarrow> compressor \<Rightarrow> compressor" where
  "first_report flag st =
     (if flag = 1 then
        (emit (''Step NO.,Total Num.,Delete Num.,Memo'' @ newline
                @ ''Step 1:,'' @ show_int (iterCount st) @ '','' @ show_int (deleteCount st) @ '',''
                @ show_entities (entity_num st) @ newline) st)\<lparr>entity_num := []\<rparr>
      else st)"

definition second_step :: "int \<Rightarrow> compressor \<Rightarrow> compressor res option" where
  "second_step flag st =
     (case rename_all (first_report flag (close_first st)) of
        Inl e \<Rightarrow> Some (Inl e)
      | Inr st' \<Rightarrow> rounds flag 0 st')"

definition compress_instances :: "int \<Rightarrow> bool \<Rightarrow> parsed list \<Rightarrow> compressor res option" where
  "compress_instances flag opened ps =
     second_step flag (fold (ingest flag) ps (init_compressor opened))"

section \<open>Output\<close>

definition show_instance :: "IfcInstance \<Rightarrow> string" where
  "show_instance i =
     ''#'' @ show_int (inst_id i) @ ''='' @ inst_type i @ ''('' @ inst_content i @ '');'' @ newline"

definition kept :: "compressor \<Rightarrow> IfcInstance list" where
  "kept st = map (\<lambda>k. um_instance (umSet st) ! k) (index (mSet st))"

definition unsettled :: "compressor \<Rightarrow> IfcInstance list" where
  "unsettled st =
     map fst (filter snd (zip (um_instance (umSet st)) (um_flag (umSet st))))"

definition write_output :: "string \<Rightarrow> string \<Rightarrow> compressor \<Rightarrow> string" where
  "write_output ifcHead ifcEnd st =
     ifcHead @ concat (map show_instance (kept st)) @ concat (map show_instance (unsettled st)) @ ifcEnd"

end
