(* ===== verification/Ifc_Fields.thy ===== *)
theory Ifc_Fields
  imports Ifc_Text
begin

text \<open>
  The structure behind the text layer. A field is one of four shapes around an inner text, a
  content is a list of fields joined by commas. On well-formed fields the string functions of
  \<open>Ifc_Text\<close> act on the inner texts only: \<open>in_field\<close> is a map, normalising keeps the
  structure, and renaming twice or renaming a content without references changes nothing.
\<close>

section \<open>Facts on trim\<close>

definition small :: "string \<Rightarrow> bool" where
  "small s \<longleftrightarrow> length s < 2147483648"

definition blank_ended :: "string \<Rightarrow> bool" where
  "blank_ended s \<longleftrightarrow> s \<noteq> [] \<and> (hd s = CHR '' '' \<or> last s = CHR '' '')"

lemma index_of_hd [simp]: "p (hd s) \<Longrightarrow> s \<noteq> [] \<Longrightarrow> index_of p s = Some 0"
  by (cases s) auto

lemma trim_id: "small s \<Longrightarrow> \<not> blank_ended s \<Longrightarrow> trim s = Inr s"
proof -
  assume s: "small s" "\<not> blank_ended s"
  show ?thesis
  proof (cases "s = []")
    case False
    with s have h: "hd s \<noteq> CHR '' ''" "last s \<noteq> CHR '' ''" by (auto simp: blank_ended_def)
    have "s \<noteq> '' ''" using h by auto
    moreover have "find_first_not_of s (CHR '' '') = 0"
      using False h by (simp add: find_first_not_of_def find_pos_def)
    moreover have "find_last_not_of s (CHR '' '') = int (length s) - 1"
      using False h by (simp add: find_last_not_of_def find_last_pos_def hd_rev)
    ultimately show ?thesis
      using False s by (simp add: trim_def substr_def small_def to_size_def)
  qed (simp add: trim_def)
qed

text \<open>A string with a character that is not a blank loses its outer blanks.\<close>

definition strip_blanks :: "string \<Rightarrow> string" where
  "strip_blanks s = rev (dropWhile (\<lambda>c. c = CHR '' '') (rev (dropWhile (\<lambda>c. c = CHR '' '') s)))"

lemma index_of_dropWhile:
  "\<exists>x \<in> set s. \<not> p x \<Longrightarrow> index_of (\<lambda>x. \<not> p x) s = Some (length (takeWhile p s))"
  by (induction s) auto

lemma dropWhile_both_take:
  assumes "\<exists>c \<in> set s. \<not> P c"
  shows "rev (dropWhile P (rev (dropWhile P s))) =
         take (length s - length (takeWhile P (rev s)) - length (takeWhile P s))
           (drop (length (takeWhile P s)) s)"
proof -
  obtain xs c ys where s: "s = xs @ c # ys" "\<not> P c" "\<forall>x \<in> set xs. P x"
    using assms split_list_first_prop[of s "\<lambda>c. \<not> P c"] by auto
  then have d: "dropWhile P s = c # ys" "takeWhile P s = xs" by (auto simp: dropWhile_append takeWhile_append)
  have t: "takeWhile P (rev s) = takeWhile P (rev (c # ys))"
    using s by (simp add: takeWhile_append)
  have "rev (dropWhile P (rev (c # ys))) = take (length (c # ys) - length (takeWhile P (rev s))) (c # ys)"
    unfolding t by (simp only: dropWhile_eq_drop rev_drop rev_rev_ident length_rev)
  with s d show ?thesis by (simp add: diff_commute)
qed

lemma trim_strip_blanks:
  assumes "small s" and "\<exists>c \<in> set s. c \<noteq> CHR '' ''"
  shows "trim s = Inr (strip_blanks s)"
proof -
  let ?b = "\<lambda>c. c = CHR '' ''"
  define a where "a = length (takeWhile ?b s)"
  define z where "z = length (takeWhile ?b (rev s))"
  have ne: "s \<noteq> []" "s \<noteq> '' ''" using assms(2) by auto
  have i1: "index_of (\<lambda>x. x \<noteq> CHR '' '') s = Some a"
    using index_of_dropWhile[of s ?b] assms(2) by (simp add: a_def)
  have i2: "index_of (\<lambda>x. x \<noteq> CHR '' '') (rev s) = Some z"
    using index_of_dropWhile[of "rev s" ?b] assms(2) by (simp add: z_def)
  have az: "a + z < length s"
  proof -
    obtain xs c ys where s: "s = xs @ c # ys" "c \<noteq> CHR '' ''" using assms(2) by (auto simp: in_set_conv_decomp)
    have "a \<le> length xs" using s by (simp add: a_def takeWhile_append length_takeWhile_le)
    moreover have "z \<le> length ys"
      using s length_takeWhile_le[of ?b "rev ys"] by (simp add: z_def takeWhile_append)
    ultimately show ?thesis using s by simp
  qed
  have t1: "to_int32 (find_first_not_of s (CHR '' '')) = int a"
    using i1 az assms(1) by (simp add: find_first_not_of_def find_pos_def small_def)
  have t2: "to_int32 (find_last_not_of s (CHR '' '')) = int (length s) - 1 - int z"
    using i2 az assms(1) by (simp add: find_last_not_of_def find_last_pos_def small_def)
  have e: "int (length s) - 1 - int z - int a + 1 = int (length s - z - a)" using az by auto
  have "trim s = substr s (int a) (int (length s - z - a))"
    using ne by (simp only: trim_def t1 t2 Let_def e if_False)
  also have "\<dots> = Inr (take (length s - z - a) (drop a s))"
    using az assms(1) by (intro substr_in_range) (auto simp: small_def)
  also have "take (length s - z - a) (drop a s) = strip_blanks s"
    using dropWhile_both_take[of s ?b] assms(2) by (simp add: strip_blanks_def a_def z_def)
  finally show ?thesis .
qed

lemma trim_all_blank:
  assumes "s \<noteq> []" "s \<noteq> '' ''" "\<forall>c \<in> set s. c = CHR '' ''" "small s"
  shows "trim s = Inl Out_of_range"
proof -
  have "index_of (\<lambda>x. x \<noteq> CHR '' '') s = None" "index_of (\<lambda>x. x \<noteq> CHR '' '') (rev s) = None"
    using assms(3) by (auto simp: index_of_None)
  then have "trim s = substr s (- 1) 1"
    using assms by (simp add: trim_def find_first_not_of_def find_last_not_of_def find_pos_def find_last_pos_def)
  with assms(4) show ?thesis by (simp add: substr_def small_def npos_def)
qed

lemma dropWhile_both_ends:
  assumes "t = rev (dropWhile P (rev (dropWhile P s)))" and "t \<noteq> []"
  shows "\<not> P (hd t)" and "\<not> P (last t)"
proof -
  let ?d = "dropWhile P s"
  have r: "dropWhile P (rev ?d) \<noteq> []" using assms by auto
  from hd_dropWhile[OF this] show "\<not> P (last t)" by (simp add: assms(1) last_rev)
  have "?d = t @ rev (takeWhile P (rev ?d))"
    unfolding assms(1) by (metis rev_append rev_rev_ident takeWhile_dropWhile_id)
  then have "hd ?d = hd t" "?d \<noteq> []" using assms(2) by (metis hd_append2, metis Nil_is_append_conv)
  with hd_dropWhile[of P s] show "\<not> P (hd t)" by simp
qed

lemma strip_blanks_not_blank_ended: "\<not> blank_ended (strip_blanks s)"
  using dropWhile_both_ends[OF strip_blanks_def] by (auto simp: blank_ended_def)

lemma trim_result:
  assumes "small s" "trim s = Inr t"
  shows "t = strip_blanks s" and "\<not> blank_ended t"
proof -
  have "t = strip_blanks s"
  proof (cases "\<exists>c \<in> set s. c \<noteq> CHR '' ''")
    case True
    with assms trim_strip_blanks show ?thesis by simp
  next
    case False
    with assms trim_all_blank[of s] have "s = [] \<or> s = '' ''" by force
    with assms(2) show ?thesis by (auto simp: trim_def strip_blanks_def)
  qed
  then show "t = strip_blanks s" "\<not> blank_ended t"
    using strip_blanks_not_blank_ended by auto
qed

lemma set_strip_blanks: "set (strip_blanks s) \<subseteq> set s"
  unfolding strip_blanks_def using set_dropWhileD by (auto dest!: set_dropWhileD)

lemma length_strip_blanks: "length (strip_blanks s) \<le> length s"
  unfolding strip_blanks_def by (metis length_dropWhile_le length_rev order_trans)

section \<open>Fields\<close>

datatype shape = Both | Open | Close | Plain

type_synonym field = "shape \<times> string"

fun wrap :: "shape \<Rightarrow> string \<Rightarrow> string" where
  "wrap Both t = ''('' @ t @ '')''"
| "wrap Open t = ''('' @ t"
| "wrap Close t = t @ '')''"
| "wrap Plain t = t"

definition opened :: "shape \<Rightarrow> bool" where
  "opened sh \<longleftrightarrow> sh = Both \<or> sh = Open"

text \<open>The inner texts a shape can have come from: the shape is read back from the wrapped text.\<close>

fun ok_shape :: "shape \<Rightarrow> string \<Rightarrow> bool" where
  "ok_shape Both t \<longleftrightarrow> True"
| "ok_shape Open t \<longleftrightarrow> t = [] \<or> last t \<noteq> CHR '')'' \<and> last t \<noteq> CHR '' ''"
| "ok_shape Close t \<longleftrightarrow> t = [] \<or> hd t \<noteq> CHR ''('' \<and> hd t \<noteq> CHR '' ''"
| "ok_shape Plain t \<longleftrightarrow>
     t \<noteq> [] \<and> hd t \<noteq> CHR ''('' \<and> hd t \<noteq> CHR '' '' \<and> last t \<noteq> CHR '')'' \<and> last t \<noteq> CHR '' ''"

definition ok_field :: "field \<Rightarrow> bool" where
  "ok_field fd \<longleftrightarrow> ok_shape (fst fd) (snd fd) \<and> CHR '','' \<notin> set (snd fd)"

lemma wrap_nonempty: "ok_shape sh t \<Longrightarrow> wrap sh t \<noteq> []"
  by (cases sh) auto

lemma wrap_no_comma: "CHR '','' \<in> set (wrap sh t) \<longleftrightarrow> CHR '','' \<in> set t"
  by (cases sh) auto

lemma wrap_not_blank_ended: "ok_shape sh t \<Longrightarrow> \<not> blank_ended (wrap sh t)"
  by (cases sh) (auto simp: blank_ended_def hd_append)

lemma char_at_hd: "s \<noteq> [] \<Longrightarrow> char_at s 0 = Inr (hd s)"
  by (simp add: char_at_def hd_conv_nth)

lemma char_at_last: "s \<noteq> [] \<Longrightarrow> small s \<Longrightarrow> char_at s (strlen s - 1) = Inr (last s)"
proof -
  assume s: "s \<noteq> []" "small s"
  have "nat (int (length s) - 1) = length s - 1" by arith
  with s show ?thesis by (simp add: char_at_def strlen_def small_def last_conv_nth)
qed

lemma char_at_Nil: "char_at [] 0 = Inr (CHR 0x00)" "char_at [] (strlen [] - 1) = Inl Undefined"
  by (simp_all add: char_at_def strlen_def npos_def)

text \<open>Reading a field back: the shape is recovered and only the inner text goes through \<open>f\<close>.\<close>

lemma in_field_wrap:
  assumes "ok_shape sh t" and "small (wrap sh t)"
  shows "in_field f (wrap sh t) = rbind (f (opened sh) t) (\<lambda>(u, a). Inr (wrap sh u, a))"
proof -
  let ?w = "wrap sh t"
  have w: "?w \<noteq> []" using assms(1) by (rule wrap_nonempty)
  have tr: "trim ?w = Inr ?w" using assms by (simp add: trim_id wrap_not_blank_ended)
  note hd = char_at_hd[OF w] and la = char_at_last[OF w assms(2)]
  have len: "int (length ?w) < 2147483648" using assms(2) by (simp add: small_def)
  show ?thesis
  proof (cases sh)
    case Both
    have "substr ?w 1 (strlen ?w - 2) = Inr t"
      using len Both by (simp add: substr_def strlen_def min_def)
    with tr hd la Both show ?thesis by (simp add: in_field_def opened_def)
  next
    case Open
    have "substr ?w 1 (strlen ?w - 1) = Inr t"
      using len Open by (simp add: substr_def strlen_def min_def)
    moreover have "last ?w \<noteq> CHR '')''" using Open assms(1) by auto
    ultimately show ?thesis using tr hd la Open by (simp add: in_field_def opened_def)
  next
    case Close
    have "substr ?w 0 (strlen ?w - 1) = Inr t"
      using len Close by (simp add: substr_def strlen_def min_def to_size_def)
    moreover have "hd ?w \<noteq> CHR ''(''" using Close assms(1) by (auto simp: hd_append)
    ultimately show ?thesis using tr hd la Close by (simp add: in_field_def opened_def)
  next
    case Plain
    have "hd ?w \<noteq> CHR ''(''" "last ?w \<noteq> CHR '')''" using Plain assms(1) by auto
    moreover have "rbind (f False t) (\<lambda>(u, a). Inr (u, a)) = f False t"
      by (cases "f False t") auto
    ultimately show ?thesis using tr hd la Plain by (simp add: in_field_def opened_def)
  qed
qed

text \<open>Conversely, a raw field that goes through has a shape.\<close>

lemma wrapped:
  assumes ne: "pp \<noteq> []" and ends: "hd pp \<noteq> CHR '' ''" "last pp \<noteq> CHR '' ''"
  shows "\<exists>sh t. pp = wrap sh t \<and> ok_shape sh t"
proof (cases "hd pp = CHR ''(''"; cases "last pp = CHR '')''")
  assume h: "hd pp = CHR ''(''" "last pp = CHR '')''"
  obtain q where q: "pp = CHR ''('' # q" using ne h(1) by (cases pp) auto
  with h have "q \<noteq> []" "last q = CHR '')''" by (auto split: if_splits)
  then have "pp = wrap Both (butlast q)" using q append_butlast_last_id[of q] by simp
  then show ?thesis by (intro exI[of _ Both]) auto
next
  assume h: "hd pp = CHR ''(''" "last pp \<noteq> CHR '')''"
  obtain q where q: "pp = CHR ''('' # q" using ne h(1) by (cases pp) auto
  with h ends have "pp = wrap Open q" "ok_shape Open q" by (auto split: if_splits)
  then show ?thesis by blast
next
  assume h: "hd pp \<noteq> CHR ''(''" "last pp = CHR '')''"
  have "pp = wrap Close (butlast pp)" using h(2) ne append_butlast_last_id[of pp] by simp
  moreover have "ok_shape Close (butlast pp)" using h(1) ends ne by (cases pp) (auto split: if_splits)
  ultimately show ?thesis by blast
next
  assume "hd pp \<noteq> CHR ''(''" "last pp \<noteq> CHR '')''"
  then have "pp = wrap Plain pp" "ok_shape Plain pp" using ends ne by auto
  then show ?thesis by blast
qed

lemma in_field_shape:
  assumes "small raw" and "CHR '','' \<notin> set raw" and "in_field f raw = Inr (r, a)"
  obtains sh t u where "trim raw = Inr (wrap sh t)" "ok_field (sh, t)" "small (wrap sh t)"
    "f (opened sh) t = Inr (u, a)" "r = wrap sh u"
proof -
  from assms(3) obtain pp where pp: "trim raw = Inr pp" by (auto simp: in_field_def rbind_eq_Inr)
  have b: "\<not> blank_ended pp" and ps: "pp = strip_blanks raw"
    using trim_result[OF assms(1) pp] by auto
  have nc: "CHR '','' \<notin> set pp" using ps assms(2) set_strip_blanks by blast
  have sm: "small pp" using ps assms(1) length_strip_blanks[of raw] by (simp add: small_def)
  have ne: "pp \<noteq> []"
  proof
    assume "pp = []"
    with pp assms(3) show False by (simp add: in_field_def char_at_Nil)
  qed
  have ends: "hd pp \<noteq> CHR '' ''" "last pp \<noteq> CHR '' ''" using b ne by (auto simp: blank_ended_def)
  have "\<exists>sh t. pp = wrap sh t \<and> ok_shape sh t" by (rule wrapped[OF ne ends])
  then obtain sh t where sh: "pp = wrap sh t" "ok_shape sh t" by blast
  have "in_field f raw = in_field f pp"
    using pp trim_id[OF sm b] by (simp add: in_field_def)
  then have "rbind (f (opened sh) t) (\<lambda>(u, a). Inr (wrap sh u, a)) = Inr (r, a)"
    using assms(3) in_field_wrap[OF sh(2), of f] sm sh(1) by simp
  then obtain u where "f (opened sh) t = Inr (u, a)" "r = wrap sh u"
    by (auto simp: rbind_eq_Inr)
  moreover have "ok_field (sh, t)" using sh nc by (simp add: ok_field_def wrap_no_comma)
  ultimately show ?thesis using that[of sh t u] pp sh sm by simp
qed

section \<open>Contents\<close>

definition text_of :: "field list \<Rightarrow> string" where
  "text_of fs = intercalate '','' (map (\<lambda>(sh, t). wrap sh t) fs)"

definition is_ref :: "string \<Rightarrow> bool" where
  "is_ref t \<longleftrightarrow> t \<noteq> [] \<and> hd t = CHR ''#''"

definition ref_id :: "string \<Rightarrow> int" where
  "ref_id t = atoi (c_str (tl t))"

definition refs_of :: "field list \<Rightarrow> int list" where
  "refs_of fs = map (ref_id \<circ> snd) (filter (is_ref \<circ> snd) fs)"

definition ok_content :: "string \<Rightarrow> field list \<Rightarrow> bool" where
  "ok_content c fs \<longleftrightarrow> c = text_of fs \<and> list_all ok_field fs \<and> list_all (small \<circ> (\<lambda>(sh, t). wrap sh t)) fs"

lemma join_fields_eq: "join_fields ts = Inr (intercalate '','' ts)"
proof -
  let ?s = "concat (map (\<lambda>t. t @ '','') ts)"
  have "join_fields ts = substr ?s 0 (int (length ?s) - 1)"
    by (simp add: join_fields_def strlen_def Let_def)
  also have "\<dots> = Inr (butlast ?s)"
  proof (cases "?s = []")
    case True
    then show ?thesis unfolding True by (simp add: substr_def npos_def)
  next
    case False
    then have "0 < length ?s" unfolding length_greater_0_conv .
    then have "int (length ?s) - 1 = int (length ?s - 1)" by linarith
    then show ?thesis by (simp only: substr_take butlast_conv_take)
  qed
  finally show ?thesis by (simp add: butlast_concat_delim)
qed

lemma fields_of_ok_content:
  assumes "ok_content c fs"
  shows "getline_split (CHR '','') c = map (\<lambda>(sh, t). wrap sh t) fs"
proof -
  have "t \<noteq> [] \<and> CHR '','' \<notin> set t" if "t \<in> set (map (\<lambda>(sh, t). wrap sh t) fs)" for t
    using that assms wrap_nonempty
    by (auto simp: ok_content_def list_all_iff ok_field_def wrap_no_comma split: prod.splits)
  then have "getline_split (CHR '','') (intercalate '','' (map (\<lambda>(sh, t). wrap sh t) fs)) =
      map (\<lambda>(sh, t). wrap sh t) fs"
    by (rule getline_split_intercalate)
  then show ?thesis using assms by (simp add: ok_content_def text_of_def)
qed

text \<open>A loop over the fields of a well-formed content is a map over their inner texts.\<close>

lemma rmap_in_field_ok:
  assumes "ok_content c fs"
    and "\<And>sh t. (sh, t) \<in> set fs \<Longrightarrow> f (opened sh) t = Inr (g sh t, h t)"
  shows "rmap (in_field f) (getline_split (CHR '','') c) =
         Inr (map (\<lambda>(sh, t). (wrap sh (g sh t), h t)) fs)"
proof -
  have "rmap (in_field f) (map (\<lambda>(sh, t). wrap sh t) fs) =
        Inr (map (\<lambda>(sh, t). (wrap sh (g sh t), h t)) fs)"
    using assms
    by (auto simp: rmap_eq_Inr list_all2_map1 list_all2_map2 list_all2_same ok_content_def
        list_all_iff ok_field_def in_field_wrap split: prod.splits)
  then show ?thesis by (simp add: fields_of_ok_content[OF assms(1)])
qed

subsection \<open>Renaming\<close>

definition rename_text :: "(int \<rightharpoonup> int) \<Rightarrow> string \<Rightarrow> string" where
  "rename_text rel t =
     (if is_ref t then (case rel (ref_id t) of None \<Rightarrow> t | Some n \<Rightarrow> CHR ''#'' # show_int n) else t)"

definition rename_fields :: "(int \<rightharpoonup> int) \<Rightarrow> field list \<Rightarrow> field list" where
  "rename_fields rel fs = map (\<lambda>(sh, t). (sh, rename_text rel t)) fs"

lemma ref_text_eq:
  "ref_text rel b t = Inr (rename_text rel t, is_ref t \<longrightarrow> ref_id t \<in> dom rel)"
proof (cases "t = []")
  case True
  then show ?thesis by (simp add: ref_text_def char_at_Nil rename_text_def is_ref_def)
next
  case False
  then have "substr t 1 (strlen t - 1) = Inr (tl t)"
    by (cases t) (simp_all add: substr_def strlen_def)
  with False show ?thesis
    by (auto simp: ref_text_def char_at_hd rename_text_def is_ref_def ref_id_def split: option.splits)
qed

theorem RenameContent_eq:
  assumes "ok_content c fs"
  shows "RenameContent rel c =
     (if set (refs_of fs) \<subseteq> dom rel then Inr (text_of (rename_fields rel fs), True) else Inr (c, False))"
proof -
  have r: "rmap (in_field (ref_text rel)) (getline_split (CHR '','') c) =
        Inr (map (\<lambda>(sh, t). (wrap sh (rename_text rel t), is_ref t \<longrightarrow> ref_id t \<in> dom rel)) fs)"
    by (rule rmap_in_field_ok[OF assms]) (simp add: ref_text_eq)
  have t: "map fst (map (\<lambda>(sh, t). (wrap sh (rename_text rel t), is_ref t \<longrightarrow> ref_id t \<in> dom rel)) fs)
        = map (\<lambda>(sh, t). wrap sh t) (rename_fields rel fs)"
    by (simp add: rename_fields_def split_def)
  have a: "list_all snd (map (\<lambda>(sh, t). (wrap sh (rename_text rel t), is_ref t \<longrightarrow> ref_id t \<in> dom rel)) fs)
        \<longleftrightarrow> set (refs_of fs) \<subseteq> dom rel"
    by (auto simp: list_all_iff refs_of_def split_def)
  show ?thesis
    unfolding RenameContent_def r rbind_Inr t join_fields_eq Let_def a text_of_def by simp
qed

lemma rename_fields_mono:
  assumes "rel \<subseteq>\<^sub>m rel'" and "set (refs_of fs) \<subseteq> dom rel"
  shows "rename_fields rel fs = rename_fields rel' fs"
proof -
  have "rename_text rel t = rename_text rel' t" if "(sh, t) \<in> set fs" for sh t
  proof (cases "is_ref t")
    case True
    then have "ref_id t \<in> set (refs_of fs)" using that by (force simp: refs_of_def)
    with assms have "rel (ref_id t) = rel' (ref_id t)" by (auto simp: map_le_def)
    then show ?thesis by (simp add: rename_text_def)
  qed (simp add: rename_text_def)
  then show ?thesis by (auto simp: rename_fields_def)
qed

lemma rename_fields_no_refs: "refs_of fs = [] \<Longrightarrow> rename_fields rel fs = fs"
  by (induction fs) (auto simp: refs_of_def rename_fields_def rename_text_def split: if_splits)

subsection \<open>Normalising\<close>

definition plain_char :: "char \<Rightarrow> bool" where
  "plain_char c \<longleftrightarrow> c \<notin> {CHR '','', CHR ''('', CHR '')'', CHR '' '', CHR ''#''}"

lemma digit_plain: "isdigit c \<Longrightarrow> plain_char c"
  by (auto simp: plain_char_def isdigit_def)

lemma show_fixed_plain: "c \<in> set (show_fixed prec x) \<Longrightarrow> plain_char c"
  using digit_plain show_dec_digits
  by (auto simp: show_fixed_def fixed_digits_def pad_left_def plain_char_def isdigit_def
      split: magnitude.splits if_splits dest!: show_dec_digits)

lemma std_text_cases:
  assumes "std_text l p ty b t = Inr (u, a)"
  shows "(u = t \<and> a = (if is_ref t then [ref_id t] else []))
       \<or> (\<not> is_ref t \<and> a = [] \<and> (\<exists>x. u = show_fixed p x) \<and> l \<and> ty = ''IFCCARTESIANPOINT'')"
proof (cases "t = []")
  case True
  with assms show ?thesis
    by (auto simp: std_text_def char_at_Nil is_ref_def Let_def split: prod.splits if_splits)
next
  case False
  then have "substr t 1 (strlen t - 1) = Inr (tl t)"
    by (cases t) (simp_all add: substr_def strlen_def)
  with False assms show ?thesis
    by (auto simp: std_text_def char_at_hd is_ref_def ref_id_def Let_def split: prod.splits if_splits)
qed

lemma ok_shape_plain: "u \<noteq> [] \<Longrightarrow> \<forall>c \<in> set u. plain_char c \<Longrightarrow> ok_shape sh u"
  using hd_in_set[of u] last_in_set[of u] by (cases sh) (auto simp: plain_char_def)

lemma length_wrap_le: "(sh, t) \<in> set fs \<Longrightarrow> length (wrap sh t) \<le> length (text_of fs)"
proof (induction fs rule: induct_list012)
  case (3 x y zs)
  then show ?case by (auto simp: text_of_def split: prod.splits)
qed (auto simp: text_of_def)

lemma in_getline_split_length: "t \<in> set (getline_split d s) \<Longrightarrow> length t \<le> length s"
proof (induction d s rule: getline_split.induct)
  case (2 d c cs)
  have "length (drop 1 (dropWhile (\<lambda>x. x \<noteq> d) (c # cs))) \<le> length (c # cs)"
    by (metis drop_drop dropWhile_eq_drop length_drop diff_le_self)
  with 2 length_takeWhile_le[of "\<lambda>x. x \<noteq> d" cs] show ?case
    by (auto simp: getline_split.simps(2) intro: order_trans)
qed simp

lemma std_field_ok:
  assumes "small raw" "CHR '','' \<notin> set raw" "in_field (std_text l p ty) raw = Inr (r, a)"
  obtains sh u where "r = wrap sh u" "ok_field (sh, u)" "a = (if is_ref u then [ref_id u] else [])"
proof -
  from assms obtain sh t u where s: "ok_field (sh, t)" "std_text l p ty (opened sh) t = Inr (u, a)"
      "r = wrap sh u"
    by (rule in_field_shape) blast
  from std_text_cases[OF s(2)] show ?thesis
  proof
    assume "u = t \<and> a = (if is_ref t then [ref_id t] else [])"
    with s that show ?thesis by blast
  next
    assume f: "\<not> is_ref t \<and> a = [] \<and> (\<exists>x. u = show_fixed p x) \<and> l \<and> ty = ''IFCCARTESIANPOINT''"
    then have u: "u \<noteq> []" "\<forall>c \<in> set u. plain_char c"
      using show_fixed_nonempty show_fixed_plain by auto
    then have "ok_field (sh, u)" by (auto simp: ok_field_def ok_shape_plain plain_char_def)
    moreover have "\<not> is_ref u" using u hd_in_set[of u] by (auto simp: is_ref_def plain_char_def)
    ultimately show ?thesis using that s(3) f by auto
  qed
qed

text \<open>The normalised content is well formed, and its references are the ones collected.\<close>

theorem StandardContent_ok:
  assumes "small content" and "StandardContent l p ty content = Inr (c, cites)" and "small c"
  shows "\<exists>fs. ok_content c fs \<and> cites = refs_of fs"
proof -
  let ?raws = "getline_split (CHR '','') content"
  from assms(2) obtain rs where rs: "rmap (in_field (std_text l p ty)) ?raws = Inr rs"
      "c = intercalate '','' (map fst rs)" "cites = concat (map snd rs)"
    by (auto simp: StandardContent_def rbind_eq_Inr join_fields_eq)
  have ex: "\<exists>fs. map fst rs = map (\<lambda>(sh, t). wrap sh t) fs \<and> list_all ok_field fs \<and>
          concat (map snd rs) = refs_of fs"
    if "list_all2 (\<lambda>raw y. in_field (std_text l p ty) raw = Inr y) raws rs"
      "\<forall>raw \<in> set raws. small raw \<and> CHR '','' \<notin> set raw" for raws rs
    using that
  proof (induction raws rs rule: list_all2_induct)
    case Nil
    then show ?case by (intro exI[of _ "[]"]) (simp add: refs_of_def)
  next
    case (Cons raw raws y ys)
    then obtain fs where fs: "map fst ys = map (\<lambda>(sh, t). wrap sh t) fs" "list_all ok_field fs"
        "concat (map snd ys) = refs_of fs"
      by auto
    obtain r a where y: "y = (r, a)" by (cases y)
    with Cons obtain sh u where u: "r = wrap sh u" "ok_field (sh, u)" "a = (if is_ref u then [ref_id u] else [])"
      using std_field_ok[of raw l p ty r a] by auto
    with fs y show ?case by (intro exI[of _ "(sh, u) # fs"]) (simp add: refs_of_def)
  qed
  have l: "\<forall>raw \<in> set ?raws. small raw \<and> CHR '','' \<notin> set raw"
    using assms(1) in_getline_split_length getline_split_no_delim
    by (fastforce simp: small_def intro: le_less_trans)
  from ex[OF _ l, of rs] obtain fs where fs: "map fst rs = map (\<lambda>(sh, t). wrap sh t) fs" "list_all ok_field fs"
      "concat (map snd rs) = refs_of fs"
    using rs(1) by (auto simp: rmap_eq_Inr)
  then have c: "c = text_of fs" using rs(2) by (simp add: text_of_def)
  then have "list_all (small \<circ> (\<lambda>(sh, t). wrap sh t)) fs"
    using assms(3) length_wrap_le by (fastforce simp: list_all_iff small_def intro: le_less_trans)
  with c fs rs(3) show ?thesis by (auto simp: ok_content_def)
qed

end
