(* ===== verification/Ifc_Steps.thy ===== *)
theory Ifc_Steps
  imports Ifc_Dedup Ifc_Fields
begin

text \<open>
  What one step of the compressor does to the part of its state the result depends on: the map
  from old to new numbers and the list of kept entries (type and content, in output order). The
  content table, the numbers of the kept instances and the counters follow from these two by the
  representation invariant \<open>consistent\<close>, which every operation keeps.
\<close>

lemma nth_list_update_eq_if: "xs[i := x] ! j = (if j = i \<and> i < length xs then x else xs ! j)"
  by (cases "i < length xs") (auto simp: nth_list_update list_update_beyond)

section \<open>The abstract view\<close>

type_synonym entry = "string \<times> string"

abbreviation insts :: "compressor \<Rightarrow> IfcInstance list" where
  "insts st \<equiv> um_instance (umSet st)"

abbreviation flags :: "compressor \<Rightarrow> bool list" where
  "flags st \<equiv> um_flag (umSet st)"

abbreviation renum :: "compressor \<Rightarrow> (int \<rightharpoonup> int)" where
  "renum st \<equiv> id_baseID (mSet st)"

definition entry_of :: "IfcInstance \<Rightarrow> entry" where
  "entry_of x = (inst_type x, inst_content x)"

definition entries :: "compressor \<Rightarrow> entry list" where
  "entries st = map entry_of (kept st)"

text \<open>The number an entry has in a list of kept entries: its position, counted from one.\<close>

definition number_of :: "'a \<Rightarrow> 'a list \<Rightarrow> int" where
  "number_of e es = int (length (takeWhile (\<lambda>x. x \<noteq> e) es)) + 1"

definition tlook :: "compressor \<Rightarrow> entry \<Rightarrow> int option" where
  "tlook st e = (case type_content (mSet st) (fst e) of None \<Rightarrow> None | Some cm \<Rightarrow> cm (snd e))"

definition consistent :: "compressor \<Rightarrow> bool" where
  "consistent st \<longleftrightarrow>
     length (flags st) = length (insts st) \<and>
     newInc st = int (length (index (mSet st))) \<and>
     (\<forall>k < length (index (mSet st)).
        index (mSet st) ! k < length (insts st) \<and> \<not> flags st ! (index (mSet st) ! k) \<and>
        inst_id (insts st ! (index (mSet st) ! k)) = int k + 1) \<and>
     (\<forall>e. tlook st e = (if e \<in> set (entries st) then Some (number_of e (entries st)) else None)) \<and>
     distinct (entries st)"

lemma number_of_append: "e \<in> set xs \<Longrightarrow> number_of e (xs @ ys) = number_of e xs"
  by (simp add: number_of_def)

lemma number_of_fresh: "e \<notin> set xs \<Longrightarrow> number_of e (xs @ [e]) = int (length xs) + 1"
proof -
  assume "e \<notin> set xs"
  then have "takeWhile (\<lambda>x. x \<noteq> e) (xs @ [e]) = xs"
    by (subst takeWhile_append2) auto
  then show ?thesis by (simp add: number_of_def)
qed

lemma number_of_bounds: "e \<in> set xs \<Longrightarrow> 1 \<le> number_of e xs \<and> number_of e xs \<le> int (length xs)"
proof -
  assume "e \<in> set xs"
  then have "length (takeWhile (\<lambda>x. x \<noteq> e) xs) < length xs"
    by (metis (mono_tags, lifting) length_takeWhile_le nth_length_takeWhile order_le_less takeWhile_eq_all_conv
        takeWhile_eq_take take_all_iff)
  then show ?thesis by (simp add: number_of_def)
qed

lemma number_of_nth: "distinct xs \<Longrightarrow> k < length xs \<Longrightarrow> number_of (xs ! k) xs = int k + 1"
proof (induction xs arbitrary: k)
  case (Cons x xs)
  then show ?case by (cases k) (auto simp: number_of_def)
qed simp

lemma nth_number_of: "e \<in> set xs \<Longrightarrow> xs ! nat (number_of e xs - 1) = e"
  by (induction xs) (auto simp: number_of_def nat_add_distrib)

text \<open>The content table with one more entry.\<close>

definition add_entry ::
    "(string \<rightharpoonup> (string \<rightharpoonup> int)) \<Rightarrow> entry \<Rightarrow> int \<Rightarrow> (string \<rightharpoonup> (string \<rightharpoonup> int))" where
  "add_entry tc e n =
     tc(fst e \<mapsto> (case tc (fst e) of None \<Rightarrow> [snd e \<mapsto> n] | Some cm \<Rightarrow> cm(snd e \<mapsto> n)))"

lemma add_entry_look:
  "(case add_entry tc e n (fst e') of None \<Rightarrow> None | Some cm \<Rightarrow> cm (snd e')) =
   (if e' = e then Some n else case tc (fst e') of None \<Rightarrow> None | Some cm \<Rightarrow> cm (snd e'))"
  by (cases e; cases e') (auto simp: add_entry_def split: option.splits)

lemma add_entry_cases:
  "tc a = None \<Longrightarrow> (\<lambda>n. tc(a \<mapsto> [c \<mapsto> n])) = add_entry tc (a, c)"
  "tc a = Some cm \<Longrightarrow> (\<lambda>n. tc(a \<mapsto> cm(c \<mapsto> n))) = add_entry tc (a, c)"
  by (auto simp: add_entry_def)

section \<open>The steps in terms of the table\<close>

lemma match_at_eq:
  "match_at flag i st =
     (if flags st ! i \<and> inst_flag (insts st ! i) then
        settle_at i
          (case tlook st (entry_of (insts st ! i)) of
             None \<Rightarrow> keep_at (\<lambda>n. add_entry (type_content (mSet st)) (entry_of (insts st ! i)) n) i
                       (st\<lparr>iterCount := iterCount st + 1\<rparr>)
           | Some b \<Rightarrow> drop_duplicate flag (insts st ! i) b (st\<lparr>iterCount := iterCount st + 1\<rparr>))
      else st)"
  by (auto simp: match_at_def tlook_def entry_of_def Let_def add_entry_cases split: option.splits)

definition parsed_instance :: "parsed \<Rightarrow> IfcInstance" where
  "parsed_instance p =
     (let (id, ty, c, cites) = p
      in \<lparr>inst_id = id, inst_type = ty, inst_content = c, inst_flag = (cites = [])\<rparr>)"

lemma ingest_eq:
  "ingest flag p st0 =
     (let st = st0\<lparr>totalCount := totalCount st0 + 1\<rparr>; x = parsed_instance p
      in if inst_flag x then
           (case tlook st (entry_of x) of
              None \<Rightarrow> keep_first (\<lambda>n. add_entry (type_content (mSet st)) (entry_of x) n) x
                        (st\<lparr>iterCount := iterCount st + 1\<rparr>)
            | Some b \<Rightarrow> drop_duplicate flag x b (st\<lparr>iterCount := iterCount st + 1\<rparr>))
         else st\<lparr>umSet := (umSet st)\<lparr>um_instance := insts st @ [x], um_flag := flags st @ [True]\<rparr>\<rparr>)"
  by (cases p) (auto simp: ingest_def parsed_instance_def tlook_def entry_of_def Let_def add_entry_cases
      split: option.splits)

section \<open>Effects\<close>

text \<open>\<open>settles st st' old e\<close>: the instance numbered \<open>old\<close> now stands for the entry \<open>e\<close>.\<close>

definition settles :: "compressor \<Rightarrow> compressor \<Rightarrow> int \<Rightarrow> entry \<Rightarrow> bool" where
  "settles st st' old e \<longleftrightarrow>
     entries st' = (if e \<in> set (entries st) then entries st else entries st @ [e]) \<and>
     renum st' = pm_insert old (number_of e (entries st')) (renum st) \<and>
     newInc st' + deleteCount st' = newInc st + deleteCount st + 1"

lemma consistent_look:
  "consistent st \<Longrightarrow>
   tlook st e = (if e \<in> set (entries st) then Some (number_of e (entries st)) else None)"
  unfolding consistent_def by blast

lemma length_entries: "length (entries st) = length (index (mSet st))"
  by (simp add: entries_def kept_def)

lemma entries_cong:
  "index (mSet st') = index (mSet st) \<Longrightarrow>
   (\<And>k. k \<in> set (index (mSet st)) \<Longrightarrow> entry_of (insts st' ! k) = entry_of (insts st ! k)) \<Longrightarrow>
   entries st' = entries st"
  by (simp add: entries_def kept_def)

lemma consistent_index: "consistent st \<Longrightarrow> k \<in> set (index (mSet st)) \<Longrightarrow>
    k < length (insts st) \<and> \<not> flags st ! k"
  by (auto simp: consistent_def in_set_conv_nth)

text \<open>Two ways to stay consistent: the kept instances are untouched, or one entry is added.\<close>

definition same_kept :: "compressor \<Rightarrow> compressor \<Rightarrow> bool" where
  "same_kept st st' \<longleftrightarrow>
     length (flags st') = length (insts st') \<and>
     (\<forall>k \<in> set (index (mSet st)). k < length (insts st') \<and> \<not> flags st' ! k \<and>
        inst_id (insts st' ! k) = inst_id (insts st ! k) \<and>
        entry_of (insts st' ! k) = entry_of (insts st ! k))"

lemma consistent_frame:
  assumes "consistent st" "same_kept st st'" "index (mSet st') = index (mSet st)"
    "newInc st' = newInc st" "type_content (mSet st') = type_content (mSet st)"
  shows "consistent st'" and "entries st' = entries st"
proof -
  show e: "entries st' = entries st"
    using assms by (intro entries_cong) (auto simp: same_kept_def)
  have "tlook st' = tlook st" using assms(5) by (simp add: tlook_def fun_eq_iff)
  then show "consistent st'"
    using assms e unfolding consistent_def same_kept_def by (metis nth_mem)
qed

lemma consistent_extend:
  assumes c: "consistent st" and sk: "same_kept st st'" and ix: "index (mSet st') = index (mSet st) @ [i]"
    and n: "newInc st' = newInc st + 1"
    and tc: "type_content (mSet st') = add_entry (type_content (mSet st)) e (newInc st + 1)"
    and e: "e \<notin> set (entries st)" "entry_of (insts st' ! i) = e"
    and i: "i < length (insts st')" "\<not> flags st' ! i" "inst_id (insts st' ! i) = newInc st + 1"
  shows "consistent st'" and "entries st' = entries st @ [e]" and "number_of e (entries st') = newInc st'"
proof -
  show es: "entries st' = entries st @ [e]"
    using sk ix e(2) by (auto simp: entries_def kept_def same_kept_def)
  show nr: "number_of e (entries st') = newInc st'"
    using e(1) c n by (simp add: es number_of_fresh length_entries consistent_def)
  have tl: "tlook st' e' = (if e' = e then Some (newInc st + 1) else tlook st e')" for e'
    using add_entry_look[where e = e and e' = e' and n = "newInc st + 1" and tc = "type_content (mSet st)"] tc by (simp add: tlook_def)
  have "tlook st' e' = (if e' \<in> set (entries st') then Some (number_of e' (entries st')) else None)" for e'
    using consistent_look[OF c, of e'] nr n by (auto simp: tl es number_of_append)
  moreover have "distinct (entries st')" using c e(1) by (simp add: es consistent_def)
  moreover have "index (mSet st') ! k < length (insts st') \<and> \<not> flags st' ! (index (mSet st') ! k) \<and>
      inst_id (insts st' ! (index (mSet st') ! k)) = int k + 1"
    if "k < length (index (mSet st'))" for k
  proof (cases "k < length (index (mSet st))")
    case True
    then have "index (mSet st') ! k = index (mSet st) ! k" "index (mSet st) ! k \<in> set (index (mSet st))"
      by (simp_all add: ix nth_append)
    with True c sk show ?thesis by (simp add: consistent_def same_kept_def)
  next
    case False
    with that have "k = length (index (mSet st))" by (simp add: ix)
    with i c n show ?thesis by (simp add: ix consistent_def)
  qed
  ultimately show "consistent st'"
    using c sk n by (simp add: consistent_def same_kept_def ix)
qed

lemma match_at_duplicate:
  fixes flag :: int
  assumes c: "consistent st" and i: "i < length (insts st)" "flags st ! i" "inst_flag (insts st ! i)"
    and e: "entry_of (insts st ! i) \<in> set (entries st)"
  defines "x \<equiv> insts st ! i" and "st' \<equiv> match_at flag i st"
  shows "consistent st' \<and> settles st st' (inst_id x) (entry_of x) \<and> flags st' = (flags st)[i := False] \<and>
     length (insts st') = length (insts st) \<and> (\<forall>j. j \<noteq> i \<longrightarrow> insts st' ! j = insts st ! j) \<and>
     um_totalCount (umSet st') = um_totalCount (umSet st) - 1 \<and> totalCount st' = totalCount st"
proof -
  let ?e = "entry_of x"
  have ni: "i \<notin> set (index (mSet st))" using c i consistent_index by blast
  have lens: "length (flags st) = length (insts st)" using c by (simp add: consistent_def)
  have "tlook st ?e = Some (number_of ?e (entries st))" using e consistent_look[OF c, of ?e] by (simp add: x_def)
  then have st': "st' = settle_at i (drop_duplicate flag x (number_of ?e (entries st)) (st\<lparr>iterCount := iterCount st + 1\<rparr>))"
    unfolding st'_def match_at_eq using i by (simp add: x_def)
  have f: "insts st' = insts st" "flags st' = (flags st)[i := False]" "index (mSet st') = index (mSet st)"
      "newInc st' = newInc st" "type_content (mSet st') = type_content (mSet st)"
      "renum st' = pm_insert (inst_id x) (number_of ?e (entries st)) (renum st)"
      "deleteCount st' = deleteCount st + 1" "totalCount st' = totalCount st"
      "um_totalCount (umSet st') = um_totalCount (umSet st) - 1"
    by (simp_all add: st' settle_at_def drop_duplicate_def Let_def)
  have "same_kept st st'"
    using consistent_index[OF c] lens ni by (auto simp: same_kept_def f nth_list_update_eq_if)
  from consistent_frame[OF c this f(3,4,5)] e f show ?thesis by (simp add: settles_def x_def)
qed

lemma match_at_kept:
  fixes flag :: int
  assumes c: "consistent st" and i: "i < length (insts st)" "flags st ! i" "inst_flag (insts st ! i)"
    and e: "entry_of (insts st ! i) \<notin> set (entries st)"
  defines "x \<equiv> insts st ! i" and "st' \<equiv> match_at flag i st"
  shows "consistent st' \<and> settles st st' (inst_id x) (entry_of x) \<and> flags st' = (flags st)[i := False] \<and>
     length (insts st') = length (insts st) \<and> (\<forall>j. j \<noteq> i \<longrightarrow> insts st' ! j = insts st ! j) \<and>
     um_totalCount (umSet st') = um_totalCount (umSet st) - 1 \<and> totalCount st' = totalCount st"
proof -
  let ?e = "entry_of x"
  have ni: "i \<notin> set (index (mSet st))" using c i consistent_index by blast
  have lens: "length (flags st) = length (insts st)" using c by (simp add: consistent_def)
  have new: "?e \<notin> set (entries st)" using e by (simp add: x_def)
  then have "tlook st ?e = None" using consistent_look[OF c, of ?e] by simp
  then have st': "st' = settle_at i (keep_at (\<lambda>n. add_entry (type_content (mSet st)) ?e n) i (st\<lparr>iterCount := iterCount st + 1\<rparr>))"
    unfolding st'_def match_at_eq using i by (simp add: x_def)
  have f: "insts st' = (insts st)[i := x\<lparr>inst_id := newInc st + 1\<rparr>]"
      "flags st' = (flags st)[i := False]" "index (mSet st') = index (mSet st) @ [i]"
      "newInc st' = newInc st + 1"
      "type_content (mSet st') = add_entry (type_content (mSet st)) ?e (newInc st + 1)"
      "renum st' = pm_insert (inst_id x) (newInc st + 1) (renum st)"
      "deleteCount st' = deleteCount st" "totalCount st' = totalCount st"
      "um_totalCount (umSet st') = um_totalCount (umSet st) - 1"
    by (simp_all add: st' settle_at_def keep_at_def Let_def x_def)
  have sk: "same_kept st st'"
    using consistent_index[OF c] lens ni by (auto simp: same_kept_def f nth_list_update_eq_if)
  have "entry_of (insts st' ! i) = ?e" "i < length (insts st')" "\<not> flags st' ! i"
      "inst_id (insts st' ! i) = newInc st + 1"
    using i(1) lens by (simp_all add: f entry_of_def)
  from consistent_extend[OF c sk f(3,4,5) new this] new f show ?thesis by (simp add: settles_def)
qed

lemma match_at_settles:
  fixes flag :: int
  assumes c: "consistent st" and i: "i < length (insts st)" "flags st ! i" "inst_flag (insts st ! i)"
  defines "x \<equiv> insts st ! i" and "st' \<equiv> match_at flag i st"
  shows "consistent st'" and "settles st st' (inst_id x) (entry_of x)"
    and "flags st' = (flags st)[i := False]"
    and "length (insts st') = length (insts st)"
    and "\<And>j. j \<noteq> i \<Longrightarrow> insts st' ! j = insts st ! j"
    and "um_totalCount (umSet st') = um_totalCount (umSet st) - 1"
    and "totalCount st' = totalCount st"
proof -
  have "consistent st' \<and> settles st st' (inst_id x) (entry_of x) \<and> flags st' = (flags st)[i := False] \<and>
     length (insts st') = length (insts st) \<and> (\<forall>j. j \<noteq> i \<longrightarrow> insts st' ! j = insts st ! j) \<and>
     um_totalCount (umSet st') = um_totalCount (umSet st) - 1 \<and> totalCount st' = totalCount st"
    unfolding x_def st'_def
    by (cases "entry_of (insts st ! i) \<in> set (entries st)") (rule match_at_duplicate[OF c i] match_at_kept[OF c i], assumption)+
  then show "consistent st'" "settles st st' (inst_id x) (entry_of x)" "flags st' = (flags st)[i := False]"
    "length (insts st') = length (insts st)" "\<And>j. j \<noteq> i \<Longrightarrow> insts st' ! j = insts st ! j"
    "um_totalCount (umSet st') = um_totalCount (umSet st) - 1" "totalCount st' = totalCount st"
    by blast+
qed

lemma match_at_skips: "\<not> (flags st ! i \<and> inst_flag (insts st ! i)) \<Longrightarrow> match_at flag i st = st"
  by (subst match_at_eq) (rule if_not_P)

end
