(* ===== verification/Ifc_Spec.thy ===== *)
theory Ifc_Spec
  imports Ifc_Steps
begin

text \<open>
  An abstract compressor and the refinement. The abstract state is the map from old to new
  numbers, the list of kept entries in output order, and the list of instances still waiting;
  its operations settle one instance, settle every ready instance, and rename the waiting ones.
  The concrete loops over \<open>umSet\<close> by index are shown to compute exactly these operations, on
  every state that satisfies the representation invariant.
\<close>

section \<open>The abstract compressor\<close>

type_synonym book = "(int \<rightharpoonup> int) \<times> entry list"

definition settle :: "IfcInstance \<Rightarrow> book \<Rightarrow> book" where
  "settle x b =
     (let es = (if entry_of x \<in> set (snd b) then snd b else snd b @ [entry_of x])
      in (pm_insert (inst_id x) (number_of (entry_of x) es) (fst b), es))"

definition book_of :: "compressor \<Rightarrow> book" where
  "book_of st = (renum st, entries st)"

definition waiting_upto :: "nat \<Rightarrow> compressor \<Rightarrow> IfcInstance list" where
  "waiting_upto n st = map (\<lambda>j. insts st ! j) (filter (\<lambda>j. flags st ! j) [0..<n])"

lemma waiting_Suc:
  "waiting_upto (Suc n) st = waiting_upto n st @ (if flags st ! n then [insts st ! n] else [])"
  by (simp add: waiting_upto_def)

lemma waiting_cong:
  "(\<And>j. j < n \<Longrightarrow> insts st ! j = insts st' ! j \<and> flags st ! j = flags st' ! j) \<Longrightarrow>
   waiting_upto n st = waiting_upto n st'"
  by (auto simp: waiting_upto_def intro!: map_cong filter_cong)

lemma zip_filter_upt:
  "length ys = length xs \<Longrightarrow>
   map fst (filter snd (zip xs ys)) = map (\<lambda>j. xs ! j) (filter (\<lambda>j. ys ! j) [0..<length xs])"
proof (induction xs arbitrary: ys rule: rev_induct)
  case (snoc x xs)
  then obtain zs z where ys: "ys = zs @ [z]" "length zs = length xs"
    by (cases ys rule: rev_cases) auto
  have "map (\<lambda>j. (xs @ [x]) ! j) (filter (\<lambda>j. (zs @ [z]) ! j) [0..<length xs]) =
        map (\<lambda>j. xs ! j) (filter (\<lambda>j. zs ! j) [0..<length xs])"
    using ys(2) by (auto simp: nth_append intro!: map_cong filter_cong)
  with snoc.IH[OF ys(2)] ys show ?case by (simp add: nth_append)
qed simp

lemma unsettled_waiting:
  "length (flags st) = length (insts st) \<Longrightarrow> unsettled st = waiting_upto (length (insts st)) st"
  by (simp add: unsettled_def waiting_upto_def zip_filter_upt)

section \<open>The first step\<close>

lemma kept_snoc_frame:
  assumes "consistent st" "insts st' = insts st @ [x]" "flags st' = flags st @ [b]"
  shows "same_kept st st'"
proof -
  have "length (flags st) = length (insts st)" using assms(1) by (simp add: consistent_def)
  with assms(2,3) consistent_index[OF assms(1)] show ?thesis
    by (auto simp: same_kept_def nth_append dest: less_imp_le intro: less_SucI)
qed

text \<open>The three ways of reading an instance: it waits, it is dropped, or it is kept.\<close>

lemma ingest_waiting:
  fixes flag :: int and p :: parsed
  assumes c: "consistent st" and w: "\<not> inst_flag (parsed_instance p)"
  defines "x \<equiv> parsed_instance p" and "st' \<equiv> ingest flag p st"
  shows "consistent st' \<and> book_of st' = book_of st \<and> unsettled st' = unsettled st @ [x] \<and>
     totalCount st' = totalCount st + 1 \<and> newInc st' + deleteCount st' = newInc st + deleteCount st \<and>
     um_totalCount (umSet st') + int (length (insts st')) = um_totalCount (umSet st) + int (length (insts st)) + 1"
proof -
  have lens: "length (flags st) = length (insts st)" using c by (simp add: consistent_def)
  have st': "st' = st\<lparr>totalCount := totalCount st + 1,
        umSet := (umSet st)\<lparr>um_instance := insts st @ [x], um_flag := flags st @ [True]\<rparr>\<rparr>"
    using w by (simp add: st'_def ingest_eq x_def[symmetric])
  have sk: "same_kept st st'" using c by (rule kept_snoc_frame) (simp_all add: st')
  have f: "index (mSet st') = index (mSet st)" "newInc st' = newInc st"
      "type_content (mSet st') = type_content (mSet st)"
    by (simp_all add: st')
  from consistent_frame[OF c sk f] lens show ?thesis by (simp add: st' book_of_def unsettled_def)
qed

lemma ingest_duplicate:
  fixes flag :: int and p :: parsed
  assumes c: "consistent st" and ready: "inst_flag (parsed_instance p)" and e: "entry_of (parsed_instance p) \<in> set (entries st)"
  defines "x \<equiv> parsed_instance p" and "st' \<equiv> ingest flag p st"
  shows "consistent st' \<and> book_of st' = settle x (book_of st) \<and> unsettled st' = unsettled st \<and>
     totalCount st' = totalCount st + 1 \<and> newInc st' + deleteCount st' = newInc st + deleteCount st + 1 \<and>
     um_totalCount (umSet st') + int (length (insts st')) = um_totalCount (umSet st) + int (length (insts st))"
proof -
  let ?e = "entry_of x"
  have lens: "length (flags st) = length (insts st)" using c by (simp add: consistent_def)
  have "tlook st ?e = Some (number_of ?e (entries st))" using e consistent_look[OF c, of ?e] by (simp add: x_def)
  then have st': "st' = drop_duplicate flag x (number_of ?e (entries st))
       (st\<lparr>totalCount := totalCount st + 1, iterCount := iterCount st + 1\<rparr>)"
    using ready by (simp add: st'_def ingest_eq x_def[symmetric] tlook_def)
  have f: "index (mSet st') = index (mSet st)" "newInc st' = newInc st"
      "type_content (mSet st') = type_content (mSet st)" "umSet st' = umSet st"
      "renum st' = pm_insert (inst_id x) (number_of ?e (entries st)) (renum st)"
      "deleteCount st' = deleteCount st + 1" "totalCount st' = totalCount st + 1"
    by (simp_all add: st' drop_duplicate_def Let_def)
  have "same_kept st st'" using consistent_index[OF c] lens by (auto simp: same_kept_def f)
  from consistent_frame[OF c this f(1-3)] e f show ?thesis
    by (simp add: book_of_def settle_def Let_def unsettled_def x_def)
qed

lemma ingest_first:
  fixes flag :: int and p :: parsed
  assumes c: "consistent st" and ready: "inst_flag (parsed_instance p)" and e: "entry_of (parsed_instance p) \<notin> set (entries st)"
  defines "x \<equiv> parsed_instance p" and "st' \<equiv> ingest flag p st"
  shows "consistent st' \<and> book_of st' = settle x (book_of st) \<and> unsettled st' = unsettled st \<and>
     totalCount st' = totalCount st + 1 \<and> newInc st' + deleteCount st' = newInc st + deleteCount st + 1 \<and>
     um_totalCount (umSet st') + int (length (insts st')) = um_totalCount (umSet st) + int (length (insts st))"
proof -
  let ?e = "entry_of x"
  have lens: "length (flags st) = length (insts st)" using c by (simp add: consistent_def)
  have new: "?e \<notin> set (entries st)" using e by (simp add: x_def)
  then have "tlook st ?e = None" using consistent_look[OF c, of ?e] by simp
  then have st': "st' = keep_first (add_entry (type_content (mSet st)) ?e) x
       (st\<lparr>totalCount := totalCount st + 1, iterCount := iterCount st + 1\<rparr>)"
    using ready by (simp add: st'_def ingest_eq x_def[symmetric] tlook_def)
  have f: "insts st' = insts st @ [x\<lparr>inst_id := newInc st + 1\<rparr>]" "flags st' = flags st @ [False]"
      "index (mSet st') = index (mSet st) @ [length (insts st)]" "newInc st' = newInc st + 1"
      "type_content (mSet st') = add_entry (type_content (mSet st)) ?e (newInc st + 1)"
      "renum st' = pm_insert (inst_id x) (newInc st + 1) (renum st)"
      "deleteCount st' = deleteCount st" "totalCount st' = totalCount st + 1"
      "um_totalCount (umSet st') = um_totalCount (umSet st) - 1"
    by (simp_all add: st' keep_first_def Let_def)
  have sk: "same_kept st st'" using c f(1,2) by (rule kept_snoc_frame)
  have "entry_of (insts st' ! length (insts st)) = ?e" "length (insts st) < length (insts st')"
      "\<not> flags st' ! length (insts st)" "inst_id (insts st' ! length (insts st)) = newInc st + 1"
    using lens by (simp_all add: f entry_of_def nth_append)
  note ext = consistent_extend[OF c sk f(3,4,5) new this]
  have "unsettled st' = unsettled st" using lens by (simp add: unsettled_def f)
  with ext new f show ?thesis by (simp add: book_of_def settle_def Let_def)
qed

lemma ingest_refines:
  fixes flag :: int and p :: parsed
  assumes c: "consistent st"
  defines "x \<equiv> parsed_instance p" and "st' \<equiv> ingest flag p st"
  shows "consistent st' \<and>
     book_of st' = (if inst_flag x then settle x (book_of st) else book_of st) \<and>
     unsettled st' = (if inst_flag x then unsettled st else unsettled st @ [x]) \<and>
     totalCount st' = totalCount st + 1 \<and>
     newInc st' + deleteCount st' = newInc st + deleteCount st + (if inst_flag x then 1 else 0) \<and>
     um_totalCount (umSet st') + int (length (insts st')) =
       um_totalCount (umSet st) + int (length (insts st)) + (if inst_flag x then 0 else 1)"
  using ingest_waiting[OF c, of p flag] ingest_duplicate[OF c, of p flag] ingest_first[OF c, of p flag]
  by (simp only: x_def st'_def) (cases "inst_flag (parsed_instance p)"; cases "entry_of (parsed_instance p) \<in> set (entries st)"; simp)

section \<open>The matching loop of a round\<close>

lemma match_at_refines:
  fixes flag :: int
  assumes c: "consistent st" and i: "i < length (insts st)"
  defines "st' \<equiv> match_at flag i st" and "r \<equiv> flags st ! i \<and> inst_flag (insts st ! i)"
  shows "consistent st' \<and> length (insts st') = length (insts st) \<and>
     book_of st' = (if r then settle (insts st ! i) (book_of st) else book_of st) \<and>
     flags st' = (if r then (flags st)[i := False] else flags st) \<and>
     (\<forall>j. j \<noteq> i \<longrightarrow> insts st' ! j = insts st ! j) \<and> (\<not> r \<longrightarrow> insts st' = insts st) \<and>
     totalCount st' = totalCount st \<and>
     newInc st' + deleteCount st' = newInc st + deleteCount st + (if r then 1 else 0) \<and>
     um_totalCount (umSet st') = um_totalCount (umSet st) - (if r then 1 else 0)"
proof (cases r)
  case True
  then have f: "flags st ! i" "inst_flag (insts st ! i)" by (auto simp: r_def)
  from match_at_settles[OF c i this, where flag = flag, folded st'_def] True show ?thesis
    by (simp add: settles_def book_of_def settle_def Let_def)
next
  case False
  then have "st' = st" unfolding st'_def r_def by (rule match_at_skips)
  with c False show ?thesis by simp
qed

definition ready :: "compressor \<Rightarrow> nat \<Rightarrow> IfcInstance list" where
  "ready st n = filter inst_flag (waiting_upto n st)"

lemma match_upto:
  fixes flag :: int
  assumes c: "consistent st" and n: "n \<le> length (insts st)"
  defines "st' \<equiv> fold (match_at flag) [0..<n] st"
  shows "consistent st' \<and> length (insts st') = length (insts st) \<and>
     (\<forall>j \<ge> n. insts st' ! j = insts st ! j \<and> flags st' ! j = flags st ! j) \<and>
     waiting_upto n st' = filter (\<lambda>x. \<not> inst_flag x) (waiting_upto n st) \<and>
     book_of st' = fold settle (ready st n) (book_of st) \<and>
     totalCount st' = totalCount st \<and>
     newInc st' + deleteCount st' = newInc st + deleteCount st + int (length (ready st n)) \<and>
     um_totalCount (umSet st') = um_totalCount (umSet st) - int (length (ready st n))"
  unfolding st'_def using n
proof (induction n)
  case 0
  with c show ?case by (simp add: waiting_upto_def ready_def)
next
  case (Suc n)
  define s where "s = fold (match_at flag) [0..<n] st"
  have IH: "consistent s" "length (insts s) = length (insts st)"
      "\<forall>j \<ge> n. insts s ! j = insts st ! j \<and> flags s ! j = flags st ! j"
      "waiting_upto n s = filter (\<lambda>x. \<not> inst_flag x) (waiting_upto n st)"
      "book_of s = fold settle (ready st n) (book_of st)"
      "totalCount s = totalCount st"
      "newInc s + deleteCount s = newInc st + deleteCount st + int (length (ready st n))"
      "um_totalCount (umSet s) = um_totalCount (umSet st) - int (length (ready st n))"
    using Suc unfolding s_def by simp_all
  have len: "length (flags s) = length (insts s)" using IH(1) by (simp add: consistent_def)
  note M = match_at_refines[OF IH(1), of n flag]
  let ?s = "match_at flag n s" and ?r = "flags st ! n \<and> inst_flag (insts st ! n)"
  have n: "n < length (insts s)" using Suc.prems IH(2) by simp
  have at: "insts s ! n = insts st ! n" "flags s ! n = flags st ! n" using IH(3) by auto
  have w: "waiting_upto n ?s = waiting_upto n s"
    using M[OF n] by (intro waiting_cong) (auto simp: nth_list_update_eq_if)
  have rd: "ready st (Suc n) = ready st n @ (if ?r then [insts st ! n] else [])"
    by (auto simp: ready_def waiting_Suc)
  have "waiting_upto (Suc n) ?s = filter (\<lambda>x. \<not> inst_flag x) (waiting_upto (Suc n) st)"
    using M[OF n] IH(4) w at len n by (auto simp: waiting_Suc nth_list_update_eq_if)
  moreover have "\<forall>j \<ge> Suc n. insts ?s ! j = insts st ! j \<and> flags ?s ! j = flags st ! j"
    using M[OF n] IH(3) by (auto simp: nth_list_update_eq_if)
  moreover have "fold (match_at flag) [0..<Suc n] st = ?s" by (simp add: s_def)
  ultimately show ?case using M[OF n] IH at by (auto simp: rd)
qed

lemma match_all_refines:
  fixes flag :: int
  assumes c: "consistent st"
  defines "st' \<equiv> match_all flag st" and "k \<equiv> int (length (filter inst_flag (unsettled st)))"
  shows "consistent st'" and "length (insts st') = length (insts st)"
    and "unsettled st' = filter (\<lambda>x. \<not> inst_flag x) (unsettled st)"
    and "book_of st' = fold settle (filter inst_flag (unsettled st)) (book_of st)"
    and "totalCount st' = totalCount st"
    and "newInc st' + deleteCount st' = newInc st + deleteCount st + k"
    and "um_totalCount (umSet st') = um_totalCount (umSet st) - k"
proof -
  have u: "unsettled s = waiting_upto (length (insts s)) s" if "consistent s" for s
    using that unsettled_waiting by (simp add: consistent_def)
  note M = match_upto[OF c order_refl, of flag, folded match_all_def, folded st'_def]
  show "consistent st'" "length (insts st') = length (insts st)"
    using M by simp_all
  then show "unsettled st' = filter (\<lambda>x. \<not> inst_flag x) (unsettled st)"
    using M c by (simp add: u)
  show "book_of st' = fold settle (filter inst_flag (unsettled st)) (book_of st)"
    "totalCount st' = totalCount st"
    "newInc st' + deleteCount st' = newInc st + deleteCount st + k"
    "um_totalCount (umSet st') = um_totalCount (umSet st) - k"
    using M c by (simp_all add: u ready_def k_def)
qed

section \<open>The renaming loops\<close>

definition rename_inst :: "(int \<rightharpoonup> int) \<Rightarrow> IfcInstance \<Rightarrow> IfcInstance res" where
  "rename_inst rel x =
     rbind (RenameContent rel (inst_content x)) (\<lambda>(c, b). Inr (x\<lparr>inst_content := c, inst_flag := b\<rparr>))"

lemma rename_inst_id: "rename_inst rel x = Inr y \<Longrightarrow> inst_id y = inst_id x \<and> inst_type y = inst_type x"
  by (auto simp: rename_inst_def rbind_eq_Inr)

definition with_insts :: "IfcInstance list \<Rightarrow> compressor \<Rightarrow> compressor" where
  "with_insts xs st = st\<lparr>umSet := (umSet st)\<lparr>um_instance := xs\<rparr>\<rparr>"

lemma with_insts_simps [simp]:
  "insts (with_insts xs st) = xs" "flags (with_insts xs st) = flags st"
  "mSet (with_insts xs st) = mSet st" "newInc (with_insts xs st) = newInc st"
  "deleteCount (with_insts xs st) = deleteCount st" "totalCount (with_insts xs st) = totalCount st"
  "um_totalCount (umSet (with_insts xs st)) = um_totalCount (umSet st)"
  "with_insts ys (with_insts xs st) = with_insts ys st"
  by (simp_all add: with_insts_def)

text \<open>The loops that rename read and write a list of instances inside a state. The interface: reading
  back what was written, writing twice, and leaving the map of numbers alone.\<close>

locale inst_store =
  fixes get :: "'s \<Rightarrow> IfcInstance list"
    and put :: "IfcInstance list \<Rightarrow> 's \<Rightarrow> 's"
    and rel :: "'s \<Rightarrow> (int \<rightharpoonup> int)"
  assumes get_put [simp]: "get (put xs s) = xs"
    and put_get [simp]: "put (get s) s = s"
    and put_put [simp]: "put ys (put xs s) = put ys s"
    and rel_put [simp]: "rel (put xs s) = rel s"
begin

lemma rename_upto:
  assumes "n \<le> length (get s)"
    and "\<And>j. j < n \<Longrightarrow> if P j then rename_inst (rel s) (get s ! j) = Inr (g j) else g j = get s ! j"
    and f: "\<And>j xs. f j (put xs s) =
      (if P j then rbind (rename_inst (rel s) (xs ! j)) (\<lambda>y. Inr (put (xs[j := y]) s)) else Inr (put xs s))"
  shows "rfold f [0..<n] s = Inr (put (map g [0..<n] @ drop n (get s)) s)"
  using assms(1,2)
proof (induction n)
  case (Suc n)
  let ?xs = "map g [0..<n] @ drop n (get s)"
  have d: "drop n (get s) = get s ! n # drop (Suc n) (get s)"
    using Suc.prems(1) by (simp add: Cons_nth_drop_Suc)
  have at: "?xs ! n = get s ! n" "?xs[n := g n] = map g [0..<Suc n] @ drop (Suc n) (get s)"
    by (simp_all add: d nth_append list_update_append)
  have "f n (put ?xs s) = Inr (put (map g [0..<Suc n] @ drop (Suc n) (get s)) s)"
    using Suc.prems(2)[of n] at by (simp add: f d split: if_splits)
  with Suc show ?case by (simp add: rfold_append)
qed simp

lemma rename_effect:
  assumes "n \<le> length (get s)" and "rfold f [0..<n] s = Inr r"
    and f: "\<And>j xs. f j (put xs s) =
      (if P j then rbind (rename_inst (rel s) (xs ! j)) (\<lambda>y. Inr (put (xs[j := y]) s)) else Inr (put xs s))"
  shows "\<exists>xs. r = put xs s \<and> length xs = length (get s) \<and> (\<forall>j \<ge> n. xs ! j = get s ! j) \<and>
    (\<forall>j < n. if P j then rename_inst (rel s) (get s ! j) = Inr (xs ! j) else xs ! j = get s ! j)"
  using assms(1,2)
proof (induction n arbitrary: r)
  case 0
  then show ?case by (intro exI[of _ "get s"]) simp
next
  case (Suc n)
  then obtain r1 where r1: "rfold f [0..<n] s = Inr r1" "f n r1 = Inr r"
    by (auto simp: rfold_append rbind_eq_Inr)
  from Suc.IH[OF Suc_leD[OF Suc.prems(1)] r1(1)] obtain xs where xs: "r1 = put xs s" "length xs = length (get s)"
      "\<forall>j \<ge> n. xs ! j = get s ! j"
      "\<forall>j < n. if P j then rename_inst (rel s) (get s ! j) = Inr (xs ! j) else xs ! j = get s ! j" by blast
  show ?case
  proof (cases "P n")
    case True
    with r1(2) xs(1,3) obtain y where y: "rename_inst (rel s) (get s ! n) = Inr y" "r = put (xs[n := y]) s"
      by (auto simp: f rbind_eq_Inr)
    with xs True Suc.prems(1) show ?thesis
      by (intro exI[of _ "xs[n := y]"]) (auto simp: nth_list_update_eq_if less_Suc_eq)
  next
    case False
    with r1(2) xs have "r = put xs s" by (simp add: f)
    with xs False show ?thesis by (intro exI[of _ xs]) (auto simp: less_Suc_eq)
  qed
qed

end

interpretation store: inst_store insts with_insts renum
  by unfold_locales (simp_all add: with_insts_def)

lemma rename_at_with:
  "rename_at i (with_insts xs st) =
     rbind (rename_inst (renum st) (xs ! i)) (\<lambda>y. Inr (with_insts (xs[i := y]) st))"
  by (cases "RenameContent (renum st) (inst_content (xs ! i))")
     (auto simp: rename_at_def rename_inst_def with_insts_def Let_def)

lemma with_insts_consistent:
  assumes c: "consistent st" and l: "length xs = length (insts st)"
    and k: "\<And>j. j < length xs \<Longrightarrow> \<not> flags st ! j \<Longrightarrow>
              entry_of (xs ! j) = entry_of (insts st ! j) \<and> inst_id (xs ! j) = inst_id (insts st ! j)"
  shows "consistent (with_insts xs st)" and "book_of (with_insts xs st) = book_of st"
    and "unsettled (with_insts xs st) = map (\<lambda>j. xs ! j) (filter (\<lambda>j. flags st ! j) [0..<length xs])"
proof -
  have lens: "length (flags st) = length (insts st)" using c by (simp add: consistent_def)
  have "same_kept st (with_insts xs st)"
    using consistent_index[OF c] l lens k by (simp add: same_kept_def)
  from consistent_frame[OF c this]
  show "consistent (with_insts xs st)" and "book_of (with_insts xs st) = book_of st"
    by (simp_all add: book_of_def)
  show "unsettled (with_insts xs st) = map (\<lambda>j. xs ! j) (filter (\<lambda>j. flags st ! j) [0..<length xs])"
    using lens l by (simp add: unsettled_def zip_filter_upt)
qed

lemma in_waiting:
  "consistent st \<Longrightarrow> j < length (insts st) \<Longrightarrow> flags st ! j \<Longrightarrow> insts st ! j \<in> set (unsettled st)"
  by (auto simp: unsettled_waiting consistent_def waiting_upto_def)

lemma refresh_all_refines:
  assumes c: "consistent st"
    and g: "\<And>x. x \<in> set (unsettled st) \<Longrightarrow> rename_inst (renum st) x = Inr (g x)"
  obtains st' where "refresh_all st = Inr st'" "consistent st'" "book_of st' = book_of st"
    "unsettled st' = map g (unsettled st)" "newInc st' = newInc st" "deleteCount st' = deleteCount st"
    "totalCount st' = totalCount st" "um_totalCount (umSet st') = um_totalCount (umSet st)"
proof -
  let ?n = "length (insts st)" and ?P = "\<lambda>j. flags st ! j"
  let ?g = "\<lambda>j. if ?P j then g (insts st ! j) else insts st ! j"
  let ?s = "with_insts (map ?g [0..<?n]) st"
  have "refresh_all st = Inr (with_insts (map ?g [0..<?n] @ drop ?n (insts st)) st)"
    unfolding refresh_all_def
    by (rule store.rename_upto[where P = ?P]) (auto simp: refresh_at_def rename_at_with g in_waiting[OF c])
  moreover have "consistent ?s" "book_of ?s = book_of st"
      "unsettled ?s = map (\<lambda>j. map ?g [0..<?n] ! j) (filter ?P [0..<?n])"
    using with_insts_consistent[OF c, of "map ?g [0..<?n]"] by simp_all
  moreover have "map (\<lambda>j. map ?g [0..<?n] ! j) (filter ?P [0..<?n]) = map g (unsettled st)"
    using c by (auto simp: unsettled_waiting consistent_def waiting_upto_def)
  ultimately show ?thesis by (intro that[of ?s]) simp_all
qed

lemma rename_all_refines:
  assumes c: "consistent st"
    and g: "\<And>x. x \<in> set (insts st) \<Longrightarrow> rename_inst (renum st) x = Inr (g x)"
    and k: "\<And>j. j < length (insts st) \<Longrightarrow> \<not> flags st ! j \<Longrightarrow>
              inst_content (g (insts st ! j)) = inst_content (insts st ! j)"
  obtains st' where "rename_all st = Inr st'" "consistent st'" "book_of st' = book_of st"
    "unsettled st' = map g (unsettled st)" "newInc st' = newInc st" "deleteCount st' = deleteCount st"
    "totalCount st' = totalCount st" "um_totalCount (umSet st') = um_totalCount (umSet st)"
proof -
  let ?n = "length (insts st)"
  let ?g = "\<lambda>j. g (insts st ! j)"
  let ?s = "with_insts (map ?g [0..<?n]) st"
  have "rename_all st = Inr (with_insts (map ?g [0..<?n] @ drop ?n (insts st)) st)"
    unfolding rename_all_def
    by (rule store.rename_upto[where P = "\<lambda>_. True"]) (auto simp: rename_at_with g)
  moreover have "entry_of (g x) = entry_of x \<and> inst_id (g x) = inst_id x"
    if "x \<in> set (insts st)" "inst_content (g x) = inst_content x" for x
    using rename_inst_id[OF g[OF that(1)]] that(2) by (simp add: entry_of_def)
  then have "consistent ?s" "book_of ?s = book_of st"
      "unsettled ?s = map (\<lambda>j. map ?g [0..<?n] ! j) (filter (\<lambda>j. flags st ! j) [0..<?n])"
    using with_insts_consistent[OF c, of "map ?g [0..<?n]"] k by simp_all
  moreover have "map (\<lambda>j. map ?g [0..<?n] ! j) (filter (\<lambda>j. flags st ! j) [0..<?n]) = map g (unsettled st)"
    using c by (auto simp: unsettled_waiting consistent_def waiting_upto_def)
  ultimately show ?thesis by (intro that[of ?s]) simp_all
qed

end
