(* ===== verification/Ifc_Invariant.thy ===== *)
theory Ifc_Invariant
  imports Ifc_Spec
begin

text \<open>
  The invariant of the numbering. For a list \<open>ps\<close> of parsed instances, \<open>numbered\<close> says that
  an instance, its references renamed through the map, is the kept entry with the number the map
  gives it, and that every reference in it has a smaller number; \<open>books\<close> says that this holds of
  every instance the map knows. Settling one more instance whose references are all known keeps
  it, and so does every list of such settlements.
\<close>

section \<open>Parsed instances\<close>

abbreviation p_id :: "parsed \<Rightarrow> int" where "p_id p \<equiv> fst p"
abbreviation p_type :: "parsed \<Rightarrow> string" where "p_type p \<equiv> fst (snd p)"
abbreviation p_content :: "parsed \<Rightarrow> string" where "p_content p \<equiv> fst (snd (snd p))"
abbreviation p_cites :: "parsed \<Rightarrow> int list" where "p_cites p \<equiv> snd (snd (snd p))"

text \<open>The content is a list of well-formed fields and the references are those in it.\<close>

definition good :: "parsed \<Rightarrow> bool" where
  "good p \<longleftrightarrow> (\<exists>fs. ok_content (p_content p) fs \<and> p_cites p = refs_of fs)"

definition ren :: "(int \<rightharpoonup> int) \<Rightarrow> string \<Rightarrow> string" where
  "ren rel c = (case RenameContent rel c of Inl _ \<Rightarrow> c | Inr (t, _) \<Rightarrow> t)"

definition renamed :: "(int \<rightharpoonup> int) \<Rightarrow> parsed \<Rightarrow> entry" where
  "renamed rel p = (p_type p, ren rel (p_content p))"

definition known :: "(int \<rightharpoonup> int) \<Rightarrow> parsed \<Rightarrow> bool" where
  "known rel p \<longleftrightarrow> list_all (\<lambda>r. rel r \<noteq> None) (p_cites p)"

lemma known_iff: "known rel p \<longleftrightarrow> set (p_cites p) \<subseteq> dom rel"
  by (auto simp: known_def list_all_iff)

lemma good_rename:
  "good p \<Longrightarrow> RenameContent rel (p_content p) = Inr (ren rel (p_content p), known rel p)"
  by (auto simp: good_def ren_def RenameContent_eq known_iff)

lemma ren_unknown: "good p \<Longrightarrow> \<not> known rel p \<Longrightarrow> ren rel (p_content p) = p_content p"
  by (unfold good_def, elim exE conjE) (simp add: ren_def RenameContent_eq known_iff)

lemma ren_known:
  "ok_content (p_content p) fs \<Longrightarrow> p_cites p = refs_of fs \<Longrightarrow> known rel p \<Longrightarrow>
   ren rel (p_content p) = text_of (rename_fields rel fs)"
  by (simp add: ren_def RenameContent_eq known_iff)

lemma renamed_mono:
  assumes "good p" "known rel p" "rel \<subseteq>\<^sub>m rel'"
  shows "renamed rel' p = renamed rel p" and "known rel' p"
proof -
  show k: "known rel' p" using assms map_le_implies_dom_le by (fastforce simp: known_iff)
  obtain fs where fs: "ok_content (p_content p) fs" "p_cites p = refs_of fs"
    using assms(1) by (auto simp: good_def)
  with assms k have "rename_fields rel fs = rename_fields rel' fs"
    by (intro rename_fields_mono) (simp_all add: known_iff)
  with fs k assms(2) show "renamed rel' p = renamed rel p" by (simp add: renamed_def ren_known)
qed

lemma renamed_no_refs:
  assumes "good p" "p_cites p = []"
  shows "renamed rel p = (p_type p, p_content p)" and "RenameContent rel (p_content p) = Inr (p_content p, True)"
proof -
  obtain fs where fs: "ok_content (p_content p) fs" "refs_of fs = []"
    using assms by (auto simp: good_def)
  then have "RenameContent rel (p_content p) = Inr (p_content p, True)"
    by (simp add: RenameContent_eq rename_fields_no_refs) (simp add: ok_content_def)
  then show "renamed rel p = (p_type p, p_content p)"
    "RenameContent rel (p_content p) = Inr (p_content p, True)"
    by (simp_all add: renamed_def ren_def)
qed

section \<open>Renamed contents determine the new references\<close>

lemma wrap_inj:
  "ok_shape sh t \<Longrightarrow> ok_shape sh' t' \<Longrightarrow> wrap sh t = wrap sh' t' \<Longrightarrow> sh = sh' \<and> t = t'"
  by (cases sh; cases sh') (auto simp: Cons_eq_append_conv append_eq_Cons_conv split: if_splits)

lemma show_int_chars: "c \<in> set (show_int n) \<Longrightarrow> isdigit c \<or> c = CHR ''-''"
  by (auto simp: show_int_def dest: show_dec_digits split: if_splits)

lemma show_int_nonempty [simp]: "show_int n \<noteq> []"
  by (simp add: show_int_def)

lemma last_show_int: "isdigit (last (show_int n))"
  using show_dec_digits[OF last_in_set] by (simp add: show_int_def)

lemma ok_field_ref: "ok_field (sh, CHR ''#'' # show_int n)"
proof -
  have "isdigit (last (show_int n))" by (rule last_show_int)
  then have "last (show_int n) \<noteq> CHR '')''" "last (show_int n) \<noteq> CHR '' ''"
    by (auto simp: isdigit_def)
  moreover have "CHR '','' \<notin> set (show_int n)"
    using show_int_chars[of "CHR '',''" n] by (auto simp: isdigit_def)
  ultimately show ?thesis by (cases sh) (simp_all add: ok_field_def)
qed

lemma ok_field_rename: "ok_field (sh, t) \<Longrightarrow> ok_field (sh, rename_text rel t)"
  by (auto simp: rename_text_def ok_field_ref split: option.splits)

lemma text_of_inj:
  assumes "list_all ok_field fs" "list_all ok_field gs" "text_of fs = text_of gs"
  shows "fs = gs"
proof -
  have split: "getline_split (CHR '','') (text_of hs) = map (\<lambda>(sh, t). wrap sh t) hs"
    if "list_all ok_field hs" for hs
    unfolding text_of_def using that wrap_nonempty
    by (intro getline_split_intercalate)
       (auto simp: list_all_iff ok_field_def wrap_no_comma split: prod.splits)
  have "map (\<lambda>(sh, t). wrap sh t) fs = map (\<lambda>(sh, t). wrap sh t) gs"
    using assms split by metis
  with assms(1,2) show ?thesis
  proof (induction fs arbitrary: gs)
    case (Cons f fs)
    then obtain g hs where gs: "gs = g # hs" by (cases gs) auto
    with Cons.prems have "f = g"
      using wrap_inj[of "fst f" "snd f" "fst g" "snd g"] by (simp add: ok_field_def split_def prod_eq_iff)
    with Cons gs show ?case by simp
  qed simp
qed

lemma rename_text_refs:
  "rename_text rel t = rename_text rel u \<Longrightarrow> (is_ref t \<Longrightarrow> ref_id t \<in> dom rel) \<Longrightarrow>
   (is_ref u \<Longrightarrow> ref_id u \<in> dom rel) \<Longrightarrow>
   is_ref t = is_ref u \<and> (is_ref t \<longrightarrow> rel (ref_id t) = rel (ref_id u))"
  by (auto simp: rename_text_def is_ref_def split: if_splits)

lemma renamed_refs:
  assumes "good p" "good q" "known rel p" "known rel q" "renamed rel p = renamed rel q"
  shows "map rel (p_cites p) = map rel (p_cites q)"
proof -
  obtain fs gs where fs: "ok_content (p_content p) fs" "p_cites p = refs_of fs"
      and gs: "ok_content (p_content q) gs" "p_cites q = refs_of gs"
    using assms(1,2) by (auto simp: good_def)
  have "text_of (rename_fields rel fs) = text_of (rename_fields rel gs)"
    using assms(3-5) fs gs by (simp add: renamed_def ren_known)
  moreover have "list_all ok_field (rename_fields rel hs)" if "list_all ok_field hs" for hs
    using that by (auto simp: rename_fields_def list_all_iff ok_field_rename)
  ultimately have "rename_fields rel fs = rename_fields rel gs"
    using fs(1) gs(1) by (intro text_of_inj) (simp_all add: ok_content_def)
  moreover have "set (refs_of fs) \<subseteq> dom rel" "set (refs_of gs) \<subseteq> dom rel"
    using assms(3,4) fs gs by (simp_all add: known_iff)
  ultimately have "map rel (refs_of fs) = map rel (refs_of gs)"
  proof (induction fs arbitrary: gs)
    case Nil
    then show ?case by (simp add: rename_fields_def)
  next
    case (Cons f fs)
    then obtain g hs where g: "gs = g # hs" "rename_text rel (snd f) = rename_text rel (snd g)"
        "rename_fields rel fs = rename_fields rel hs"
      by (cases gs) (auto simp: rename_fields_def split_def)
    have "is_ref (snd f) = is_ref (snd g) \<and> (is_ref (snd f) \<longrightarrow> rel (ref_id (snd f)) = rel (ref_id (snd g)))"
      using Cons.prems g(1) by (intro rename_text_refs[OF g(2)]) (auto simp: refs_of_def)
    moreover have "map rel (refs_of fs) = map rel (refs_of hs)"
      using Cons.prems(2,3) g(1) by (intro Cons.IH g(3)) (auto simp: refs_of_def split: if_splits)
    ultimately show ?case using g(1) by (simp add: refs_of_def)
  qed
  then show ?thesis using fs gs by simp
qed

section \<open>Groundedness\<close>

text \<open>An instance all of whose chains of references end: no reference is dangling or cyclic.\<close>

inductive grounded :: "parsed list \<Rightarrow> int \<Rightarrow> bool" for ps where
  grounded: "p \<in> set ps \<Longrightarrow> (\<And>r. r \<in> set (p_cites p) \<Longrightarrow> grounded ps r) \<Longrightarrow> grounded ps (p_id p)"

section \<open>The numbering\<close>

definition numbered :: "book \<Rightarrow> parsed \<Rightarrow> bool" where
  "numbered b p \<longleftrightarrow>
     known (fst b) p \<and> renamed (fst b) p \<in> set (snd b) \<and>
     fst b (p_id p) = Some (number_of (renamed (fst b) p) (snd b)) \<and>
     (\<forall>r \<in> set (p_cites p). the (fst b r) < number_of (renamed (fst b) p) (snd b))"

definition books :: "parsed list \<Rightarrow> book \<Rightarrow> bool" where
  "books ps b \<longleftrightarrow>
     dom (fst b) \<subseteq> p_id ` set ps \<and>
     (\<forall>p \<in> set ps. p_id p \<in> dom (fst b) \<longrightarrow> numbered b p) \<and>
     (\<forall>e \<in> set (snd b). \<exists>p \<in> set ps. p_id p \<in> dom (fst b) \<and> renamed (fst b) p = e) \<and>
     distinct (snd b) \<and>
     (\<forall>i \<in> dom (fst b). grounded ps i)"

definition inputs :: "parsed list \<Rightarrow> bool" where
  "inputs ps \<longleftrightarrow> list_all good ps \<and> distinct (map p_id ps)"

lemma inputs_good: "inputs ps \<Longrightarrow> p \<in> set ps \<Longrightarrow> good p"
  by (simp add: inputs_def list_all_iff)

lemma inputs_unique: "inputs ps \<Longrightarrow> p \<in> set ps \<Longrightarrow> q \<in> set ps \<Longrightarrow> p_id p = p_id q \<Longrightarrow> p = q"
  by (auto simp: inputs_def distinct_map dest: inj_onD)

lemma books_empty: "books ps (Map.empty, [])"
  by (simp add: books_def)

lemma books_number_le:
  assumes "books ps b" "fst b r = Some n"
  shows "1 \<le> n \<and> n \<le> int (length (snd b))"
proof -
  have "dom (fst b) \<subseteq> p_id ` set ps" using assms(1) unfolding books_def by blast
  then obtain p where p: "p \<in> set ps" "p_id p = r" using assms(2) by blast
  then have "numbered b p" using assms unfolding books_def by blast
  then have "renamed (fst b) p \<in> set (snd b)" "n = number_of (renamed (fst b) p) (snd b)"
    using p(2) assms(2) by (simp_all add: numbered_def)
  then show ?thesis using number_of_bounds by simp
qed

lemma numbered_mono:
  assumes "good p" "numbered b p" "fst b \<subseteq>\<^sub>m fst b'" "snd b' = snd b @ xs"
  shows "numbered b' p"
proof -
  let ?e = "renamed (fst b) p"
  have k: "known (fst b) p" "fst b (p_id p) = Some (number_of ?e (snd b))" "?e \<in> set (snd b)"
      "\<forall>r \<in> set (p_cites p). the (fst b r) < number_of ?e (snd b)"
    using assms(2) by (auto simp: numbered_def)
  have same: "fst b' i = fst b i" if "i \<in> dom (fst b)" for i
    using that assms(3) by (simp add: map_le_def)
  have "known (fst b') p" "renamed (fst b') p = ?e"
    using renamed_mono[OF assms(1) k(1) assms(3)] by simp_all
  moreover have "fst b' (p_id p) = Some (number_of ?e (snd b))" using k(2) same[of "p_id p"] by auto
  moreover have "the (fst b' r) < number_of ?e (snd b)" if "r \<in> set (p_cites p)" for r
    using that k(1,4) same[of r] by (simp add: known_iff subset_iff domIff)
  ultimately show ?thesis using k(3) assms(4) by (simp add: numbered_def number_of_append)
qed

text \<open>A settled instance has a number above those of its references: either it is a new entry, or
  its renamed text is that of an earlier one, which has the same references.\<close>

lemma settle_above:
  assumes i: "inputs ps" and b: "books ps b" and p: "p \<in> set ps" "known (fst b) p"
    and es: "es = (if e \<in> set (snd b) then snd b else snd b @ [e])" and e: "e = renamed (fst b) p"
    and r: "r \<in> set (p_cites p)"
  shows "the (fst b r) < number_of e es"
proof (cases "e \<in> set (snd b)")
  case True
  then obtain q where q: "q \<in> set ps" "p_id q \<in> dom (fst b)" "renamed (fst b) q = e"
    using b unfolding books_def by blast
  then have nq: "numbered b q" using b by (simp add: books_def)
  then have "map (fst b) (p_cites p) = map (fst b) (p_cites q)"
    using i p q e by (intro renamed_refs) (simp_all add: inputs_good numbered_def)
  then obtain s where "s \<in> set (p_cites q)" "fst b r = fst b s"
    using r by (metis (no_types, lifting) image_iff list.set_map)
  with nq q(3) True es show ?thesis by (simp add: numbered_def)
next
  case False
  from r p(2) obtain n where "fst b r = Some n" by (auto simp: known_iff)
  with books_number_le[OF b this] False es show ?thesis by (simp add: number_of_fresh)
qed

lemma settle_self:
  assumes i: "inputs ps" and b: "books ps b" and p: "p \<in> set ps" "p_id p \<notin> dom (fst b)"
    and kn: "known (fst b) p" and x: "inst_id x = p_id p" "entry_of x = renamed (fst b) p"
  shows "numbered (settle x b) p"
proof -
  let ?e = "renamed (fst b) p" and ?b = "settle x b"
  define es where "es = (if ?e \<in> set (snd b) then snd b else snd b @ [?e])"
  have fb: "fst ?b = (fst b)(p_id p \<mapsto> number_of ?e es)" and sb: "snd ?b = es"
    using p(2) x by (auto simp: settle_def Let_def es_def pm_insert_def domIff)
  have le: "fst b \<subseteq>\<^sub>m fst ?b" using p(2) by (auto simp: fb map_le_def)
  have "?e \<in> set es" by (simp add: es_def)
  moreover have "the (fst ?b r) < number_of ?e es" if "r \<in> set (p_cites p)" for r
  proof -
    have "r \<in> dom (fst b)" using that kn by (auto simp: known_iff)
    then have "r \<noteq> p_id p" using p(2) by blast
    then show ?thesis using settle_above[OF i b p(1) kn es_def refl that] by (simp add: fb)
  qed
  moreover have "known (fst ?b) p" "renamed (fst ?b) p = ?e"
    using renamed_mono[OF inputs_good[OF i p(1)] kn le] by simp_all
  ultimately show ?thesis by (simp add: numbered_def sb) (simp add: fb)
qed

lemma settle_books:
  assumes i: "inputs ps" and b: "books ps b" and p: "p \<in> set ps" "p_id p \<notin> dom (fst b)"
    and kn: "known (fst b) p" and x: "inst_id x = p_id p" "entry_of x = renamed (fst b) p"
  shows "books ps (settle x b)" and "fst b \<subseteq>\<^sub>m fst (settle x b)"
    and "dom (fst (settle x b)) = insert (p_id p) (dom (fst b))"
proof -
  let ?e = "renamed (fst b) p" and ?b = "settle x b"
  define es where "es = (if ?e \<in> set (snd b) then snd b else snd b @ [?e])"
  have fb: "fst ?b = (fst b)(p_id p \<mapsto> number_of ?e es)" and sb: "snd ?b = es"
    using p(2) x by (auto simp: settle_def Let_def es_def pm_insert_def domIff)
  show le: "fst b \<subseteq>\<^sub>m fst ?b" using p(2) by (auto simp: fb map_le_def)
  show d: "dom (fst ?b) = insert (p_id p) (dom (fst b))" by (auto simp: fb)
  have "\<exists>xs. snd ?b = snd b @ xs \<and> set xs \<subseteq> {?e}" by (simp add: sb es_def)
  then obtain xs where xs: "snd ?b = snd b @ xs" "set xs \<subseteq> {?e}" by blast
  have ren: "renamed (fst ?b) q = renamed (fst b) q" if "q \<in> set ps" "known (fst b) q" for q
    using renamed_mono[OF inputs_good[OF i that(1)] that(2) le] by simp
  have known_dom: "known (fst b) q" if "q \<in> set ps" "p_id q \<in> dom (fst b)" for q
    using that b by (auto simp: books_def numbered_def)
  have self: "numbered ?b p" by (rule settle_self[OF i b p kn x])
  have "numbered ?b q" if "q \<in> set ps" "p_id q \<in> dom (fst ?b)" for q
  proof (cases "q = p")
    case True
    with self show ?thesis by simp
  next
    case False
    with that have "p_id q \<in> dom (fst b)" using inputs_unique[OF i that(1) p(1)] d by auto
    with b that(1) have "numbered b q" by (simp add: books_def)
    then show ?thesis using numbered_mono[OF inputs_good[OF i that(1)] _ le xs(1)] by simp
  qed
  moreover have "\<exists>q \<in> set ps. p_id q \<in> dom (fst ?b) \<and> renamed (fst ?b) q = e" if "e \<in> set (snd ?b)" for e
  proof (cases "e \<in> set (snd b)")
    case True
    then obtain q where q: "q \<in> set ps" "p_id q \<in> dom (fst b)" "renamed (fst b) q = e"
      using b unfolding books_def by blast
    have "renamed (fst ?b) q = e" using ren[OF q(1) known_dom[OF q(1,2)]] q(3) by simp
    with q(1,2) d show ?thesis by blast
  next
    case False
    with that xs have "e = ?e" by auto
    with ren[OF p(1) kn] have "renamed (fst ?b) p = e" by simp
    with p(1) d show ?thesis by blast
  qed
  moreover have "distinct (snd ?b)" using b by (simp add: books_def sb es_def)
  moreover have "grounded ps (p_id p)"
    using p(1) kn b by (intro grounded.intros) (auto simp: known_iff books_def)
  ultimately show "books ps ?b" using b p(1) by (simp add: books_def d)
qed

section \<open>Settling a list of instances\<close>

definition waiting_inst :: "(int \<rightharpoonup> int) \<Rightarrow> parsed \<Rightarrow> IfcInstance" where
  "waiting_inst rel p =
     \<lparr>inst_id = p_id p, inst_type = p_type p, inst_content = ren rel (p_content p),
      inst_flag = known rel p\<rparr>"

lemma waiting_inst_simps [simp]:
  "inst_id (waiting_inst rel p) = p_id p" "inst_flag (waiting_inst rel p) = known rel p"
  "entry_of (waiting_inst rel p) = renamed rel p"
  by (simp_all add: waiting_inst_def entry_of_def renamed_def)

lemma settle_list:
  assumes i: "inputs ps" and "books ps b" and "rel \<subseteq>\<^sub>m fst b"
    and "\<And>p. p \<in> set qs \<Longrightarrow> p \<in> set ps \<and> p_id p \<notin> dom (fst b) \<and> known rel p"
    and "distinct (map p_id qs)"
  shows "books ps (fold settle (map (waiting_inst rel) qs) b) \<and>
     fst b \<subseteq>\<^sub>m fst (fold settle (map (waiting_inst rel) qs) b) \<and>
     dom (fst (fold settle (map (waiting_inst rel) qs) b)) = p_id ` set qs \<union> dom (fst b)"
  using assms(2-)
proof (induction qs arbitrary: b)
  case (Cons p qs)
  have p: "p \<in> set ps" "p_id p \<notin> dom (fst b)" "known rel p" using Cons.prems(3)[of p] by auto
  have r: "renamed (fst b) p = renamed rel p" "known (fst b) p"
    using renamed_mono[OF inputs_good[OF i p(1)] p(3) Cons.prems(2)] by simp_all
  let ?b = "settle (waiting_inst rel p) b"
  note S = settle_books[OF i Cons.prems(1) p(1,2) r(2), of "waiting_inst rel p"]
  have le: "fst b \<subseteq>\<^sub>m fst ?b" using S(2) r by simp
  have "books ps (fold settle (map (waiting_inst rel) qs) ?b) \<and>
     fst ?b \<subseteq>\<^sub>m fst (fold settle (map (waiting_inst rel) qs) ?b) \<and>
     dom (fst (fold settle (map (waiting_inst rel) qs) ?b)) = p_id ` set qs \<union> dom (fst ?b)"
  proof (rule Cons.IH)
    show "books ps ?b" using S(1) r by simp
    show "rel \<subseteq>\<^sub>m fst ?b" using Cons.prems(2) le by (rule map_le_trans)
    show "distinct (map p_id qs)" using Cons.prems(4) by simp
    show "q \<in> set ps \<and> p_id q \<notin> dom (fst ?b) \<and> known rel q" if "q \<in> set qs" for q
      using that Cons.prems(3)[of q] Cons.prems(4) S(3) r by (auto simp: image_iff)
  qed
  with le S(3) r show ?case by (auto intro: map_le_trans)
qed simp

end
