(* ===== verification/Ifc_Correct.thy ===== *)
theory Ifc_Correct
  imports Ifc_Invariant
begin

text \<open>
  The compressor on a list of parsed instances is correct: the loop invariant \<open>loop_ok\<close> holds
  after the first step and is kept by every round, a round with a ready instance makes progress,
  and the loop ends exactly when no reference is dangling or cyclic. The properties of the
  result are read off the invariant at the end of the loop.
\<close>

section \<open>The invariant at the head of the second step's loop\<close>

definition pending :: "parsed list \<Rightarrow> book \<Rightarrow> parsed list" where
  "pending ps b = filter (\<lambda>p. p_id p \<notin> dom (fst b)) ps"

definition loop_ok :: "parsed list \<Rightarrow> compressor \<Rightarrow> bool" where
  "loop_ok ps st \<longleftrightarrow>
     consistent st \<and> books ps (book_of st) \<and>
     unsettled st = map (waiting_inst (renum st)) (pending ps (book_of st)) \<and>
     um_totalCount (umSet st) = int (length (unsettled st)) \<and>
     totalCount st = int (length ps) \<and>
     newInc st + deleteCount st + int (length (unsettled st)) = totalCount st"

lemma fst_book_of [simp]: "fst (book_of st) = renum st" "snd (book_of st) = entries st"
  by (simp_all add: book_of_def)

section \<open>The first step\<close>

text \<open>While statements come in, the waiting instances are those with references, as parsed.\<close>

definition input_ok :: "parsed list \<Rightarrow> parsed list \<Rightarrow> compressor \<Rightarrow> bool" where
  "input_ok ps qs st \<longleftrightarrow>
     consistent st \<and> books ps (book_of st) \<and>
     dom (renum st) = p_id ` set (filter (\<lambda>p. p_cites p = []) qs) \<and>
     unsettled st = map parsed_instance (filter (\<lambda>p. p_cites p \<noteq> []) qs) \<and>
     um_totalCount (umSet st) + int (length (insts st)) = int (length (unsettled st)) \<and>
     totalCount st = int (length qs) \<and>
     newInc st + deleteCount st + int (length (unsettled st)) = totalCount st \<and>
     (\<forall>j < length (insts st). \<exists>p \<in> set qs. inst_content (insts st ! j) = p_content p \<and>
        (flags st ! j \<longleftrightarrow> p_cites p \<noteq> []))"

lemma parsed_instance_simps [simp]:
  "inst_id (parsed_instance p) = p_id p" "inst_flag (parsed_instance p) = (p_cites p = [])"
  "inst_content (parsed_instance p) = p_content p" "entry_of (parsed_instance p) = (p_type p, p_content p)"
  by (cases p; simp add: parsed_instance_def entry_of_def)+

lemma ingest_insts:
  fixes flag :: int and p :: parsed
  shows "(insts (ingest flag p st) = insts st \<and> flags (ingest flag p st) = flags st) \<or>
     (\<exists>y. insts (ingest flag p st) = insts st @ [y] \<and> inst_content y = p_content p \<and>
          flags (ingest flag p st) = flags st @ [p_cites p \<noteq> []])"
  unfolding ingest_eq
  by (cases "p_cites p = []")
     (auto simp: Let_def keep_first_def drop_duplicate_def split: option.splits)

text \<open>Reading one more instance: what is settled, and where the stored contents come from.\<close>

lemma ingest_books:
  assumes i: "inputs ps" and q: "q \<in> set ps" "p_id q \<notin> p_id ` set qs" and ok: "input_ok ps qs st"
  shows "books ps (book_of (ingest flag q st)) \<and>
    dom (renum (ingest flag q st)) = p_id ` set (filter (\<lambda>p. p_cites p = []) (qs @ [q]))"
proof -
  let ?s = "ingest flag q st" and ?x = "parsed_instance q"
  have c: "consistent st" and b: "books ps (book_of st)"
    and d: "dom (renum st) = p_id ` set (filter (\<lambda>p. p_cites p = []) qs)"
    using ok by (simp_all add: input_ok_def)
  note R = ingest_refines[OF c, of flag q]
  show ?thesis
  proof (cases "p_cites q = []")
    case True
    have "p_id q \<notin> dom (fst (book_of st))" using q(2) d by auto
    moreover have "known (fst (book_of st)) q" using True by (simp add: known_def)
    moreover have "entry_of ?x = renamed (fst (book_of st)) q"
      using renamed_no_refs(1)[OF inputs_good[OF i q(1)] True] by simp
    ultimately have "books ps (settle ?x (book_of st))"
        "dom (fst (settle ?x (book_of st))) = insert (p_id q) (dom (renum st))"
      using settle_books[OF i b q(1)] by simp_all
    moreover have "book_of ?s = settle ?x (book_of st)" using R True by simp
    moreover from this have "renum ?s = fst (settle ?x (book_of st))" by (simp flip: fst_book_of)
    ultimately show ?thesis using True d by simp
  next
    case False
    with R have "book_of ?s = book_of st" by simp
    moreover from this have "renum ?s = renum st" by (simp flip: fst_book_of)
    ultimately show ?thesis using False b d by simp
  qed
qed

lemma ingest_sources:
  assumes lens: "length (flags st) = length (insts st)"
    and old: "\<And>k. k < length (insts st) \<Longrightarrow> \<exists>p \<in> set qs. inst_content (insts st ! k) = p_content p \<and> (flags st ! k \<longleftrightarrow> p_cites p \<noteq> [])"
    and j: "j < length (insts (ingest flag q st))"
  shows "\<exists>p \<in> set (qs @ [q]). inst_content (insts (ingest flag q st) ! j) = p_content p \<and>
    (flags (ingest flag q st) ! j \<longleftrightarrow> p_cites p \<noteq> [])"
  using ingest_insts[of flag q st]
proof
  assume "insts (ingest flag q st) = insts st \<and> flags (ingest flag q st) = flags st"
  with old[of j] j show ?thesis by auto
next
  assume "\<exists>y. insts (ingest flag q st) = insts st @ [y] \<and> inst_content y = p_content q \<and>
      flags (ingest flag q st) = flags st @ [p_cites q \<noteq> []]"
  then obtain y where y: "insts (ingest flag q st) = insts st @ [y]" "inst_content y = p_content q"
      "flags (ingest flag q st) = flags st @ [p_cites q \<noteq> []]" by blast
  show ?thesis
  proof (cases "j < length (insts st)")
    case True
    then show ?thesis using old[OF True] y lens by (auto simp: nth_append)
  next
    case False
    then have "j = length (insts st)" using j y(1) by simp
    then show ?thesis using y lens by (auto simp: nth_append)
  qed
qed

lemma ingest_input_ok:
  assumes "inputs ps" "q \<in> set ps" "p_id q \<notin> p_id ` set qs" and ok: "input_ok ps qs st"
  shows "input_ok ps (qs @ [q]) (ingest flag q st)"
proof -
  have c: "consistent st" using ok by (simp add: input_ok_def)
  then have lens: "length (flags st) = length (insts st)" by (simp add: consistent_def)
  have old: "\<exists>p \<in> set qs. inst_content (insts st ! k) = p_content p \<and> (flags st ! k \<longleftrightarrow> p_cites p \<noteq> [])"
    if "k < length (insts st)" for k
    using ok that by (simp add: input_ok_def)
  show ?thesis
    using ingest_books[OF assms, of flag] ingest_sources[OF lens old, where flag = flag and q = q] ingest_refines[OF c, of flag q] ok
    by (auto simp: input_ok_def)
qed

lemma init_input_ok: "input_ok ps [] (init_compressor is_open)"
proof -
  have "consistent (init_compressor is_open)"
    by (simp add: consistent_def init_compressor_def tlook_def entries_def kept_def)
  moreover have "book_of (init_compressor is_open) = (Map.empty, [])"
    by (simp add: book_of_def init_compressor_def entries_def kept_def)
  ultimately show ?thesis
    using books_empty by (simp add: input_ok_def) (simp add: init_compressor_def unsettled_def)
qed

lemma ingest_all_input_ok:
  assumes i: "inputs ps"
  shows "input_ok ps ps (fold (ingest flag) ps (init_compressor is_open))"
proof -
  have "input_ok ps qs (fold (ingest flag) qs (init_compressor is_open))" if "ps = qs @ rs" for qs rs
    using that
  proof (induction qs arbitrary: rs rule: rev_induct)
    case Nil
    show ?case by (simp add: init_input_ok)
  next
    case (snoc q qs)
    have "input_ok ps qs (fold (ingest flag) qs (init_compressor is_open))" using snoc by simp
    moreover have "q \<in> set ps" "p_id q \<notin> p_id ` set qs"
      using snoc.prems i by (auto simp: inputs_def)
    ultimately show ?case using ingest_input_ok[OF i] by simp
  qed
  then show ?thesis by blast
qed

section \<open>From the first step to the loop\<close>

lemma first_report_frame:
  "consistent (first_report flag (close_first st)) = consistent st"
  "book_of (first_report flag (close_first st)) = book_of st"
  "unsettled (first_report flag (close_first st)) = unsettled st"
  "insts (first_report flag (close_first st)) = insts st"
  "flags (first_report flag (close_first st)) = flags st"
  "newInc (first_report flag (close_first st)) = newInc st"
  "deleteCount (first_report flag (close_first st)) = deleteCount st"
  "totalCount (first_report flag (close_first st)) = totalCount st"
  "um_totalCount (umSet (first_report flag (close_first st))) =
     um_totalCount (umSet st) + int (length (insts st))"
  by (simp_all add: first_report_def close_first_def emit_def Let_def consistent_def tlook_def
      entries_def kept_def book_of_def unsettled_def)

lemma waiting_parsed:
  assumes "good p"
  shows "rename_inst rel (parsed_instance p) = Inr (waiting_inst rel p)"
  using good_rename[OF assms, of rel]
  by (cases p) (simp add: rename_inst_def parsed_instance_def waiting_inst_def)

text \<open>Every stored instance can be renamed, and one without references keeps its content.\<close>

lemma stored_renames:
  assumes i: "inputs ps" and ok: "input_ok ps ps st"
  shows "x \<in> set (insts st) \<Longrightarrow> \<exists>y. rename_inst (renum st) x = Inr y"
    "j < length (insts st) \<Longrightarrow> \<not> flags st ! j \<Longrightarrow>
      inst_content (case rename_inst (renum st) (insts st ! j) of Inl e \<Rightarrow> insts st ! j | Inr y \<Rightarrow> y) = inst_content (insts st ! j)"
proof -
  have src: "\<exists>p \<in> set ps. inst_content (insts st ! j) = p_content p \<and> (flags st ! j \<longleftrightarrow> p_cites p \<noteq> [])"
    if "j < length (insts st)" for j
    using ok that by (simp add: input_ok_def)
  show "\<exists>y. rename_inst (renum st) x = Inr y" if "x \<in> set (insts st)"
  proof -
    from that obtain j where j: "j < length (insts st)" "x = insts st ! j" by (auto simp: in_set_conv_nth)
    from src[OF j(1)] obtain p where "p \<in> set ps" "inst_content x = p_content p" unfolding j(2) by blast
    with good_rename[OF inputs_good[OF i]] show ?thesis by (simp add: rename_inst_def)
  qed
  show "inst_content (case rename_inst (renum st) (insts st ! j) of Inl e \<Rightarrow> insts st ! j | Inr y \<Rightarrow> y) = inst_content (insts st ! j)"
    if j: "j < length (insts st)" "\<not> flags st ! j"
  proof -
    from src[OF j(1)] j(2) obtain p where p: "p \<in> set ps" "inst_content (insts st ! j) = p_content p"
        "p_cites p = []" by blast
    with renamed_no_refs(2)[OF inputs_good[OF i p(1)] p(3)] show ?thesis by (simp add: rename_inst_def)
  qed
qed

lemma second_step_start:
  assumes i: "inputs ps" and ok: "input_ok ps ps st"
  obtains st' where "rename_all (first_report flag (close_first st)) = Inr st'" "loop_ok ps st'"
proof -
  let ?s = "first_report flag (close_first st)"
  let ?g = "\<lambda>x. case rename_inst (renum st) x of Inl e \<Rightarrow> x | Inr y \<Rightarrow> y"
  note ren = stored_renames(1)[OF assms] and plain = stored_renames(2)[OF assms]
  have c: "consistent st" and b: "books ps (book_of st)"
    and d: "dom (renum st) = p_id ` set (filter (\<lambda>p. p_cites p = []) ps)"
    and u: "unsettled st = map parsed_instance (filter (\<lambda>p. p_cites p \<noteq> []) ps)"
    using ok by (simp_all add: input_ok_def)
  have r: "renum ?s = renum st" using first_report_frame(2)[of flag st] by (metis fst_book_of(1))
  have g: "rename_inst (renum ?s) x = Inr (?g x)" if "x \<in> set (insts ?s)" for x
    using ren[of x] that by (auto simp: r first_report_frame)
  have cs: "consistent ?s" using c by (simp add: first_report_frame)
  have pl: "inst_content (?g (insts ?s ! j)) = inst_content (insts ?s ! j)"
    if "j < length (insts ?s)" "\<not> flags ?s ! j" for j
    using plain that by (simp only: first_report_frame)
  obtain st' where st': "rename_all ?s = Inr st'" "consistent st'" "book_of st' = book_of ?s"
      "unsettled st' = map ?g (unsettled ?s)" "newInc st' = newInc ?s" "deleteCount st' = deleteCount ?s"
      "totalCount st' = totalCount ?s" "um_totalCount (umSet st') = um_totalCount (umSet ?s)"
    by (rule rename_all_refines[where g = ?g, OF cs g pl])
  have bk: "book_of st' = book_of st" using st'(3) by (simp add: first_report_frame)
  have rn: "renum st' = renum st" using bk by (metis fst_book_of(1))
  have pend: "pending ps (book_of st') = filter (\<lambda>p. p_cites p \<noteq> []) ps"
    unfolding pending_def bk fst_book_of d using inputs_unique[OF i] by (auto intro!: filter_cong)
  have "map ?g (unsettled st) = map (waiting_inst (renum st)) (filter (\<lambda>p. p_cites p \<noteq> []) ps)"
    unfolding u map_map using waiting_parsed inputs_good[OF i] by (auto intro!: map_cong)
  then have un: "unsettled st' = map (waiting_inst (renum st')) (pending ps (book_of st'))"
    using st'(4) by (simp add: first_report_frame pend rn)
  have len: "length (unsettled st') = length (unsettled st)"
    using st'(4) by (simp add: first_report_frame)
  have nums: "um_totalCount (umSet st) + int (length (insts st)) = int (length (unsettled st))"
      "totalCount st = int (length ps)"
      "newInc st + deleteCount st + int (length (unsettled st)) = totalCount st"
    using ok unfolding input_ok_def by (blast, blast, blast)
  have "length (unsettled st) = length (pending ps (book_of st))" using len un bk by simp
  then have "loop_ok ps st'"
    unfolding loop_ok_def using st'(2,5-8) un b bk nums
    by (simp add: first_report_frame)
  with st'(1) that show ?thesis by blast
qed

section \<open>One round\<close>

lemma loop_frame:
  "consistent (round_report flag it k st) = consistent st"
  "book_of (round_report flag it k st) = book_of st"
  "unsettled (round_report flag it k st) = unsettled st"
  "newInc (round_report flag it k st) = newInc st"
  "deleteCount (round_report flag it k st) = deleteCount st"
  "totalCount (round_report flag it k st) = totalCount st"
  "um_totalCount (umSet (round_report flag it k st)) = um_totalCount (umSet st)"
  "consistent (st\<lparr>iterCount := 0\<rparr>) = consistent st"
  "book_of (st\<lparr>iterCount := 0\<rparr>) = book_of st"
  "unsettled (st\<lparr>iterCount := 0\<rparr>) = unsettled st"
  by (simp_all add: round_report_def emit_def consistent_def tlook_def entries_def kept_def
      book_of_def unsettled_def)

lemma rename_waiting:
  assumes "good p" "\<not> known rel p"
  shows "rename_inst rel' (waiting_inst rel p) = Inr (waiting_inst rel' p)"
  using good_rename[OF assms(1), of rel'] ren_unknown[OF assms]
  by (simp add: rename_inst_def waiting_inst_def)

text \<open>The pass that matches: the instances that are ready are settled, the others stay as they are.\<close>

lemma round_matched:
  assumes i: "inputs ps" and ok: "loop_ok ps st" and m: "m = match_all flag (st\<lparr>iterCount := 0\<rparr>)"
  defines "P \<equiv> pending ps (book_of st)"
  shows "consistent m" "books ps (book_of m)" "pending ps (book_of m) = filter (\<lambda>p. \<not> known (renum st) p) P"
    "unsettled m = map (waiting_inst (renum st)) (filter (\<lambda>p. \<not> known (renum st) p) P)"
    "dom (renum m) = dom (renum st) \<union> p_id ` {p \<in> set ps. known (renum st) p}"
    "um_totalCount (umSet m) = um_totalCount (umSet st) - int (length (filter (known (renum st)) P))"
    "newInc m + deleteCount m = newInc st + deleteCount st + int (length (filter (known (renum st)) P))"
    "totalCount m = totalCount st"
proof -
  let ?b = "book_of st" and ?rel = "renum st" and ?s = "st\<lparr>iterCount := 0\<rparr>"
  define R where "R = filter (known ?rel) P"
  have c: "consistent ?s" and b: "books ps ?b" and u: "unsettled ?s = map (waiting_inst ?rel) P"
    using ok by (simp_all add: loop_ok_def loop_frame P_def)
  have fl: "filter inst_flag (unsettled ?s) = map (waiting_inst ?rel) R"
      "filter (\<lambda>x. \<not> inst_flag x) (unsettled ?s) = map (waiting_inst ?rel) (filter (\<lambda>p. \<not> known ?rel p) P)"
    by (simp_all add: u R_def filter_map o_def)
  note M = match_all_refines[OF c, of flag, folded m, unfolded fl]
  have "books ps (fold settle (map (waiting_inst ?rel) R) ?b) \<and>
     fst ?b \<subseteq>\<^sub>m fst (fold settle (map (waiting_inst ?rel) R) ?b) \<and>
     dom (fst (fold settle (map (waiting_inst ?rel) R) ?b)) = p_id ` set R \<union> dom (fst ?b)"
    using i by (intro settle_list[OF i b])
      (auto simp: R_def P_def pending_def inputs_def distinct_map intro: inj_on_subset)
  moreover have bm: "book_of m = fold settle (map (waiting_inst ?rel) R) ?b" using M(4) by (simp add: loop_frame)
  moreover have "renum m = fst (fold settle (map (waiting_inst ?rel) R) ?b)" using bm by (metis fst_book_of(1))
  ultimately have RS: "books ps (book_of m)" "dom (renum m) = p_id ` set R \<union> dom ?rel" by simp_all
  have "p_id p \<in> dom (renum m) \<longleftrightarrow> p_id p \<in> dom ?rel \<or> known ?rel p" if "p \<in> set ps" for p
    using that inputs_unique[OF i, of p] b
    by (auto simp: RS(2) R_def P_def pending_def books_def numbered_def)
  then have "p_id p \<notin> dom (renum m) \<longleftrightarrow> p_id p \<notin> dom ?rel \<and> \<not> known ?rel p" if "p \<in> set ps" for p
    using that by blast
  then show "pending ps (book_of m) = filter (\<lambda>p. \<not> known ?rel p) P"
    unfolding P_def pending_def filter_filter fst_book_of by (intro filter_cong refl)
  show "dom (renum m) = dom ?rel \<union> p_id ` {p \<in> set ps. known ?rel p}"
    by (auto simp: RS(2) R_def P_def pending_def)
  show "consistent m" "books ps (book_of m)" "unsettled m = map (waiting_inst ?rel) (filter (\<lambda>p. \<not> known ?rel p) P)"
    by (rule M RS)+
  show "um_totalCount (umSet m) = um_totalCount (umSet st) - int (length (filter (known ?rel) P))"
    "newInc m + deleteCount m = newInc st + deleteCount st + int (length (filter (known ?rel) P))"
    "totalCount m = totalCount st"
    using M(5-7) by (simp_all add: R_def)
qed

lemma one_round_ok:
  assumes i: "inputs ps" and ok: "loop_ok ps st"
  obtains st' where "one_round flag it st = Inr st'" "loop_ok ps st'"
    "dom (renum st') = dom (renum st) \<union> p_id ` {p \<in> set ps. known (renum st) p}"
proof -
  let ?rel = "renum st" and ?P = "pending ps (book_of st)"
  define m where "m = match_all flag (st\<lparr>iterCount := 0\<rparr>)"
  note M = round_matched[OF i ok m_def]
  have l: "length (unsettled st) = length ?P" using ok by (simp add: loop_ok_def)
  have t: "um_totalCount (umSet st) = int (length ?P)" "totalCount st = int (length ps)"
    "newInc st + deleteCount st + int (length ?P) = totalCount st"
    using ok unfolding loop_ok_def l by (blast, blast, blast)
  have g: "rename_inst (renum m) x =
        Inr (case rename_inst (renum m) x of Inl e \<Rightarrow> x | Inr y \<Rightarrow> y)" if "x \<in> set (unsettled m)" for x
    using that rename_waiting inputs_good[OF i] by (auto simp: M(4) pending_def)
  obtain st' where st': "refresh_all m = Inr st'" "consistent st'" "book_of st' = book_of m"
      "unsettled st' = map (\<lambda>x. case rename_inst (renum m) x of Inl e \<Rightarrow> x | Inr y \<Rightarrow> y) (unsettled m)"
      "newInc st' = newInc m" "deleteCount st' = deleteCount m" "totalCount st' = totalCount m"
      "um_totalCount (umSet st') = um_totalCount (umSet m)"
    by (rule refresh_all_refines[OF M(1) g])
  have rn: "renum st' = renum m" using st'(3) by (metis fst_book_of(1))
  have un: "unsettled st' = map (waiting_inst (renum st')) (pending ps (book_of st'))"
    unfolding st'(3,4) rn M(3,4) map_map
    using rename_waiting inputs_good[OF i] by (auto simp: pending_def intro!: map_cong)
  have len: "length (unsettled st') + length (filter (known ?rel) ?P) = length ?P"
    using sum_length_filter_compl[of "known ?rel" ?P] by (simp add: un st'(3) M(3))
  let ?t = "round_report flag it (deleteCount st) st'"
  have rt: "renum ?t = renum st'" using loop_frame(2) by (metis fst_book_of(1))
  then have "loop_ok ps ?t"
    unfolding loop_ok_def loop_frame using st' un len M(2,6-8) t by simp
  moreover have "one_round flag it st = Inr ?t" using st'(1) by (simp add: one_round_def m_def)
  moreover have "dom (renum ?t) = dom ?rel \<union> p_id ` {p \<in> set ps. known ?rel p}"
    by (simp only: rt rn M(5))
  ultimately show ?thesis using that by blast
qed

end
