(* ===== verification/Ifc_Result.thy ===== *)
theory Ifc_Result
  imports Ifc_Correct
begin

text \<open>
  What a run of the compressor on parsed instances guarantees: it ends exactly when every chain
  of references ends, it keeps every instance under its new number, it merges instances exactly
  when they are the same up to renaming, it invents nothing, it loses nothing, and it writes
  instances after those they refer to.
\<close>

section \<open>The loop over the rounds\<close>

lemma loop_okD:
  assumes "loop_ok ps st"
  shows "consistent st" "books ps (book_of st)"
    "length (unsettled st) = length (pending ps (book_of st))"
    "um_totalCount (umSet st) = int (length (unsettled st))"
    "unsettled st = [] \<longleftrightarrow> pending ps (book_of st) = []"
proof -
  have u: "unsettled st = map (waiting_inst (renum st)) (pending ps (book_of st))"
    using assms unfolding loop_ok_def by blast
  show "length (unsettled st) = length (pending ps (book_of st))"
    "unsettled st = [] \<longleftrightarrow> pending ps (book_of st) = []"
    by (simp_all add: u)
  show "consistent st" "books ps (book_of st)"
    "um_totalCount (umSet st) = int (length (unsettled st))"
    using assms unfolding loop_ok_def by blast+
qed

lemma rounds_step:
  assumes "inputs ps" "loop_ok ps st" "unsettled st \<noteq> []"
  obtains st' where "one_round flag (it + 1) st = Inr st'" "loop_ok ps st'"
    "rounds flag it st = rounds flag (it + 1) st'"
    "dom (renum st') = dom (renum st) \<union> p_id ` {p \<in> set ps. known (renum st) p}"
proof -
  obtain st' where st': "one_round flag (it + 1) st = Inr st'" "loop_ok ps st'"
      "dom (renum st') = dom (renum st) \<union> p_id ` {p \<in> set ps. known (renum st) p}"
    by (rule one_round_ok[OF assms(1,2)])
  have "um_totalCount (umSet st) \<noteq> 0" using loop_okD(4)[OF assms(2)] assms(3) by simp
  with st'(1) have "rounds flag it st = rounds flag (it + 1) st'" by (simp add: rounds.simps)
  with st' that show ?thesis by blast
qed

lemma rounds_stop: "loop_ok ps st \<Longrightarrow> unsettled st = [] \<Longrightarrow> rounds flag it st = Some (Inr st)"
  by (simp add: rounds.simps loop_okD(4))

definition finished :: "parsed list \<Rightarrow> compressor \<Rightarrow> bool" where
  "finished ps st \<longleftrightarrow> loop_ok ps st \<and> unsettled st = []"

lemma rounds_result:
  assumes "inputs ps" and "rounds flag it st = Some y" and "loop_ok ps st"
  shows "\<exists>st'. y = Inr st' \<and> finished ps st'"
  using assms(2,3)
proof (induction rule: rounds.raw_induct[rotated, consumes 1])
  case (1 rounds flag it st y)
  show ?case
  proof (cases "um_totalCount (umSet st) = 0")
    case True
    then have "unsettled st = []" using loop_okD(4)[OF 1(3)] by simp
    with True 1(2,3) show ?thesis by (auto simp: finished_def)
  next
    case False
    obtain st' where "one_round flag (it + 1) st = Inr st'" "loop_ok ps st'"
      by (rule one_round_ok[OF assms(1) 1(3)])
    with False 1(1,2) show ?thesis by simp
  qed
qed

text \<open>While a grounded instance waits, one whose references are all known waits.\<close>

lemma progress:
  assumes "\<forall>p \<in> set ps. grounded ps (p_id p)" "loop_ok ps st" "unsettled st \<noteq> []"
  shows "\<exists>p \<in> set ps. p_id p \<notin> dom (renum st) \<and> known (renum st) p"
proof (rule ccontr)
  assume no: "\<not> ?thesis"
  have "i \<in> dom (renum st)" if "grounded ps i" for i
    using that
  proof induction
    case (grounded p)
    then have "known (renum st) p" by (auto simp: known_iff)
    with no grounded(1) show ?case by blast
  qed
  with assms(1) have "pending ps (book_of st) = []" by (auto simp: pending_def filter_empty_conv)
  with assms(3) show False using loop_okD(5)[OF assms(2)] by simp
qed

lemma rounds_total:
  assumes "inputs ps" "\<forall>p \<in> set ps. grounded ps (p_id p)" "loop_ok ps st"
  shows "\<exists>st'. rounds flag it st = Some (Inr st') \<and> finished ps st'"
  using assms(3)
proof (induction "length (unsettled st)" arbitrary: st it rule: less_induct)
  case less
  show ?case
  proof (cases "unsettled st = []")
    case True
    with less.prems rounds_stop show ?thesis by (auto simp: finished_def)
  next
    case False
    obtain st' where st': "loop_ok ps st'" "rounds flag it st = rounds flag (it + 1) st'"
        "dom (renum st') = dom (renum st) \<union> p_id ` {p \<in> set ps. known (renum st) p}"
      by (rule rounds_step[OF assms(1) less.prems False])
    obtain p where p: "p \<in> set ps" "p_id p \<notin> dom (renum st)" "known (renum st) p"
      using progress[OF assms(2) less.prems False] by blast
    have "pending ps (book_of st') = filter (\<lambda>q. p_id q \<notin> dom (renum st')) (pending ps (book_of st))"
      using st'(3) by (auto simp: pending_def filter_filter intro!: filter_cong)
    moreover have "length (filter (\<lambda>q. p_id q \<notin> dom (renum st')) (pending ps (book_of st)))
        < length (pending ps (book_of st))"
      using p st'(3) by (intro length_filter_less[of p]) (auto simp: pending_def)
    ultimately have "length (unsettled st') < length (unsettled st)"
      using loop_okD(3)[OF st'(1)] loop_okD(3)[OF less.prems] by simp
    with less.hyps st' show ?thesis by simp
  qed
qed

lemma done_grounded:
  assumes "finished ps st"
  shows "\<forall>p \<in> set ps. p_id p \<in> dom (renum st) \<and> grounded ps (p_id p)"
proof -
  have "pending ps (book_of st) = []" "books ps (book_of st)"
    using assms loop_okD by (auto simp: finished_def)
  then show ?thesis by (auto simp: pending_def filter_empty_conv books_def)
qed

section \<open>The whole run\<close>

lemma compress_start:
  assumes "inputs ps"
  obtains st where "compress_instances flag is_open ps = rounds flag 0 st" "loop_ok ps st"
proof -
  obtain st where "rename_all (first_report flag (close_first (fold (ingest flag) ps (init_compressor is_open)))) = Inr st"
      "loop_ok ps st"
    by (rule second_step_start[OF assms ingest_all_input_ok[OF assms, of flag is_open]])
  with that show ?thesis by (simp add: compress_instances_def second_step_def)
qed

lemma compress_done:
  assumes "inputs ps" "compress_instances flag is_open ps = Some (Inr st)"
  shows "finished ps st"
proof -
  obtain s where "compress_instances flag is_open ps = rounds flag 0 s" "loop_ok ps s"
    by (rule compress_start[OF assms(1)])
  with rounds_result[OF assms(1)] assms(2) show ?thesis by fastforce
qed

lemma compress_never_throws:
  assumes "inputs ps"
  shows "compress_instances flag is_open ps \<noteq> Some (Inl e)"
proof -
  obtain s where "compress_instances flag is_open ps = rounds flag 0 s" "loop_ok ps s"
    by (rule compress_start[OF assms(1)])
  with rounds_result[OF assms, of flag 0 s "Inl e"] show ?thesis by auto
qed

lemma entries_nth: "k < length (kept st) \<Longrightarrow> entries st ! k = entry_of (kept st ! k)"
  by (simp add: entries_def)

lemma done_kept:
  assumes "finished ps st" "k < length (kept st)"
  shows "inst_id (kept st ! k) = int k + 1"
proof -
  have "consistent st" using assms(1) by (auto simp: finished_def dest: loop_okD(1))
  with assms(2) show ?thesis by (simp add: consistent_def kept_def)
qed

lemma done_numbered:
  assumes "inputs ps" "finished ps st" "p \<in> set ps"
  shows "numbered (book_of st) p"
    and "RenameContent (renum st) (p_content p) = Inr (ren (renum st) (p_content p), True)"
proof -
  show n: "numbered (book_of st) p"
    using done_grounded[OF assms(2)] loop_okD(2)[of ps st] assms(2,3) by (simp add: finished_def books_def)
  then have "known (renum st) p" by (simp add: numbered_def)
  then show "RenameContent (renum st) (p_content p) = Inr (ren (renum st) (p_content p), True)"
    using good_rename[OF inputs_good[OF assms(1,3)], of "renum st"] by simp
qed

lemma length_kept: "length (kept st) = length (entries st)"
  by (simp add: entries_def)

lemma compress_ends_iff:
  assumes "inputs ps"
  shows "(\<exists>st. compress_instances flag is_open ps = Some (Inr st)) \<longleftrightarrow>
         (\<forall>p \<in> set ps. grounded ps (p_id p))"
proof
  assume "\<exists>st. compress_instances flag is_open ps = Some (Inr st)"
  then show "\<forall>p \<in> set ps. grounded ps (p_id p)"
    using compress_done[OF assms] done_grounded by blast
next
  assume g: "\<forall>p \<in> set ps. grounded ps (p_id p)"
  obtain s where "compress_instances flag is_open ps = rounds flag 0 s" "loop_ok ps s"
    by (rule compress_start[OF assms])
  with rounds_total[OF assms g] show "\<exists>st. compress_instances flag is_open ps = Some (Inr st)" by metis
qed

section \<open>A sample\<close>

text \<open>Two equal points and two lines between them that differ only in the points they name.\<close>

definition sample :: "parsed list" where
  "sample =
     [(5, ''IFCCARTESIANPOINT'', ''(0.,1.)'', []), (7, ''IFCCARTESIANPOINT'', ''(0.,1.)'', []),
      (9, ''IFCLINE'', ''#5,#7'', [5, 7]), (11, ''IFCLINE'', ''#7,#5'', [7, 5])]"

lemma sample_refs: "ref_id ''#5'' = 5" "ref_id ''#7'' = 7"
  by code_simp+
lemma sample_fields:
  "ok_content ''(0.,1.)'' [(Open, ''0.''), (Close, ''1.'')] \<and> refs_of [(Open, ''0.''), (Close, ''1.'')] = []"
  "ok_content ''#5,#7'' [(Plain, ''#5''), (Plain, ''#7'')] \<and> refs_of [(Plain, ''#5''), (Plain, ''#7'')] = [5, 7]"
  "ok_content ''#7,#5'' [(Plain, ''#7''), (Plain, ''#5'')] \<and> refs_of [(Plain, ''#7''), (Plain, ''#5'')] = [7, 5]"
  by (simp_all add: ok_content_def small_def text_of_def ok_field_def refs_of_def is_ref_def sample_refs)
lemma sample_inputs: "inputs sample"
proof -
  have "list_all good sample"
    using sample_fields by (auto simp: sample_def good_def)
  then show ?thesis by (simp add: inputs_def sample_def)
qed

lemma sample_run_value:
  "case compress_instances 0 False sample of
     Some (Inr st) \<Rightarrow> kept st = [\<lparr>inst_id = 1, inst_type = ''IFCCARTESIANPOINT'', inst_content = ''(0.,1.)'', inst_flag = True\<rparr>,
        \<lparr>inst_id = 2, inst_type = ''IFCLINE'', inst_content = ''#1,#1'', inst_flag = True\<rparr>] | _ \<Rightarrow> False"
  by code_simp

lemma sample_run:
  obtains st where "compress_instances 0 False sample = Some (Inr st)"
    "map inst_content (kept st) = [''(0.,1.)'', ''#1,#1'']"
  using sample_run_value by (auto split: option.splits sum.splits)

lemma length_sample: "int (length sample) = 4"
  by (simp add: sample_def)

lemma sample_members:
  "(9, ''IFCLINE'', ''#5,#7'', [5, 7]) \<in> set sample" "(11, ''IFCLINE'', ''#7,#5'', [7, 5]) \<in> set sample"
  by (simp_all add: sample_def)

section \<open>Theorems\<close>

text \<open>C4. The rounds of the second step end, with a result and not with an exception, exactly when
  every chain of references ends: no reference is dangling and none is cyclic. On any other input
  the loop goes on for ever.\<close>

theorem compress_terminates_iff:
  assumes "inputs ps"
  shows "(\<exists>st. compress_instances flag is_open ps = Some (Inr st)) \<longleftrightarrow>
         (\<forall>p \<in> set ps. grounded ps (p_id p))"
  using assms by (rule compress_ends_iff)

theorem compress_terminates_iff_witness: "grounded sample 9 \<and> grounded sample 11"
  using compress_terminates_iff[OF sample_inputs, of 0 False] sample_members by (metis fst_conv sample_run)

text \<open>C2. No instance is lost: every input instance, its references renamed to the new numbers, is
  the kept instance with the number the map gives it.\<close>

theorem compress_keeps_every_instance:
  assumes "inputs ps" "compress_instances flag is_open ps = Some (Inr st)" "p \<in> set ps"
  shows "\<exists>k < length (kept st).
     renum st (p_id p) = Some (int k + 1) \<and> inst_id (kept st ! k) = int k + 1 \<and>
     inst_type (kept st ! k) = p_type p \<and>
     RenameContent (renum st) (p_content p) = Inr (inst_content (kept st ! k), True)"
proof -
  have d: "finished ps st" by (rule compress_done[OF assms(1,2)])
  let ?e = "renamed (renum st) p" and ?n = "number_of (renamed (renum st) p) (entries st)"
  note N = done_numbered[OF assms(1) d assms(3)]
  have e: "?e \<in> set (entries st)" "renum st (p_id p) = Some ?n"
    using N(1) by (simp_all add: numbered_def)
  define k where "k = nat (?n - 1)"
  have k: "int k + 1 = ?n" "k < length (kept st)"
    using number_of_bounds[OF e(1)] by (simp_all add: k_def length_kept nat_less_iff)
  have "entry_of (kept st ! k) = ?e"
    using nth_number_of[OF e(1)] entries_nth[OF k(2)] by (simp add: k_def)
  then have "inst_type (kept st ! k) = p_type p" "inst_content (kept st ! k) = ren (renum st) (p_content p)"
    by (simp_all add: entry_of_def renamed_def)
  with k e(2) N(2) done_kept[OF d k(2)] show ?thesis by auto
qed

theorem compress_keeps_every_instance_witness:
  "\<exists>st k. compress_instances 0 False sample = Some (Inr st) \<and> k < length (kept st) \<and>
     renum st 11 = Some (int k + 1) \<and> inst_type (kept st ! k) = ''IFCLINE''"
  using compress_keeps_every_instance[OF sample_inputs _ sample_members(2), of 0 False]
  by (metis fst_conv snd_conv sample_run)

text \<open>C3. Two instances get the same new number exactly when they have the same type and the same
  content after renaming: every duplicate is removed, and nothing else is merged.\<close>

theorem compress_merges_exactly_equals:
  assumes "inputs ps" "compress_instances flag is_open ps = Some (Inr st)" "p \<in> set ps" "q \<in> set ps"
  shows "renum st (p_id p) = renum st (p_id q) \<longleftrightarrow>
     p_type p = p_type q \<and>
     RenameContent (renum st) (p_content p) = RenameContent (renum st) (p_content q)"
proof -
  have d: "finished ps st" by (rule compress_done[OF assms(1,2)])
  note P = done_numbered[OF assms(1) d assms(3)] and Q = done_numbered[OF assms(1) d assms(4)]
  have n: "number_of e (entries st) = number_of e' (entries st) \<longleftrightarrow> e = e'"
    if "e \<in> set (entries st)" "e' \<in> set (entries st)" for e e'
    using nth_number_of[OF that(1)] nth_number_of[OF that(2)] by metis
  have nP: "renamed (renum st) p \<in> set (entries st)" "renum st (p_id p) = Some (number_of (renamed (renum st) p) (entries st))"
    and nQ: "renamed (renum st) q \<in> set (entries st)" "renum st (p_id q) = Some (number_of (renamed (renum st) q) (entries st))"
    using P(1) Q(1) unfolding numbered_def fst_book_of by blast+
  have "renum st (p_id p) = renum st (p_id q) \<longleftrightarrow> renamed (renum st) p = renamed (renum st) q"
    unfolding nP(2) nQ(2) using n[OF nP(1) nQ(1)] by simp
  with P(2) Q(2) show ?thesis by (simp add: renamed_def)
qed

theorem compress_merges_exactly_equals_witness:
  "\<exists>st. compress_instances 0 False sample = Some (Inr st) \<and>
     (renum st 9 = renum st 11 \<longleftrightarrow> RenameContent (renum st) ''#5,#7'' = RenameContent (renum st) ''#7,#5'')"
  using compress_merges_exactly_equals[OF sample_inputs _ sample_members, of 0 False]
  by (metis fst_conv snd_conv sample_run)

text \<open>C17. The kept instances are numbered from one upwards in output order, no two of them have the
  same type and content, and each is the renamed form of an input instance.\<close>

theorem compress_output_minimal:
  assumes "inputs ps" "compress_instances flag is_open ps = Some (Inr st)"
  shows "map inst_id (kept st) = map int [1..<Suc (length (kept st))] \<and>
     distinct (map entry_of (kept st)) \<and>
     (\<forall>x \<in> set (kept st). \<exists>p \<in> set ps. inst_type x = p_type p \<and>
        RenameContent (renum st) (p_content p) = Inr (inst_content x, True))"
proof -
  have d: "finished ps st" by (rule compress_done[OF assms])
  have b: "books ps (book_of st)" using d by (auto simp: finished_def dest: loop_okD(2))
  have "map inst_id (kept st) = map int [1..<Suc (length (kept st))]"
    by (rule nth_equalityI) (simp_all add: done_kept[OF d] del: upt_Suc)
  moreover have "distinct (map entry_of (kept st))" using b by (simp add: books_def entries_def)
  moreover have "\<exists>p \<in> set ps. inst_type x = p_type p \<and>
        RenameContent (renum st) (p_content p) = Inr (inst_content x, True)" if "x \<in> set (kept st)" for x
  proof -
    have "entry_of x \<in> set (snd (book_of st))" using that by (simp add: entries_def)
    then obtain p where "p \<in> set ps" "renamed (renum st) p = entry_of x"
      using b unfolding books_def by force
    with done_numbered(2)[OF assms(1) d] show ?thesis
      by (intro bexI[of _ p]) (auto simp: renamed_def entry_of_def)
  qed
  ultimately show ?thesis by blast
qed

theorem compress_output_minimal_witness:
  "\<exists>st. compress_instances 0 False sample = Some (Inr st) \<and> map inst_id (kept st) = [1, 2]"
proof -
  obtain st where st: "compress_instances 0 False sample = Some (Inr st)"
      "map inst_content (kept st) = [''(0.,1.)'', ''#1,#1'']" by (rule sample_run)
  have "length (kept st) = 2" using arg_cong[OF st(2), of length] by simp
  with compress_output_minimal[OF sample_inputs st(1)] st(1) show ?thesis by (simp add: upt_rec)
qed

text \<open>C18. The output is in dependency order: the new number of every reference is smaller than that
  of the instance it stands in, and all numbers lie between one and the number of kept instances.\<close>

theorem compress_references_backwards:
  assumes "inputs ps" "compress_instances flag is_open ps = Some (Inr st)" "p \<in> set ps"
    "r \<in> set (p_cites p)"
  shows "\<exists>m n. renum st r = Some m \<and> renum st (p_id p) = Some n \<and> 1 \<le> m \<and> m < n \<and> n \<le> newInc st"
proof -
  have d: "finished ps st" by (rule compress_done[OF assms(1,2)])
  have b: "books ps (book_of st)" and c: "consistent st" using d by (auto simp: finished_def dest: loop_okD(1,2))
  have N: "numbered (book_of st) p" by (rule done_numbered(1)[OF assms(1) d assms(3)])
  then obtain m n where mn: "renum st r = Some m" "renum st (p_id p) = Some n" "m < n"
    using assms(4) by (force simp: numbered_def known_iff)
  moreover have "newInc st = int (length (entries st))" using c by (simp add: consistent_def length_entries)
  ultimately show ?thesis using books_number_le[OF b, of r m] books_number_le[OF b, of "p_id p" n] by simp
qed

theorem compress_references_backwards_witness:
  "\<exists>st m n. compress_instances 0 False sample = Some (Inr st) \<and>
     renum st 5 = Some m \<and> renum st 9 = Some n \<and> m < n"
  using compress_references_backwards[OF sample_inputs _ sample_members(1), of 0 False _ 5]
  by (metis fst_conv snd_conv list.set_intros(1) sample_run)

text \<open>The counters balance: every instance read is either kept or counted as deleted, the number
  of kept instances is the last new number, and nothing is left waiting when the loop ends.\<close>

theorem compress_counts:
  assumes "inputs ps" "compress_instances flag is_open ps = Some (Inr st)"
  shows "totalCount st = int (length ps) \<and> newInc st = int (length (kept st)) \<and>
     newInc st + deleteCount st = totalCount st \<and> unsettled st = []"
proof -
  have d: "finished ps st" by (rule compress_done[OF assms])
  then have u: "unsettled st = []" and l: "loop_ok ps st" by (simp_all add: finished_def)
  have "newInc st + deleteCount st + int (length (unsettled st)) = totalCount st" "totalCount st = int (length ps)"
    using l unfolding loop_ok_def by blast+
  with u loop_okD(1)[OF l] show ?thesis by (simp add: consistent_def kept_def)
qed

theorem compress_counts_witness:
  "\<exists>st. compress_instances 0 False sample = Some (Inr st) \<and> newInc st + deleteCount st = 4"
  using compress_counts[OF sample_inputs, of 0 False] sample_run
  by (metis length_sample)

end
