(* ===== verification/Ifc_Parse.thy ===== *)
theory Ifc_Parse
  imports Ifc_Fields
begin

text \<open>
  Statements: what \<open>IfcInstanceAna\<close> accepts is well formed, and printing a well-formed statement and
  parsing it gives it back, up to the rounding of coordinates, which changes no other text.
\<close>

section \<open>The pieces of a statement\<close>

lemma substr_length: "substr s p n = Inr t \<Longrightarrow> length t \<le> length s"
  by (auto simp: substr_def split: if_splits)

lemma trim_length: "trim s = Inr t \<Longrightarrow> length t \<le> length s"
  by (auto simp: trim_def Let_def split: if_splits dest: substr_length)

lemma split_statement_length:
  assumes "split_statement s = Inr (i, ty, sub)"
  shows "length sub \<le> length s"
proof -
  from assms obtain u where u: "trim s = Inr u" "\<exists>v p n. substr u p n = Inr v \<and> (\<exists>q m. substr v q m = Inr sub)"
    unfolding split_statement_def Let_def by (auto simp: rbind_eq_Inr)
  then obtain v p n q m where v: "substr u p n = Inr v" "substr v q m = Inr sub" by blast
  show ?thesis using trim_length[OF u(1)] substr_length[OF v(1)] substr_length[OF v(2)] by simp
qed

lemma IfcInstanceAna_fields:
  assumes "IfcInstanceAna fpr prec s = Inr (i, ty, c, cites)" "small s" "small c"
  shows "\<exists>fs. ok_content c fs \<and> cites = refs_of fs"
proof -
  from assms(1) obtain sub where sub: "split_statement s = Inr (i, ty, sub)"
      "StandardContent fpr prec ty sub = Inr (c, cites)"
    by (auto simp: IfcInstanceAna_def rbind_eq_Inr)
  have "small sub" using split_statement_length[OF sub(1)] assms(2) by (simp add: small_def)
  from StandardContent_ok[OF this sub(2) assms(3)] show ?thesis .
qed

section \<open>Normalising\<close>

text \<open>What the lossy mode makes of a coordinate: a text that is a number up to its end (or, in a field that opens the list, up
  to one more closing bracket) is written with the given number of decimals; every other text stays.\<close>

definition round_text :: "nat \<Rightarrow> shape \<Rightarrow> string \<Rightarrow> string" where
  "round_text prec sh t =
     (let (x, rest) = strtod (c_str t)
      in if \<not> is_ref t \<and> (rest = [] \<or> (sh = Both \<or> sh = Open) \<and> rest = '')'') then show_fixed prec x else t)"

definition normal_fields :: "bool \<Rightarrow> nat \<Rightarrow> string \<Rightarrow> field list \<Rightarrow> field list" where
  "normal_fields fpr prec ty fs =
     (if fpr \<and> ty = ''IFCCARTESIANPOINT'' then map (\<lambda>(sh, t). (sh, round_text prec sh t)) fs else fs)"

lemma std_text_exact:
  "std_text l p ty (opened sh) t =
     Inr (if l \<and> ty = ''IFCCARTESIANPOINT'' then round_text p sh t else t, if is_ref t then [ref_id t] else [])"
proof (cases "t = []")
  case True
  then show ?thesis
    by (auto simp: std_text_def round_text_def opened_def char_at_Nil is_ref_def Let_def split: prod.splits)
next
  case False
  then have "substr t 1 (strlen t - 1) = Inr (tl t)"
    by (cases t) (simp_all add: substr_def strlen_def)
  with False show ?thesis
    by (auto simp: std_text_def round_text_def opened_def char_at_hd is_ref_def ref_id_def Let_def split: prod.splits)
qed

lemma StandardContent_exact:
  assumes "ok_content c fs"
  shows "StandardContent l p ty c = Inr (text_of (normal_fields l p ty fs), refs_of fs)"
proof -
  let ?g = "\<lambda>sh t. if l \<and> ty = ''IFCCARTESIANPOINT'' then round_text p sh t else t"
  let ?h = "\<lambda>t. if is_ref t then [ref_id t] else []"
  have r: "rmap (in_field (std_text l p ty)) (getline_split (CHR '','') c) = Inr (map (\<lambda>(sh, t). (wrap sh (?g sh t), ?h t)) fs)"
    by (rule rmap_in_field_ok[OF assms]) (rule std_text_exact)
  have c: "intercalate '','' (map fst (map (\<lambda>(sh, t). (wrap sh (?g sh t), ?h t)) fs)) = text_of (normal_fields l p ty fs)"
    by (cases "l \<and> ty = ''IFCCARTESIANPOINT''") (auto simp: text_of_def normal_fields_def split_def comp_def)
  have x: "concat (map snd (map (\<lambda>(sh, t). (wrap sh (?g sh t), ?h t)) fs)) = refs_of fs"
    by (induction fs) (auto simp: refs_of_def)
  show ?thesis unfolding StandardContent_def r rbind_Inr join_fields_eq c x by simp
qed

section \<open>Printing and parsing a statement\<close>

definition statement :: "int \<Rightarrow> string \<Rightarrow> string \<Rightarrow> string" where
  "statement i ty c = ''#'' @ show_int i @ ''='' @ ty @ ''('' @ c @ '');''"

lemma eq_notin_show_int: "CHR ''='' \<notin> set (show_int n)"
  by (auto simp: show_int_def isdigit_def dest!: show_dec_digits split: if_splits)

lemma split_statement_print:
  assumes "- 2147483648 \<le> i" "i < 2147483648" "small (statement i ty c)"
    and "CHR ''('' \<notin> set ty" "\<not> blank_ended ty"
  shows "split_statement (statement i ty c) = Inr (i, ty, c)"
proof -
  let ?s = "statement i ty c" and ?n = "length (show_int i)" and ?t = "ty @ ''('' @ c @ '');''"
  have sm: "int (length ?s) < 2147483648" using assms(3) by (simp add: small_def)
  have tr: "trim ?s = Inr ?s"
    using assms(3) by (intro trim_id) (auto simp: blank_ended_def statement_def)
  have s: "?s = (CHR ''#'' # show_int i) @ CHR ''='' # ?t" by (simp add: statement_def)
  have eq: "find_first_of ?s (CHR ''='') = int ?n + 1"
    unfolding s using eq_notin_show_int[of i] by (subst find_first_of_split) auto
  have n: "int ?n + 1 < 2147483648" using sm by (simp add: statement_def)
  have idx: "substr ?s 1 (int ?n + 1 - 1) = Inr (show_int i)"
    using substr_in_range[of 1 ?s ?n] by (simp add: statement_def)
  have con: "substr ?s (int ?n + 1 + 1) (strlen ?s - (int ?n + 1) - 1) = Inr ?t"
  proof -
    have s2: "?s = ((CHR ''#'' # show_int i) @ ''='') @ ?t" by (simp add: statement_def)
    show ?thesis unfolding s2 by (rule substr_suffix) (simp_all add: strlen_def)
  qed
  have op: "find_first_of ?t (CHR ''('') = int (length ty)"
    using find_first_of_split[OF assms(4)] by simp
  have cl: "find_last_of ?t (CHR '')'') = int (length ty + 1 + length c)"
    using find_last_of_split[of "CHR '')''" "'';''" "ty @ ''('' @ c"] by simp
  have p1: "substr ?t 0 (int (length ty)) = Inr ty" by (rule substr_prefix)
  have p2: "substr ?t (int (length ty) + 1) (int (length ty + 1 + length c) - int (length ty) - 1) = Inr c"
    using substr_in_range[of "length ty + 1" ?t "length c"] by (simp add: add.commute)
  have p3: "trim ty = Inr ty"
    using assms(3,5) by (intro trim_id) (simp_all add: statement_def small_def)
  have p4: "atoi (c_str (show_int i)) = i"
  proof -
    have "c_str (show_int i) = show_int i"
      unfolding c_str_def
      by (auto simp: takeWhile_eq_all_conv show_int_def isdigit_def dest!: show_dec_digits split: if_splits)
    with atoi_show_int[OF assms(1,2)] show ?thesis by simp
  qed
  have p5: "to_int32 (int (length ty)) = int (length ty)" "to_int32 (int ?n + 1) = int ?n + 1"
    using sm by (simp_all add: statement_def)
  show ?thesis
    unfolding split_statement_def tr rbind_Inr Let_def eq p5 idx con op p1 p3 cl p2 p4 ..
qed

text \<open>C29. Printing and parsing are inverse up to rounding: the text of a statement with a well-formed
  parameter list, a number of 32 bits and a type without an opening bracket or outer blanks is parsed by
  \<open>IfcInstanceAna\<close> into exactly its number, its type, its parameter list and the references in it; only that
  in the lossy mode the coordinates of a point are rounded, each in its place.\<close>

theorem IfcInstanceAna_print:
  assumes "ok_content c fs" "- 2147483648 \<le> i" "i < 2147483648" "small (statement i ty c)"
    and "CHR ''('' \<notin> set ty" "\<not> blank_ended ty"
  shows "IfcInstanceAna fpr prec (statement i ty c) =
    Inr (i, ty, if fpr \<and> ty = ''IFCCARTESIANPOINT'' then text_of (map (\<lambda>(sh, t). (sh, round_text prec sh t)) fs) else c,
         refs_of fs)"
  using split_statement_print[OF assms(2-6)] StandardContent_exact[OF assms(1), of fpr prec ty] assms(1)
  by (auto simp: IfcInstanceAna_def normal_fields_def ok_content_def)

lemma rounded_sample: "round_text 1 Open ''1.25'' = ''1.2''" "round_text 1 Close ''#3'' = ''#3''" "round_text 1 Close ''7.'' = ''7.0''"
  by code_simp+

theorem IfcInstanceAna_print_witness:
  "IfcInstanceAna True 0 (statement 12 ''IFCLINE'' ''#3,(#4,$),5.2'') =
     Inr (12, ''IFCLINE'', ''#3,(#4,$),5.2'', refs_of [(Plain, ''#3''), (Open, ''#4''), (Close, ''$''), (Plain, ''5.2'')]) \<and>
   IfcInstanceAna True 1 (statement 3 ''IFCCARTESIANPOINT'' ''(1.25,7.)'') =
     Inr (3, ''IFCCARTESIANPOINT'', ''(1.2,7.0)'', [])"
proof -
  note d = ok_content_def statement_def small_def blank_ended_def text_of_def ok_field_def show_int_def show_dec.simps
  have 1: "IfcInstanceAna True 0 (statement 12 ''IFCLINE'' ''#3,(#4,$),5.2'') =
     Inr (12, ''IFCLINE'', if True \<and> ''IFCLINE'' = ''IFCCARTESIANPOINT''
        then text_of (map (\<lambda>(sh, t). (sh, round_text 0 sh t)) [(Plain, ''#3''), (Open, ''#4''), (Close, ''$''), (Plain, ''5.2'')])
        else ''#3,(#4,$),5.2'',
       refs_of [(Plain, ''#3''), (Open, ''#4''), (Close, ''$''), (Plain, ''5.2'')])"
    by (rule IfcInstanceAna_print) (simp_all add: d)
  have 2: "IfcInstanceAna True 1 (statement 3 ''IFCCARTESIANPOINT'' ''(1.25,7.)'') =
     Inr (3, ''IFCCARTESIANPOINT'', if True \<and> ''IFCCARTESIANPOINT'' = ''IFCCARTESIANPOINT''
        then text_of (map (\<lambda>(sh, t). (sh, round_text 1 sh t)) [(Open, ''1.25''), (Close, ''7.'')])
        else ''(1.25,7.)'', refs_of [(Open, ''1.25''), (Close, ''7.'')])"
    by (rule IfcInstanceAna_print) (simp_all add: d)
  show ?thesis using 1 2 rounded_sample by (simp add: text_of_def refs_of_def is_ref_def)
qed

end
