(* ===== verification/Ifc_Compressor.thy ===== *)
theory Ifc_Compressor
  imports Ifc_Result Ifc_Parse
begin

text \<open>
  The compressor on files: input streams with the failure behaviour of \<open>std::getline\<close>, the
  header loops, the loop over the data section (which joins statements that span lines), and the
  overloads of \<open>IfcCompressor\<close>. The loops that only look for a marker line do not end when the
  marker is missing, so they are \<open>partial_function\<close>s.
\<close>

section \<open>Streams\<close>

record istream =
  rest :: string
  eofbit :: bool
  failbit :: bool

definition open_text :: "string \<Rightarrow> istream" where
  "open_text s = \<lparr>rest = s, eofbit = False, failbit = False\<rparr>"

text \<open>\<open>ifstream ifile (name)\<close>: a file that cannot be opened gives a stream that has failed.\<close>

definition open_file :: "string option \<Rightarrow> istream" where
  "open_file f =
     (case f of None \<Rightarrow> \<lparr>rest = [], eofbit = False, failbit = True\<rparr> | Some s \<Rightarrow> open_text s)"

text \<open>On a stream that is not good the string keeps its old value.\<close>

definition next_line :: "istream \<Rightarrow> string \<Rightarrow> istream \<times> string" where
  "next_line is old =
     (if eofbit is \<or> failbit is then (is\<lparr>failbit := True\<rparr>, old)
      else let l = takeWhile (\<lambda>c. c \<noteq> CHR 0x0A) (rest is);
               r = dropWhile (\<lambda>c. c \<noteq> CHR 0x0A) (rest is)
           in if r = [] then (\<lparr>rest = [], eofbit = True, failbit = (l = [])\<rparr>, l)
              else (is\<lparr>rest := tl r\<rparr>, l))"

definition unread :: "istream \<Rightarrow> nat" where
  "unread is = length (rest is) + (if eofbit is \<or> failbit is then 0 else 1)"

lemma next_line_progress:
  assumes "next_line is old = (is', l)" "\<not> failbit is'"
  shows "unread is' < unread is"
proof -
  let ?r = "dropWhile (\<lambda>c. c \<noteq> CHR 0x0A) (rest is)"
  have good: "\<not> (eofbit is \<or> failbit is)" using assms by (auto simp: next_line_def)
  have len: "length ?r \<le> length (rest is)" by (rule length_dropWhile_le)
  show ?thesis
  proof (cases "?r = []")
    case True
    with assms(1) good have "is' = \<lparr>rest = [], eofbit = True, failbit = (l = [])\<rparr>"
      by (auto simp: next_line_def Let_def)
    with good show ?thesis by (simp add: unread_def)
  next
    case False
    with assms(1) good have "is' = is\<lparr>rest := tl ?r\<rparr>"
      by (auto simp: next_line_def Let_def split: if_splits)
    moreover have "length (tl ?r) < length ?r" using False by simp
    ultimately show ?thesis using good len by (simp add: unread_def)
  qed
qed

lemma next_line_progress': "(is', l) = next_line is old \<Longrightarrow> \<not> failbit is' \<Longrightarrow> unread is' < unread is"
  using next_line_progress by metis

section \<open>The header and the tail\<close>

text \<open>The file overload's loop: \<open>while (getline (ifile, ifcInstance))\<close> with a \<open>break\<close>.\<close>

function read_head :: "istream \<Rightarrow> string \<Rightarrow> string \<Rightarrow> istream \<times> string \<times> string" where
  "read_head is line head =
     (let (is', l) = next_line is line
      in if failbit is' \<or> l = ''DATA;'' then (is', l, head)
         else read_head is' l (head @ l @ newline))"
  by pat_completeness auto
termination
  by (relation "measure (\<lambda>(is, _, _). unread is)") (auto dest: next_line_progress')

declare read_head.simps [simp del]

text \<open>The other overloads: \<open>for (getline (..); ifcInstance != "DATA;"; getline (..))\<close>.\<close>

partial_function (option) read_head_until ::
    "istream \<Rightarrow> string \<Rightarrow> string \<Rightarrow> (istream \<times> string \<times> string) option" where
  "read_head_until is line head =
     (let (is', l) = next_line is line
      in if l = ''DATA;'' then Some (is', l, head)
         else read_head_until is' l (head @ l @ newline))"

declare read_head_until.simps [code]

function read_tail :: "istream \<Rightarrow> string \<Rightarrow> string \<Rightarrow> string" where
  "read_tail is line acc =
     (let (is', l) = next_line is line
      in if failbit is' then acc else read_tail is' l (acc @ l @ newline))"
  by pat_completeness auto
termination
  by (relation "measure (\<lambda>(is, _, _). unread is)") (auto dest: next_line_progress')

declare read_tail.simps [simp del]

section \<open>The data section\<close>

text \<open>One line: the line as the loop leaves it, the partial statement, and the new state. The four
  copies of this loop in the source differ in what they do with a parsed statement (\<open>take_in\<close>).\<close>

definition data_line ::
    "(parsed \<Rightarrow> 's \<Rightarrow> 's) \<Rightarrow> bool \<Rightarrow> nat \<Rightarrow> string \<Rightarrow> bool \<Rightarrow> string \<Rightarrow> 's
       \<Rightarrow> (string \<times> bool \<times> string \<times> 's) res" where
  "data_line take_in fpr prec line isPart tmp_partial st =
     rbind (trim line) (\<lambda>l.
       if l = '''' then Inr (l, isPart, tmp_partial, st)
       else if last l \<noteq> CHR '';'' then
         Inr (l, True, if isPart then tmp_partial @ l else l, st)
       else
         let stm = (if isPart then tmp_partial @ l else l);
             tmp' = (if isPart then '''' else tmp_partial)
         in rbind (IfcInstanceAna fpr prec stm) (\<lambda>p. Inr (stm, False, tmp', take_in p st)))"

partial_function (option) data_loop ::
    "(parsed \<Rightarrow> 's \<Rightarrow> 's) \<Rightarrow> bool \<Rightarrow> nat \<Rightarrow> istream \<Rightarrow> string \<Rightarrow> bool \<Rightarrow> string \<Rightarrow> 's
       \<Rightarrow> (istream \<times> string \<times> 's) res option" where
  "data_loop take_in fpr prec is old isPart tmp_partial st =
     (let (is', line) = next_line is old
      in if line = ''ENDSEC;'' then Some (Inr (is', line, st))
         else case data_line take_in fpr prec line isPart tmp_partial st of
                Inl e \<Rightarrow> Some (Inl e)
              | Inr (l, isPart', tmp', st') \<Rightarrow> data_loop take_in fpr prec is' l isPart' tmp' st')"

declare data_loop.simps [code]

section \<open>The overloads of \<open>IfcCompressor\<close>\<close>

definition final_report :: "int \<Rightarrow> compressor \<Rightarrow> compressor" where
  "final_report flag st =
     (if flag > 1 then
        emit (''Entity Name,Removed Number'' @ newline
              @ concat (map (\<lambda>(k, v). k @ '','' @ show_int v @ newline) (entity_num st))) st
      else st)"

text \<open>Everything after the data section: the second step, the tail, the output file; \<open>report\<close> is what
  the overload appends to its csv at the end.\<close>

definition compress_rest ::
    "(compressor \<Rightarrow> compressor) \<Rightarrow> int \<Rightarrow> istream \<Rightarrow> string \<Rightarrow> string \<Rightarrow> compressor
       \<Rightarrow> (string \<times> compressor) res option" where
  "compress_rest report flag is line head st =
     (case second_step flag st of
        None \<Rightarrow> None
      | Some (Inl e) \<Rightarrow> Some (Inl e)
      | Some (Inr st') \<Rightarrow>
          Some (Inr (write_output (head @ ''DATA;'' @ newline)
                       (read_tail is line (''ENDSEC;'' @ newline)) st',
                     report st')))"

text \<open>Everything after the header; the result is the text of the output file and the final state
  (whose \<open>csv\<close> is the text of the report).\<close>

definition compress_body ::
    "(int \<Rightarrow> istream \<Rightarrow> string \<Rightarrow> string \<Rightarrow> compressor \<Rightarrow> (string \<times> compressor) res option)
       \<Rightarrow> int \<Rightarrow> bool \<Rightarrow> nat \<Rightarrow> bool \<Rightarrow> istream \<Rightarrow> string \<Rightarrow> string \<Rightarrow> (string \<times> compressor) res option" where
  "compress_body rest_of flag fpr prec csv_opened is line head =
     (case data_loop (ingest flag) fpr prec is line False '''' (init_compressor csv_opened) of
        None \<Rightarrow> None
      | Some (Inl e) \<Rightarrow> Some (Inl e)
      | Some (Inr (is', line', st)) \<Rightarrow> rest_of flag is' line' head st)"

definition file_rest ::
    "int \<Rightarrow> istream \<Rightarrow> string \<Rightarrow> string \<Rightarrow> compressor \<Rightarrow> (string \<times> compressor) res option" where
  "file_rest flag = compress_rest (final_report flag) flag"

definition IfcCompressor :: "string option \<Rightarrow> int \<Rightarrow> nat \<Rightarrow> bool \<Rightarrow> (string \<times> compressor) res option" where
  "IfcCompressor file flag precision fpr =
     (let (is, line, head) = read_head (open_file file) '''' ''''
      in compress_body file_rest flag fpr precision (flag = 1) is line head)"

text \<open>The overload without a csv writes no report at all.\<close>

definition noCSV_rest ::
    "int \<Rightarrow> istream \<Rightarrow> string \<Rightarrow> string \<Rightarrow> compressor \<Rightarrow> (string \<times> compressor) res option" where
  "noCSV_rest flag = compress_rest (\<lambda>st. st) flag"

definition IfcCompressor_noCSV ::
    "string option \<Rightarrow> int \<Rightarrow> nat \<Rightarrow> bool \<Rightarrow> (string \<times> compressor) res option" where
  "IfcCompressor_noCSV file flag precision fpr =
     (case read_head_until (open_file file) '''' '''' of
        None \<Rightarrow> None
      | Some (is, line, head) \<Rightarrow> compress_body noCSV_rest flag fpr precision False is line head)"

definition stream_rest ::
    "int \<Rightarrow> istream \<Rightarrow> string \<Rightarrow> string \<Rightarrow> compressor \<Rightarrow> (string \<times> compressor) res option" where
  "stream_rest flag = compress_rest (final_report flag) flag"

text \<open>The stream overload uses the object's \<open>FPR\<close> and \<open>MAX_PRECISION\<close> as they are.\<close>

definition IfcCompressor_stream ::
    "string \<Rightarrow> int \<Rightarrow> nat \<Rightarrow> bool \<Rightarrow> (string \<times> compressor) res option" where
  "IfcCompressor_stream content flag MAX_PRECISION FPR =
     (case read_head_until (open_text content) '''' '''' of
        None \<Rightarrow> None
      | Some (is, line, head) \<Rightarrow> compress_body stream_rest flag FPR MAX_PRECISION True is line head)"

text \<open>\<open>compress\<close>: \<open>fpr\<close> is the argument's field cast to \<open>bool\<close>; it is passed as the precision, and
  the lossy flag is always set.\<close>

definition compress :: "string option \<Rightarrow> bool option \<Rightarrow> (string \<times> compressor) res option" where
  "compress file comp_arg =
     (let fpr = (case comp_arg of None \<Rightarrow> False | Some b \<Rightarrow> b)
      in IfcCompressor file 0 (if fpr then 1 else 0) True)"

definition decompress :: "string option \<Rightarrow> string \<Rightarrow> string" where
  "decompress file output = output"

section \<open>Reading well-formed text\<close>

definition line_text :: "string list \<Rightarrow> string" where
  "line_text ls = concat (map (\<lambda>l. l @ newline) ls)"

definition one_line :: "string \<Rightarrow> bool" where
  "one_line l \<longleftrightarrow> CHR 0x0A \<notin> set l"

lemma line_text_simps [simp]: "line_text [] = []" "line_text (l # ls) = l @ CHR 0x0A # line_text ls"
  by (simp_all add: line_text_def newline_def)

lemma next_line_text:
  "one_line l \<Longrightarrow> next_line (open_text (l @ CHR 0x0A # s)) old = (open_text s, l)"
proof -
  assume "one_line l"
  then have "takeWhile (\<lambda>c. c \<noteq> CHR 0x0A) (l @ CHR 0x0A # s) = l"
      "dropWhile (\<lambda>c. c \<noteq> CHR 0x0A) (l @ CHR 0x0A # s) = CHR 0x0A # s"
    by (auto simp: one_line_def takeWhile_append dropWhile_append takeWhile_eq_all_conv)
  then show ?thesis by (simp add: next_line_def open_text_def)
qed

lemma next_line_failed: "failbit is \<Longrightarrow> next_line is old = (is, old)"
  by (cases "is") (simp add: next_line_def)

lemma next_line_end:
  "next_line (open_text []) old = (\<lparr>rest = [], eofbit = True, failbit = True\<rparr>, [])"
  by (simp add: next_line_def open_text_def)

lemma read_head_text:
  "list_all (\<lambda>l. one_line l \<and> l \<noteq> ''DATA;'') hs \<Longrightarrow>
   read_head (open_text (line_text hs @ ''DATA;'' @ CHR 0x0A # s)) old acc =
     (open_text s, ''DATA;'', acc @ line_text hs)"
proof (induction hs arbitrary: old acc)
  case Nil
  have "one_line ''DATA;''" by (simp add: one_line_def)
  from next_line_text[OF this, of s old] show ?case by (subst read_head.simps) (simp add: open_text_def)
next
  case (Cons l hs)
  then have "one_line l" by simp
  from next_line_text[OF this, of "line_text hs @ ''DATA;'' @ CHR 0x0A # s" old] Cons show ?case
    by (subst read_head.simps) (simp add: open_text_def newline_def)
qed

lemma read_head_until_text:
  "list_all (\<lambda>l. one_line l \<and> l \<noteq> ''DATA;'') hs \<Longrightarrow>
   read_head_until (open_text (line_text hs @ ''DATA;'' @ CHR 0x0A # s)) old acc =
     Some (open_text s, ''DATA;'', acc @ line_text hs)"
proof (induction hs arbitrary: old acc)
  case Nil
  have "one_line ''DATA;''" by (simp add: one_line_def)
  from next_line_text[OF this, of s old] show ?case by (subst read_head_until.simps) simp
next
  case (Cons l hs)
  then have "one_line l" by simp
  from next_line_text[OF this, of "line_text hs @ ''DATA;'' @ CHR 0x0A # s" old] Cons show ?case
    by (subst read_head_until.simps) (simp add: newline_def)
qed

lemma read_tail_text: "list_all one_line ls \<Longrightarrow> read_tail (open_text (line_text ls)) old acc = acc @ line_text ls"
proof (induction ls arbitrary: old acc)
  case Nil
  show ?case by (subst read_tail.simps) (simp add: next_line_end)
next
  case (Cons l ls)
  then have "one_line l" by simp
  from next_line_text[OF this, of "line_text ls" old] Cons show ?case
    by (subst read_tail.simps) (simp add: open_text_def newline_def)
qed

text \<open>The statements of a data section: trimmed lines joined until one ends in a semicolon.\<close>

fun statements :: "bool \<Rightarrow> string \<Rightarrow> string list \<Rightarrow> string list res" where
  "statements isPart tmp [] = Inr []"
| "statements isPart tmp (l0 # ls) =
     rbind (trim l0) (\<lambda>l.
       if l = '''' then statements isPart tmp ls
       else if last l \<noteq> CHR '';'' then statements True (if isPart then tmp @ l else l) ls
       else rbind (statements False (if isPart then '''' else tmp) ls) (\<lambda>ss.
              Inr ((if isPart then tmp @ l else l) # ss)))"

lemma data_loop_text:
  assumes "list_all (\<lambda>l. one_line l \<and> l \<noteq> ''ENDSEC;'') ls" "statements isPart tmp ls = Inr ss"
    "rmap (IfcInstanceAna fpr prec) ss = Inr ps"
  shows "data_loop take_in fpr prec (open_text (line_text ls @ ''ENDSEC;'' @ CHR 0x0A # s)) old isPart tmp st =
         Some (Inr (open_text s, ''ENDSEC;'', fold take_in ps st))"
  using assms
proof (induction ls arbitrary: old isPart tmp st ss ps)
  case Nil
  have "one_line ''ENDSEC;''" by (simp add: one_line_def)
  from next_line_text[OF this, of s old] Nil show ?case by (subst data_loop.simps) simp
next
  case (Cons l0 ls)
  define t where "t = ''ENDSEC;'' @ CHR 0x0A # s"
  let ?s = "line_text ls @ t"
  note IH = Cons.IH[folded t_def]
  from Cons.prems have l0: "one_line l0" "l0 \<noteq> ''ENDSEC;''" and ls: "list_all (\<lambda>l. one_line l \<and> l \<noteq> ''ENDSEC;'') ls"
    by simp_all
  obtain l where l: "trim l0 = Inr l" using Cons.prems(2) by (auto simp: rbind_eq_Inr)
  have step: "data_loop take_in fpr prec (open_text (line_text (l0 # ls) @ t)) old isPart tmp st =
      (case data_line take_in fpr prec l0 isPart tmp st of
         Inl e \<Rightarrow> Some (Inl e)
       | Inr (l, isPart', tmp', st') \<Rightarrow> data_loop take_in fpr prec (open_text ?s) l isPart' tmp' st')"
    using next_line_text[OF l0(1), of ?s old] l0(2) by (subst data_loop.simps) simp
  have "data_loop take_in fpr prec (open_text (line_text (l0 # ls) @ t)) old isPart tmp st =
      Some (Inr (open_text s, ''ENDSEC;'', fold take_in ps st))"
  proof (cases "l \<noteq> '''' \<and> last l = CHR '';''")
    case False
    then obtain b u where "statements b u ls = Inr ss"
        "data_line take_in fpr prec l0 isPart tmp st = Inr (l, b, u, st)"
      using Cons.prems(2) l by (cases "l = ''''") (auto simp: data_line_def)
    with IH[OF ls _ Cons.prems(3)] show ?thesis by (simp only: step) simp
  next
    case True
    let ?stm = "if isPart then tmp @ l else l" and ?t = "if isPart then '''' else tmp"
    from True Cons.prems(2) l obtain ss' where ss: "ss = ?stm # ss'" "statements False ?t ls = Inr ss'"
      by (auto simp: rbind_eq_Inr)
    with Cons.prems(3) obtain p ps' where ps: "IfcInstanceAna fpr prec ?stm = Inr p" "ps = p # ps'"
        "rmap (IfcInstanceAna fpr prec) ss' = Inr ps'"
      by (auto simp: rbind_eq_Inr)
    have "data_line take_in fpr prec l0 isPart tmp st = Inr (?stm, False, ?t, take_in p st)"
      using True l ps(1) by (simp add: data_line_def Let_def)
    with IH[OF ls ss(2) ps(3)] ps(2) show ?thesis by (simp only: step) simp
  qed
  then show ?case by (simp only: t_def)
qed

section \<open>Inputs that never finish\<close>

text \<open>Once the stream has failed the line is never read again: unless the stale line is the end
  marker, the loop goes on for ever or fails.\<close>

lemma data_line_not_end:
  assumes "data_line take_in fpr prec '''' isPart tmp st = Inr (l, isPart', tmp', st')"
  shows "l = '''' \<and> st' = st"
  using assms by (simp add: data_line_def trim_def)

lemma data_loop_stuck:
  fixes take_in :: "parsed \<Rightarrow> 's \<Rightarrow> 's"
  assumes "failbit is"
  shows "data_loop take_in fpr prec is '''' isPart tmp st = None"
proof (rule ccontr)
  assume "data_loop take_in fpr prec is '''' isPart tmp st \<noteq> None"
  then obtain y where "data_loop take_in fpr prec is '''' isPart tmp st = Some y" by blast
  moreover have "failbit is \<Longrightarrow> old = '''' \<Longrightarrow> False"
    if "data_loop take_in fpr prec is old isPart tmp st = Some y" for take_in :: "parsed \<Rightarrow> 's \<Rightarrow> 's" and "is" old isPart tmp st y
    using that
  proof (induction rule: data_loop.raw_induct[rotated, consumes 1])
    case (1 f take_in fpr prec "is" old isPart tmp st y)
    then show ?case by (simp add: next_line_failed data_line_def trim_def)
  qed
  ultimately show False using assms by blast
qed

lemma data_loop_no_end:
  assumes "list_all (\<lambda>l. one_line l \<and> l \<noteq> ''ENDSEC;'') ls"
  shows "data_loop take_in fpr prec (open_text (line_text ls)) old isPart tmp st \<noteq> Some (Inr y)"
  using assms
proof (induction ls arbitrary: old isPart tmp st)
  case Nil
  have "data_loop take_in fpr prec (open_text (line_text [])) old isPart tmp st = None"
    by (subst data_loop.simps) (simp add: next_line_end data_line_def trim_def data_loop_stuck)
  then show ?case by simp
next
  case (Cons l0 ls)
  then have l0: "one_line l0" "l0 \<noteq> ''ENDSEC;''" by simp_all
  have "data_loop take_in fpr prec (open_text (line_text (l0 # ls))) old isPart tmp st =
      (case data_line take_in fpr prec l0 isPart tmp st of
         Inl e \<Rightarrow> Some (Inl e)
       | Inr (l, isPart', tmp', st') \<Rightarrow> data_loop take_in fpr prec (open_text (line_text ls)) l isPart' tmp' st')"
    using next_line_text[OF l0(1), of "line_text ls" old] l0(2) by (subst data_loop.simps) simp
  with Cons show ?case by (simp split: sum.splits prod.splits)
qed

section \<open>From text to text\<close>

definition file_text :: "string list \<Rightarrow> string list \<Rightarrow> string list \<Rightarrow> string" where
  "file_text hs ls ts = line_text hs @ ''DATA;'' @ CHR 0x0A # line_text ls @ ''ENDSEC;'' @ CHR 0x0A # line_text ts"

text \<open>A file whose header and data section have their markers and whose statements parse to \<open>ps\<close>.\<close>

definition parses :: "bool \<Rightarrow> nat \<Rightarrow> string list \<Rightarrow> string list \<Rightarrow> string list \<Rightarrow> parsed list \<Rightarrow> bool" where
  "parses fpr prec hs ls ts ps \<longleftrightarrow>
     list_all (\<lambda>l. one_line l \<and> l \<noteq> ''DATA;'') hs \<and>
     list_all (\<lambda>l. one_line l \<and> l \<noteq> ''ENDSEC;'') ls \<and> list_all one_line ts \<and>
     rbind (statements False '''' ls) (rmap (IfcInstanceAna fpr prec)) = Inr ps"

definition render :: "string list \<Rightarrow> string list \<Rightarrow> compressor \<Rightarrow> string" where
  "render hs ts st =
     line_text (hs @ [''DATA;'']) @ concat (map show_instance (kept st)) @ line_text (''ENDSEC;'' # ts)"

lemma compress_body_text:
  assumes p: "parses fpr prec hs ls ts ps" and i: "inputs ps"
  shows "compress_body (\<lambda>flag. compress_rest (report flag) flag) flag fpr prec b
           (open_text (line_text ls @ ''ENDSEC;'' @ CHR 0x0A # line_text ts)) old (line_text hs) =
     map_option (map_sum id (\<lambda>st. (render hs ts st, report flag st))) (compress_instances flag b ps)"
proof -
  obtain ss where ss: "statements False '''' ls = Inr ss" "rmap (IfcInstanceAna fpr prec) ss = Inr ps"
    using p by (auto simp: parses_def rbind_eq_Inr)
  have d: "data_loop (ingest flag) fpr prec (open_text (line_text ls @ ''ENDSEC;'' @ CHR 0x0A # line_text ts)) old False ''''
        (init_compressor b) = Some (Inr (open_text (line_text ts), ''ENDSEC;'', fold (ingest flag) ps (init_compressor b)))"
    using p ss by (intro data_loop_text) (simp_all add: parses_def)
  have t: "read_tail (open_text (line_text ts)) ''ENDSEC;'' (''ENDSEC;'' @ newline) = line_text (''ENDSEC;'' # ts)"
    using p by (subst read_tail_text) (simp_all add: parses_def newline_def)
  have u: "unsettled st = []" if "compress_instances flag b ps = Some (Inr st)" for st
    using compress_done[OF i that] by (simp add: finished_def)
  show ?thesis
    using u unfolding compress_body_def compress_rest_def d option.case sum.case prod.case t compress_instances_def[symmetric]
    by (auto simp: write_output_def render_def line_text_def newline_def split: option.splits sum.splits)
qed

lemma file_text_split:
  "file_text hs ls ts = line_text hs @ ''DATA;'' @ CHR 0x0A # (line_text ls @ ''ENDSEC;'' @ CHR 0x0A # line_text ts)"
  by (simp add: file_text_def)

lemma IfcCompressor_text:
  assumes p: "parses fpr prec hs ls ts ps" and i: "inputs ps"
  shows "IfcCompressor (Some (file_text hs ls ts)) flag prec fpr =
     map_option (map_sum id (\<lambda>st. (render hs ts st, final_report flag st))) (compress_instances flag (flag = 1) ps)"
proof -
  have "list_all (\<lambda>l. one_line l \<and> l \<noteq> ''DATA;'') hs" using p by (simp add: parses_def)
  from read_head_text[OF this, of "line_text ls @ ''ENDSEC;'' @ CHR 0x0A # line_text ts" "''''" "''''"]
  show ?thesis unfolding file_text_split
    using compress_body_text[OF p i, of "\<lambda>flag st. final_report flag st", folded file_rest_def]
    by (simp only: IfcCompressor_def open_file_def option.case Let_def prod.case append_Nil)
qed

lemma IfcCompressor_noCSV_text:
  assumes p: "parses fpr prec hs ls ts ps" and i: "inputs ps"
  shows "IfcCompressor_noCSV (Some (file_text hs ls ts)) flag prec fpr =
     map_option (map_sum id (\<lambda>st. (render hs ts st, st))) (compress_instances flag False ps)"
proof -
  have "list_all (\<lambda>l. one_line l \<and> l \<noteq> ''DATA;'') hs" using p by (simp add: parses_def)
  from read_head_until_text[OF this, of "line_text ls @ ''ENDSEC;'' @ CHR 0x0A # line_text ts" "''''" "''''"]
  show ?thesis unfolding file_text_split
    using compress_body_text[OF p i, of "\<lambda>flag st. st", folded noCSV_rest_def]
    by (simp only: IfcCompressor_noCSV_def open_file_def option.case Let_def prod.case append_Nil)
qed

lemma IfcCompressor_stream_text:
  assumes p: "parses fpr prec hs ls ts ps" and i: "inputs ps"
  shows "IfcCompressor_stream (file_text hs ls ts) flag prec fpr =
     map_option (map_sum id (\<lambda>st. (render hs ts st, final_report flag st))) (compress_instances flag True ps)"
proof -
  have "list_all (\<lambda>l. one_line l \<and> l \<noteq> ''DATA;'') hs" using p by (simp add: parses_def)
  from read_head_until_text[OF this, of "line_text ls @ ''ENDSEC;'' @ CHR 0x0A # line_text ts" "''''" "''''"]
  show ?thesis unfolding file_text_split
    using compress_body_text[OF p i, of "\<lambda>flag st. final_report flag st", folded stream_rest_def]
    by (simp only: IfcCompressor_stream_def option.case Let_def prod.case append_Nil)
qed

section \<open>The report does not influence the result\<close>

text \<open>\<open>silent\<close> forgets the report and the per-type counts that only go into it.\<close>

definition silent :: "compressor \<Rightarrow> compressor" where
  "silent st = st\<lparr>entity_num := [], csv_open := False, csv := ''''\<rparr>"

lemma silent_sel [simp]:
  "mSet (silent st) = mSet st" "umSet (silent st) = umSet st" "newInc (silent st) = newInc st"
  "iterCount (silent st) = iterCount st" "deleteCount (silent st) = deleteCount st"
  "totalCount (silent st) = totalCount st" "silent (silent st) = silent st"
  by (simp_all add: silent_def)

lemma silent_emit [simp]: "silent (emit s st) = silent st"
  by (simp add: silent_def emit_def)

lemma silent_update [simp]:
  "silent (st\<lparr>entity_num := en\<rparr>) = silent st"
  "silent (st\<lparr>iterCount := i\<rparr>) = (silent st)\<lparr>iterCount := i\<rparr>"
  "silent (st\<lparr>totalCount := i\<rparr>) = (silent st)\<lparr>totalCount := i\<rparr>"
  "silent (st\<lparr>umSet := u\<rparr>) = (silent st)\<lparr>umSet := u\<rparr>"
  by (simp_all add: silent_def)

lemma silent_init: "silent (init_compressor b) = silent (init_compressor False)"
  by (simp add: silent_def init_compressor_def)

lemma silent_drop: "silent (drop_duplicate flag x b st) = silent (drop_duplicate flag' x b (silent st))"
  by (simp add: drop_duplicate_def Let_def silent_def)

lemma silent_keep_first: "silent (keep_first tc x st) = silent (keep_first tc x (silent st))"
  by (simp add: keep_first_def Let_def silent_def)

lemma silent_keep_at: "silent (keep_at tc i st) = silent (keep_at tc i (silent st))"
  by (simp add: keep_at_def Let_def silent_def)

lemma silent_settle_at: "silent (settle_at i st) = settle_at i (silent st)"
  by (simp add: settle_at_def Let_def)

lemma silent_ingest: "silent (ingest flag p st) = silent (ingest flag' p (silent st))"
proof -
  obtain i ty c cs where p: "p = (i, ty, c, cs)" by (cases p)
  show ?thesis
    by (auto simp: p ingest_def Let_def split: option.splits)
       (simp_all add: keep_first_def drop_duplicate_def Let_def silent_def)
qed

lemma silent_match_at: "silent (match_at flag i st) = silent (match_at flag' i (silent st))"
  by (auto simp: match_at_def Let_def split: option.splits)
     (simp_all add: keep_at_def drop_duplicate_def settle_at_def Let_def silent_def)

definition hush :: "compressor res \<Rightarrow> compressor res" where
  "hush r = (case r of Inl e \<Rightarrow> Inl e | Inr st \<Rightarrow> Inr (silent st))"

lemma hush_simps [simp]: "hush (Inl e) = Inl e" "hush (Inr st) = Inr (silent st)"
  by (simp_all add: hush_def)

lemma hush_eq: "Inl e = hush r \<longleftrightarrow> r = Inl e" "Inr st = hush r \<longleftrightarrow> (\<exists>s. r = Inr s \<and> st = silent s)"
  by (cases r; auto)+

lemma silent_rename_at: "rename_at i (silent st) = hush (rename_at i st)"
  by (cases "RenameContent (id_baseID (mSet st)) (inst_content (um_instance (umSet st) ! i))")
     (auto simp: rename_at_def Let_def)

text \<open>Two states that agree up to the report stay so under every operation.\<close>

lemma silent_ingest_cong: "silent st = silent s \<Longrightarrow> silent (ingest flag p st) = silent (ingest flag' p s)"
  by (metis silent_ingest)

lemma silent_match_cong: "silent st = silent s \<Longrightarrow> silent (match_at flag i st) = silent (match_at flag' i s)"
  by (metis silent_match_at)

lemma silent_fold:
  assumes "\<And>x st s. silent st = silent s \<Longrightarrow> silent (f x st) = silent (g x s)"
  shows "silent st = silent s \<Longrightarrow> silent (fold f xs st) = silent (fold g xs s)"
  by (induction xs arbitrary: st s) (simp_all add: assms)

lemma silent_rfold:
  assumes "\<And>x st s. silent st = silent s \<Longrightarrow> hush (f x st) = hush (f x s)"
  shows "silent st = silent s \<Longrightarrow> hush (rfold f xs st) = hush (rfold f xs s)"
proof (induction xs arbitrary: st s)
  case (Cons x xs)
  note R = assms[OF Cons.prems, of x]
  show ?case
  proof (cases "f x st")
    case (Inl e)
    with R show ?thesis by (simp add: hush_eq)
  next
    case (Inr st')
    with R obtain s' where "f x s = Inr s'" "silent st' = silent s'" by (auto simp: hush_eq)
    with Cons.IH[OF this(2)] Inr show ?thesis by simp
  qed
qed simp

lemma silent_umSet: "silent st = silent s \<Longrightarrow> umSet st = umSet s"
  by (metis silent_sel(2))

lemma silent_rename_cong:
  "silent st = silent s \<Longrightarrow> hush (rename_at i st) = hush (rename_at i s)"
  by (metis silent_rename_at)

lemma silent_rename_all_cong:
  assumes "silent st = silent s"
  shows "hush (rename_all st) = hush (rename_all s)"
  unfolding rename_all_def silent_umSet[OF assms]
  by (rule silent_rfold[OF silent_rename_cong assms])

lemma silent_refresh_cong:
  assumes "silent st = silent s"
  shows "hush (refresh_at i st) = hush (refresh_at i s)"
  unfolding refresh_at_def silent_umSet[OF assms]
  using assms silent_rename_cong[OF assms] by simp

lemma silent_refresh_all_cong:
  assumes "silent st = silent s"
  shows "hush (refresh_all st) = hush (refresh_all s)"
  unfolding refresh_all_def silent_umSet[OF assms]
  by (rule silent_rfold[OF silent_refresh_cong assms])

lemma silent_match_all_cong:
  assumes "silent st = silent s"
  shows "silent (match_all flag st) = silent (match_all flag' s)"
  unfolding match_all_def silent_umSet[OF assms]
  by (rule silent_fold[OF silent_match_cong assms])

lemma silent_first:
  assumes "silent st = silent s"
  shows "silent (first_report flag (close_first st)) = silent (first_report flag' (close_first s))"
proof -
  have "silent (first_report f x) = silent x" for f x by (simp add: first_report_def)
  then show ?thesis using assms silent_umSet[OF assms] by (simp add: close_first_def Let_def)
qed

lemma silent_round_report: "silent (round_report flag it k st) = silent st"
  by (simp add: round_report_def)

lemma silent_one_round_cong:
  assumes "silent st = silent s"
  shows "hush (one_round flag it st) = hush (one_round flag' it' s)"
proof -
  have "silent (match_all flag (st\<lparr>iterCount := 0\<rparr>)) = silent (match_all flag' (s\<lparr>iterCount := 0\<rparr>))"
    using assms by (intro silent_match_all_cong) simp
  from silent_refresh_all_cong[OF this] show ?thesis
    by (cases "refresh_all (match_all flag (st\<lparr>iterCount := 0\<rparr>))";
        cases "refresh_all (match_all flag' (s\<lparr>iterCount := 0\<rparr>))")
       (simp_all add: one_round_def silent_round_report)
qed

lemma silent_rounds:
  assumes "rounds flag it st = Some r" "silent st = silent s"
  shows "map_option (hush) (rounds flag' it' s) = Some (hush r)"
  using assms
proof (induction arbitrary: s it' rule: rounds.raw_induct[rotated, consumes 1])
  case (1 rounds flag it st r)
  have um: "um_totalCount (umSet s) = um_totalCount (umSet st)" by (simp add: silent_umSet[OF 1(3)])
  show ?case
  proof (cases "um_totalCount (umSet st) = 0")
    case True
    with 1(2,3) um show ?thesis by (auto simp: rounds.simps)
  next
    case False
    note R = silent_one_round_cong[OF 1(3), of flag "it + 1" flag' "it' + 1"]
    show ?thesis
    proof (cases "one_round flag (it + 1) st")
      case (Inl e)
      with R have "one_round flag' (it' + 1) s = Inl e" by (simp add: hush_eq)
      with 1(2) False um Inl show ?thesis by (auto simp: rounds.simps)
    next
      case (Inr st')
      with R obtain s' where s': "one_round flag' (it' + 1) s = Inr s'" "silent st' = silent s'"
        by (auto simp: hush_eq)
      have "rounds flag (it + 1) st' = Some r" using 1(2) False Inr by simp
      from 1(1)[OF this s'(2)] s'(1) False um show ?thesis by (subst rounds.simps) simp
    qed
  qed
qed

lemma compress_instances_silent:
  "map_option (hush) (compress_instances flag b ps) =
   map_option (hush) (compress_instances flag' b' ps)"
proof -
  have half: "map_option (hush) (compress_instances flag' b' ps) = Some (hush r)"
    if r: "compress_instances flag b ps = Some r" for flag flag' b b' r
  proof -
    let ?s = "\<lambda>flag b. first_report flag (close_first (fold (ingest flag) ps (init_compressor b)))"
    have "silent (fold (ingest flag) ps (init_compressor b)) = silent (fold (ingest flag') ps (init_compressor b'))"
      by (rule silent_fold[OF silent_ingest_cong]) (simp_all only: silent_init[of b] silent_init[of b'])
    then have "silent (?s flag b) = silent (?s flag' b')"
      by (rule silent_first)
    note R = silent_rename_all_cong[OF this]
    show ?thesis
    proof (cases "rename_all (?s flag b)")
      case (Inl e)
      with R have "rename_all (?s flag' b') = Inl e" by (simp add: hush_eq)
      moreover have "r = Inl e" using Inl r by (simp add: compress_instances_def second_step_def)
      ultimately show ?thesis by (simp add: compress_instances_def second_step_def)
    next
      case (Inr st)
      with R obtain s where s: "rename_all (?s flag' b') = Inr s" "silent st = silent s"
        by (auto simp: hush_eq)
      have "rounds flag 0 st = Some r" using Inr r by (simp add: compress_instances_def second_step_def)
      from silent_rounds[OF this s(2), of flag' 0] s(1) show ?thesis
        by (simp add: compress_instances_def second_step_def)
    qed
  qed
  show ?thesis
  proof (cases "compress_instances flag b ps")
    case None
    then show ?thesis using half[of flag' b' _ flag b] by (cases "compress_instances flag' b' ps") auto
  next
    case (Some r)
    from half[OF Some, of flag' b'] Some show ?thesis by auto
  qed
qed

lemma render_silent: "silent st = silent s \<Longrightarrow> render hs ts st = render hs ts s"
  by (simp add: render_def kept_def) (metis silent_sel(1,2))

lemma fst_render:
  "map_option (map_sum id fst) (map_option (map_sum id (\<lambda>st. (render hs ts st, report st))) x) =
   map_option (map_sum id (render hs ts)) (map_option (hush) x)"
proof -
  have "render hs ts (silent st) = render hs ts st" for st by (rule render_silent) simp
  then show ?thesis by (cases x) (auto simp: map_sum_def split: sum.splits)
qed

end
