(* ===== verification/Ifc_File.thy ===== *)
theory Ifc_File
  imports Ifc_Compressor
begin

text \<open>
  The compressor from file text to file text: when the markers are there and the statements
  parse, the run ends exactly on closed and acyclic references and writes the header, the kept
  instances and the tail; the overloads write the same file; without the end marker nothing is
  ever written.
\<close>

section \<open>Parsed files are well formed\<close>

lemma statements_length:
  "statements b tmp ls = Inr ss \<Longrightarrow> s \<in> set ss \<Longrightarrow> length s \<le> (if b then length tmp else 0) + length (line_text ls)"
proof (induction b tmp ls arbitrary: ss rule: statements.induct)
  case (2 b tmp l0 ls)
  then obtain l where l: "trim l0 = Inr l" by (auto simp: rbind_eq_Inr)
  have len: "length l \<le> length l0" using l by (rule trim_length)
  consider "l = ''''" | "l \<noteq> ''''" "last l \<noteq> CHR '';''" | "l \<noteq> ''''" "last l = CHR '';''" by blast
  then show ?case
  proof cases
    case 1
    with 2(1)[OF l 1, of ss] 2(4,5) l show ?thesis by simp
  next
    case c2: 2
    with 2(2)[OF l c2(1), of ss] 2(4,5) l len c2 show ?thesis by (auto split: if_splits)
  next
    case 3
    with 2(4) l obtain ss' where ss: "statements False (if b then '''' else tmp) ls = Inr ss'"
        "ss = (if b then tmp @ l else l) # ss'" by (auto simp: rbind_eq_Inr)
    with 2(3)[OF l 3(1) _ ss(1)] 3 2(5) len show ?thesis by (auto split: if_splits)
  qed
qed simp

definition sized :: "string list \<Rightarrow> parsed list \<Rightarrow> bool" where
  "sized ls ps \<longleftrightarrow> small (line_text ls) \<and> list_all (\<lambda>p. small (p_content p)) ps \<and> distinct (map p_id ps)"

lemma parses_inputs:
  assumes "parses fpr prec hs ls ts ps" "sized ls ps"
  shows "inputs ps"
proof -
  obtain ss where ss: "statements False '''' ls = Inr ss" "rmap (IfcInstanceAna fpr prec) ss = Inr ps"
    using assms(1) by (auto simp: parses_def rbind_eq_Inr)
  have "good p" if m: "p \<in> set ps" for p
  proof -
    obtain s where s: "s \<in> set ss" "IfcInstanceAna fpr prec s = Inr p"
      using rmap_source[OF ss(2) m] by blast
    have "small s" using statements_length[OF ss(1) s(1)] assms(2) by (simp add: sized_def small_def)
    moreover have "small (p_content p)" using assms(2) m by (simp add: sized_def list_all_iff)
    ultimately show ?thesis
      using IfcInstanceAna_fields[of fpr prec s "p_id p" "p_type p" "p_content p" "p_cites p"] s(2)
      by (simp add: good_def)
  qed
  then show ?thesis using assms(2) by (simp add: inputs_def sized_def list_all_iff)
qed

section \<open>A sample file\<close>

definition sample_head :: "string list" where
  "sample_head = [''ISO-10303-21;'', ''HEADER;'', ''ENDSEC;'']"

text \<open>The first line has blanks around it, the third statement spans two lines.\<close>

definition sample_lines :: "string list" where
  "sample_lines =
     [''  #5=IFCCARTESIANPOINT((0.,1.)); '', ''#7= IFCCARTESIANPOINT ((0., 1.));'', '''',
      ''#9=IFCLINE(#5,'', ''  #7);'', ''#11=IFCLINE( #7,#5 );'']"

definition sample_tail :: "string list" where
  "sample_tail = [''END-ISO-10303-21;'']"

lemma sample_parses: "parses False 2 sample_head sample_lines sample_tail sample"
  unfolding parses_def by (intro conjI) code_simp+

lemma sample_sized: "sized sample_lines sample"
  by (simp add: sized_def sample_lines_def sample_def small_def)

lemma sample_grounded: "\<forall>p \<in> set sample. grounded sample (p_id p)"
  using compress_ends_iff[OF sample_inputs, of 0 False] by (metis sample_run)

section \<open>Theorems\<close>

text \<open>C1. On a file whose markers are present and whose statements parse, the compressor ends
  exactly when no reference is dangling or cyclic; it then writes the header, one line for every
  kept instance in the order of the new numbers, and the tail.\<close>

theorem IfcCompressor_end_to_end:
  assumes "parses fpr prec hs ls ts ps" "sized ls ps"
  shows "if \<forall>p \<in> set ps. grounded ps (p_id p)
    then \<exists>st. compress_instances flag (flag = 1) ps = Some (Inr st) \<and>
           IfcCompressor (Some (file_text hs ls ts)) flag prec fpr =
             Some (Inr (line_text (hs @ [''DATA;'']) @ concat (map show_instance (kept st))
                          @ line_text (''ENDSEC;'' # ts), final_report flag st))
    else IfcCompressor (Some (file_text hs ls ts)) flag prec fpr = None"
proof -
  have i: "inputs ps" using assms by (rule parses_inputs)
  note T = IfcCompressor_text[OF assms(1) i, of flag] and E = compress_ends_iff[OF i, of flag "flag = 1"]
  show ?thesis
  proof (cases "\<forall>p \<in> set ps. grounded ps (p_id p)")
    case True
    then obtain st where "compress_instances flag (flag = 1) ps = Some (Inr st)" using E by blast
    with T True show ?thesis by (simp add: render_def)
  next
    case False
    with E have "compress_instances flag (flag = 1) ps = None"
      using compress_never_throws[OF i] by (metis sum.exhaust_sel not_None_eq)
    with T show ?thesis by (simp only: if_not_P[OF False] option.map)
  qed
qed

theorem IfcCompressor_end_to_end_witness:
  "\<exists>st. compress_instances 0 (0 = (1::int)) sample = Some (Inr st) \<and>
     IfcCompressor (Some (file_text sample_head sample_lines sample_tail)) 0 2 False =
       Some (Inr (line_text (sample_head @ [''DATA;'']) @ concat (map show_instance (kept st))
                    @ line_text (''ENDSEC;'' # sample_tail), final_report 0 st))"
  using IfcCompressor_end_to_end[OF sample_parses sample_sized, of 0] sample_grounded by simp

text \<open>C19. The three overloads of \<open>IfcCompressor\<close> write the same file, whatever their report flag:
  the report has no influence on the compression.\<close>

theorem IfcCompressor_overloads_agree:
  assumes "parses fpr prec hs ls ts ps" "sized ls ps"
  shows "map_option (map_sum id fst) (IfcCompressor_noCSV (Some (file_text hs ls ts)) flag' prec fpr) =
         map_option (map_sum id fst) (IfcCompressor (Some (file_text hs ls ts)) flag prec fpr) \<and>
         map_option (map_sum id fst) (IfcCompressor_stream (file_text hs ls ts) flag'' prec fpr) =
         map_option (map_sum id fst) (IfcCompressor (Some (file_text hs ls ts)) flag prec fpr)"
proof -
  have i: "inputs ps" using assms by (rule parses_inputs)
  show ?thesis
    unfolding IfcCompressor_text[OF assms(1) i] IfcCompressor_noCSV_text[OF assms(1) i]
      IfcCompressor_stream_text[OF assms(1) i] fst_render
    using compress_instances_silent by metis
qed

theorem IfcCompressor_overloads_agree_witness:
  "map_option (map_sum id fst) (IfcCompressor_noCSV (Some (file_text sample_head sample_lines sample_tail)) 2 2 False) =
   map_option (map_sum id fst) (IfcCompressor (Some (file_text sample_head sample_lines sample_tail)) 1 2 False)"
  using IfcCompressor_overloads_agree[OF sample_parses sample_sized, of 2 1] by blast

text \<open>C35. Without a line that is exactly \<open>ENDSEC;\<close> after the data marker (a carriage return or a
  blank at its end is enough), or without an input file, the compressor never comes to writing
  an output: it fails on a statement or reads the stale line for ever.\<close>

theorem IfcCompressor_needs_end_marker:
  assumes "list_all (\<lambda>l. one_line l \<and> l \<noteq> ''DATA;'') hs" "list_all (\<lambda>l. one_line l \<and> l \<noteq> ''ENDSEC;'') ls"
  shows "IfcCompressor (Some (line_text (hs @ ''DATA;'' # ls))) flag prec fpr \<noteq> Some (Inr y) \<and>
         IfcCompressor None flag prec fpr = None"
proof
  have t: "line_text (hs @ ''DATA;'' # ls) = line_text hs @ ''DATA;'' @ CHR 0x0A # line_text ls"
    by (simp add: line_text_def newline_def)
  show "IfcCompressor (Some (line_text (hs @ ''DATA;'' # ls))) flag prec fpr \<noteq> Some (Inr y)"
    unfolding t IfcCompressor_def open_file_def option.case read_head_text[OF assms(1)] Let_def prod.case
      compress_body_def
    by (auto simp: data_loop_no_end[OF assms(2)] split: option.splits sum.splits)
  have "read_head (open_file None) '''' '''' = (open_file None, '''', '''')"
    by (subst read_head.simps) (simp add: next_line_failed open_file_def)
  moreover have "data_loop (ingest flag) fpr prec (open_file None) '''' False '''' (init_compressor (flag = 1)) = None"
    by (rule data_loop_stuck) (simp add: open_file_def)
  ultimately show "IfcCompressor None flag prec fpr = None"
    by (simp add: IfcCompressor_def compress_body_def)
qed

theorem IfcCompressor_needs_end_marker_witness:
  "\<nexists>y. IfcCompressor (Some (line_text ([''HEADER;''] @ ''DATA;'' # [''#1=A();'', ''ENDSEC; '']))) 0 2 False = Some (Inr y)"
  using IfcCompressor_needs_end_marker[of "[''HEADER;'']" "[''#1=A();'', ''ENDSEC; '']" 0 2 False]
  by (simp add: one_line_def)

text \<open>\<open>compress\<close> with no argument, or with a zero \<open>fpr\<close>, rounds every coordinate to an
  integer: two points that differ by less are merged, and the coordinates of the kept one are lost.\<close>

theorem compress_rounds_coordinates:
  "map_option (map_sum id fst)
     (compress (Some (file_text [] [''#1=IFCCARTESIANPOINT((1.4,2.));'', ''#2=IFCCARTESIANPOINT((1.2,2.));''] [])) None) =
   Some (Inr (line_text [''DATA;'', ''#1=IFCCARTESIANPOINT((1,2));'', ''ENDSEC;'']))"
  by code_simp

end
