(* ===== verification/Ifc_Analysis.thy ===== *)
theory Ifc_Analysis
  imports Ifc_File
begin

text \<open>
  \<open>IfcCompressorAna\<close>: the variant that only reports, per type, how many instances compression would
  delete. Its loops are written out a second time in the source with other bookkeeping: it keeps the
  output lines instead of indices, and only the instances with references are stored. Both programs
  are shown to implement the same ledger, so that the report is the one of the compressor.
\<close>

section \<open>The program\<close>

record analysis =
  a_mSet :: MatchSet
  a_umSet :: UnmatchSet
  a_newInc :: int
  type_total :: "(string, int) omap"
  type_delete :: "(string, int) omap"
  a_totalCount :: int
  a_deleteCount :: int

definition init_analysis :: analysis where
  "init_analysis =
     \<lparr>a_mSet = \<lparr>baseInstance = [], index = [], id_baseID = Map.empty, type_content = Map.empty\<rparr>,
      a_umSet = \<lparr>um_instance = [], um_flag = [], um_totalCount = 0\<rparr>,
      a_newInc = 0, type_total = [], type_delete = [], a_totalCount = 0, a_deleteCount = 0\<rparr>"

definition count_type :: "string \<Rightarrow> (string, int) omap \<Rightarrow> (string, int) omap" where
  "count_type ty m =
     (case map_of m ty of Some k \<Rightarrow> om_assign ty (k + 1) m | None \<Rightarrow> om_insert ty 1 m)"

definition ana_line :: "int \<Rightarrow> IfcInstance \<Rightarrow> string" where
  "ana_line n inst =
     ''#'' @ show_int n @ ''='' @ inst_type inst @ ''('' @ inst_content inst @ '');'' @ newline"

definition ana_keep ::
    "(int \<Rightarrow> (string \<rightharpoonup> (string \<rightharpoonup> int))) \<Rightarrow> IfcInstance \<Rightarrow> analysis \<Rightarrow> analysis" where
  "ana_keep tc inst an =
     (let n = a_newInc an + 1; m = a_mSet an
      in an\<lparr>a_newInc := n,
            a_mSet := m\<lparr>type_content := tc n,
                        id_baseID := pm_insert (inst_id inst) n (id_baseID m),
                        baseInstance := baseInstance m @ [ana_line n inst]\<rparr>\<rparr>)"

definition ana_drop :: "IfcInstance \<Rightarrow> int \<Rightarrow> analysis \<Rightarrow> analysis" where
  "ana_drop inst b an =
     (let m = a_mSet an
      in an\<lparr>type_delete := count_type (inst_type inst) (type_delete an),
            a_deleteCount := a_deleteCount an + 1,
            a_mSet := m\<lparr>id_baseID := pm_insert (inst_id inst) b (id_baseID m)\<rparr>\<rparr>)"

definition ana_ingest :: "parsed \<Rightarrow> analysis \<Rightarrow> analysis" where
  "ana_ingest p an0 =
     (let (id, ty, content, cite) = p;
          inst = \<lparr>inst_id = id, inst_type = ty, inst_content = content, inst_flag = (cite = [])\<rparr>;
          an = an0\<lparr>a_totalCount := a_totalCount an0 + 1, type_total := count_type ty (type_total an0)\<rparr>
      in if inst_flag inst then
           let tc = type_content (a_mSet an)
           in case tc ty of
                None \<Rightarrow> ana_keep (\<lambda>n. tc(ty \<mapsto> [content \<mapsto> n])) inst an
              | Some cm \<Rightarrow>
                  (case cm content of
                     None \<Rightarrow> ana_keep (\<lambda>n. tc(ty \<mapsto> cm(content \<mapsto> n))) inst an
                   | Some b \<Rightarrow> ana_drop inst b an)
         else
           let u = a_umSet an
           in an\<lparr>a_umSet := u\<lparr>um_instance := um_instance u @ [inst], um_flag := um_flag u @ [True]\<rparr>\<rparr>)"

definition ana_close :: "analysis \<Rightarrow> analysis" where
  "ana_close an =
     (let u = a_umSet an in an\<lparr>a_umSet := u\<lparr>um_totalCount := int (length (um_instance u))\<rparr>\<rparr>)"

definition ana_rename_at :: "nat \<Rightarrow> analysis \<Rightarrow> analysis res" where
  "ana_rename_at i an =
     (let u = a_umSet an; inst = um_instance u ! i
      in rbind (RenameContent (id_baseID (a_mSet an)) (inst_content inst)) (\<lambda>(content, found).
         Inr (an\<lparr>a_umSet := u\<lparr>um_instance :=
                  (um_instance u)[i := inst\<lparr>inst_content := content, inst_flag := found\<rparr>]\<rparr>\<rparr>)))"

definition ana_rename_all :: "analysis \<Rightarrow> analysis res" where
  "ana_rename_all an = rfold ana_rename_at [0..<length (um_instance (a_umSet an))] an"

definition ana_refresh_all :: "analysis \<Rightarrow> analysis res" where
  "ana_refresh_all an =
     rfold (\<lambda>i an. if um_flag (a_umSet an) ! i then ana_rename_at i an else Inr an)
       [0..<length (um_instance (a_umSet an))] an"

definition ana_settle_at :: "nat \<Rightarrow> analysis \<Rightarrow> analysis" where
  "ana_settle_at i an =
     (let u = a_umSet an
      in an\<lparr>a_umSet := u\<lparr>um_totalCount := um_totalCount u - 1, um_flag := (um_flag u)[i := False]\<rparr>\<rparr>)"

definition ana_match_at :: "nat \<Rightarrow> analysis \<Rightarrow> analysis" where
  "ana_match_at i an =
     (let u = a_umSet an; inst = um_instance u ! i; ty = inst_type inst; content = inst_content inst
      in if um_flag u ! i \<and> inst_flag inst then
           let tc = type_content (a_mSet an)
           in ana_settle_at i
               (case tc ty of
                  None \<Rightarrow> ana_keep (\<lambda>n. tc(ty \<mapsto> [content \<mapsto> n])) inst an
                | Some cm \<Rightarrow>
                    (case cm content of
                       None \<Rightarrow> ana_keep (\<lambda>n. tc(ty \<mapsto> cm(content \<mapsto> n))) inst an
                     | Some b \<Rightarrow> ana_drop inst b an))
         else an)"

definition ana_match_all :: "analysis \<Rightarrow> analysis" where
  "ana_match_all an = fold ana_match_at [0..<length (um_instance (a_umSet an))] an"

partial_function (option) ana_rounds :: "analysis \<Rightarrow> analysis res option" where
  "ana_rounds an =
     (if um_totalCount (a_umSet an) \<noteq> 0 then
        (case ana_refresh_all (ana_match_all an) of
           Inl e \<Rightarrow> Some (Inl e)
         | Inr an' \<Rightarrow> ana_rounds an')
      else Some (Inr an))"

declare ana_rounds.simps [code]

definition ana_second_step :: "analysis \<Rightarrow> analysis res option" where
  "ana_second_step an =
     (case ana_rename_all (ana_close an) of
        Inl e \<Rightarrow> Some (Inl e)
      | Inr an' \<Rightarrow> ana_rounds an')"

text \<open>The report; \<open>cost\<close> is the text of the time the run took. The header and the tail are read but
  not used.\<close>

definition ana_report :: "string \<Rightarrow> analysis \<Rightarrow> string" where
  "ana_report cost an =
     ''Cost Time,'' @ cost @ newline
     @ concat (map (\<lambda>(ty, k). ty @ '','' @ show_int k @ newline) (type_delete an))"

definition IfcCompressorAna ::
    "string \<Rightarrow> string \<Rightarrow> nat \<Rightarrow> bool \<Rightarrow> (string \<times> int \<times> int) res option" where
  "IfcCompressorAna cost content MAX_PRECISION FPR =
     (case read_head_until (open_text content) '''' '''' of
        None \<Rightarrow> None
      | Some (is, line, _) \<Rightarrow>
          (case data_loop ana_ingest FPR MAX_PRECISION is line False '''' init_analysis of
             None \<Rightarrow> None
           | Some (Inl e) \<Rightarrow> Some (Inl e)
           | Some (Inr (_, _, an)) \<Rightarrow>
               map_option (map_sum id (\<lambda>an'. (ana_report cost an', a_totalCount an', a_deleteCount an')))
                 (ana_second_step an)))"

section \<open>The ledger\<close>

text \<open>What both programs keep, each in its own way.\<close>

record ledger =
  l_map :: "int \<rightharpoonup> int"
  l_look :: "entry \<Rightarrow> int option"
  l_next :: int
  l_lines :: "string list"
  l_bytype :: "(string, int) omap"
  l_deleted :: int

definition enter :: "IfcInstance \<Rightarrow> ledger \<Rightarrow> ledger" where
  "enter x L =
     (case l_look L (entry_of x) of
        None \<Rightarrow>
          L\<lparr>l_map := pm_insert (inst_id x) (l_next L + 1) (l_map L),
            l_look := (l_look L)(entry_of x \<mapsto> l_next L + 1), l_next := l_next L + 1,
            l_lines := l_lines L @ [ana_line (l_next L + 1) x]\<rparr>
      | Some b \<Rightarrow>
          L\<lparr>l_map := pm_insert (inst_id x) b (l_map L),
            l_bytype := count_type (inst_type x) (l_bytype L), l_deleted := l_deleted L + 1\<rparr>)"

text \<open>The matching loop over stored instances, whatever the state they are stored in: one step enters
  a ready instance and settles it, and changes nothing else the loop looks at.\<close>

locale match_loop =
  fixes ok :: "'s \<Rightarrow> bool"
    and stored :: "'s \<Rightarrow> IfcInstance list"
    and waits :: "'s \<Rightarrow> bool list"
    and book :: "'s \<Rightarrow> ledger \<times> int"
    and step :: "nat \<Rightarrow> 's \<Rightarrow> 's"
  assumes ready_step: "ok s \<Longrightarrow> i < length (stored s) \<Longrightarrow> waits s ! i \<Longrightarrow> inst_flag (stored s ! i) \<Longrightarrow>
      ok (step i s) \<and> length (stored (step i s)) = length (stored s) \<and>
      (\<forall>j. j \<noteq> i \<longrightarrow> stored (step i s) ! j = stored s ! j) \<and> waits (step i s) = (waits s)[i := False] \<and>
      book (step i s) = (enter (stored s ! i) (fst (book s)), snd (book s) - 1)"
    and idle_step: "\<not> (waits s ! i \<and> inst_flag (stored s ! i)) \<Longrightarrow> step i s = s"
    and waits_length: "ok s \<Longrightarrow> length (waits s) = length (stored s)"
begin

lemma upto:
  assumes "ok s" "n \<le> length (stored s)"
  shows "ok (fold step [0..<n] s) \<and> length (stored (fold step [0..<n] s)) = length (stored s) \<and>
     (\<forall>j \<ge> n. stored (fold step [0..<n] s) ! j = stored s ! j \<and> waits (fold step [0..<n] s) ! j = waits s ! j) \<and>
     map ((!) (stored (fold step [0..<n] s))) (filter ((!) (waits (fold step [0..<n] s))) [0..<n]) =
       filter (\<lambda>x. \<not> inst_flag x) (map ((!) (stored s)) (filter ((!) (waits s)) [0..<n])) \<and>
     book (fold step [0..<n] s) =
       (fold enter (filter inst_flag (map ((!) (stored s)) (filter ((!) (waits s)) [0..<n]))) (fst (book s)),
        snd (book s) - int (length (filter inst_flag (map ((!) (stored s)) (filter ((!) (waits s)) [0..<n])))))"
  using assms(2)
proof (induction n)
  case 0
  with assms(1) show ?case by simp
next
  case (Suc n)
  define r where "r = fold step [0..<n] s"
  have f: "fold step [0..<Suc n] s = step n r" by (simp add: r_def)
  note IH = Suc.IH[OF Suc_leD[OF Suc.prems], folded r_def]
  have n: "n < length (stored r)" and ok: "ok r" using IH Suc.prems by simp_all
  have at: "stored r ! n = stored s ! n" "waits r ! n = waits s ! n" using IH by auto
  show ?case
  proof (cases "waits r ! n \<and> inst_flag (stored r ! n)")
    case False
    then have "step n r = r" by (rule idle_step)
    with IH at False show ?thesis unfolding f by (auto simp: Suc_le_eq)
  next
    case True
    note R = ready_step[OF ok n conjunct1[OF True] conjunct2[OF True]]
    have len: "length (waits r) = length (stored r)" by (rule waits_length[OF ok])
    have "map ((!) (stored (step n r))) (filter ((!) (waits (step n r))) [0..<n]) =
        map ((!) (stored r)) (filter ((!) (waits r)) [0..<n])"
      using R by (intro map_cong filter_cong) auto
    moreover have "\<not> waits (step n r) ! n" using R n len by simp
    moreover have "\<forall>j \<ge> Suc n. stored (step n r) ! j = stored s ! j \<and> waits (step n r) ! j = waits s ! j"
      using R IH by simp
    ultimately show ?thesis using R IH at True unfolding f by simp
  qed
qed

definition waiting :: "'s \<Rightarrow> IfcInstance list" where
  "waiting s = map ((!) (stored s)) (filter ((!) (waits s)) [0..<length (stored s)])"

lemma all:
  assumes "ok s"
  defines "r \<equiv> fold step [0..<length (stored s)] s"
  shows "ok r" "length (stored r) = length (stored s)"
    "waiting r = filter (\<lambda>x. \<not> inst_flag x) (waiting s)"
    "book r = (fold enter (filter inst_flag (waiting s)) (fst (book s)),
               snd (book s) - int (length (filter inst_flag (waiting s))))"
  using upto[OF assms(1) order_refl] by (simp_all add: r_def waiting_def)

end

end
