(* ===== verification/Ifc_Agree.thy ===== *)
theory Ifc_Agree
  imports Ifc_Analysis
begin

text \<open>
  \<open>IfcCompressorAna\<close> agrees with the compressor: both loops are instances of the locale over a
  ledger, renaming leaves the ledger alone, and the two programs run in step. The per-type counts
  add up to the number of deleted instances on any input at all.
\<close>

section \<open>The compressor keeps the ledger\<close>

definition ledger_of :: "compressor \<Rightarrow> ledger" where
  "ledger_of st =
     \<lparr>l_map = renum st, l_look = tlook st, l_next = newInc st, l_lines = map show_instance (kept st),
      l_bytype = entity_num st, l_deleted = deleteCount st\<rparr>"

lemma count_entity_two: "count_entity 2 ty en = count_type ty en"
  by (simp add: count_entity_def count_type_def)

lemma ana_line_show: "show_instance (x\<lparr>inst_id := n\<rparr>) = ana_line n x"
  by (simp add: show_instance_def ana_line_def)

lemma look_add_entry:
  "(\<lambda>e'. case add_entry tc e n (fst e') of None \<Rightarrow> None | Some cm \<Rightarrow> cm (snd e')) =
   (\<lambda>e'. case tc (fst e') of None \<Rightarrow> None | Some cm \<Rightarrow> cm (snd e'))(e \<mapsto> n)"
  by (rule ext) (simp add: add_entry_look)

lemma tlook_add_entry:
  "type_content (mSet st') = add_entry (type_content (mSet st)) e n \<Longrightarrow> tlook st' = (tlook st)(e \<mapsto> n)"
  unfolding tlook_def by (simp only: look_add_entry)

lemma tlook_same: "type_content (mSet st') = type_content (mSet st) \<Longrightarrow> tlook st' = tlook st"
  by (simp add: tlook_def fun_eq_iff)

lemma kept_cong:
  "index (mSet st') = index (mSet st) \<Longrightarrow> (\<And>k. k \<in> set (index (mSet st)) \<Longrightarrow> insts st' ! k = insts st ! k) \<Longrightarrow>
   kept st' = kept st"
  by (simp add: kept_def)

lemma match_at_ledger:
  assumes c: "consistent st" and i: "i < length (insts st)" "flags st ! i" "inst_flag (insts st ! i)"
  shows "ledger_of (match_at 2 i st) = enter (insts st ! i) (ledger_of st)"
proof -
  let ?x = "insts st ! i" and ?st' = "match_at 2 i st"
  have ni: "i \<notin> set (index (mSet st))" using c i consistent_index by blast
  show ?thesis
  proof (cases "tlook st (entry_of ?x)")
    case None
    have st': "?st' = settle_at i (keep_at (\<lambda>n. add_entry (type_content (mSet st)) (entry_of ?x) n) i
                 (st\<lparr>iterCount := iterCount st + 1\<rparr>))"
      unfolding match_at_eq using i None by simp
    have f: "insts ?st' = (insts st)[i := ?x\<lparr>inst_id := newInc st + 1\<rparr>]"
        "index (mSet ?st') = index (mSet st) @ [i]" "newInc ?st' = newInc st + 1"
        "type_content (mSet ?st') = add_entry (type_content (mSet st)) (entry_of ?x) (newInc st + 1)"
        "renum ?st' = pm_insert (inst_id ?x) (newInc st + 1) (renum st)"
        "deleteCount ?st' = deleteCount st" "entity_num ?st' = entity_num st"
      unfolding st' by (simp_all add: settle_at_def keep_at_def Let_def)
    have "kept ?st' = kept st @ [?x\<lparr>inst_id := newInc st + 1\<rparr>]"
      using ni i(1) by (auto simp: kept_def f nth_list_update_eq_if)
    with None show ?thesis
      by (simp add: ledger_of_def enter_def f tlook_add_entry[OF f(4)] ana_line_show)
  next
    case (Some b)
    have st': "?st' = settle_at i (drop_duplicate 2 ?x b (st\<lparr>iterCount := iterCount st + 1\<rparr>))"
      unfolding match_at_eq using i Some by simp
    have f: "insts ?st' = insts st" "index (mSet ?st') = index (mSet st)" "newInc ?st' = newInc st"
        "type_content (mSet ?st') = type_content (mSet st)"
        "renum ?st' = pm_insert (inst_id ?x) b (renum st)"
        "deleteCount ?st' = deleteCount st + 1" "entity_num ?st' = count_type (inst_type ?x) (entity_num st)"
      unfolding st' by (simp_all add: settle_at_def drop_duplicate_def Let_def count_entity_two)
    have "kept ?st' = kept st" by (rule kept_cong) (simp_all add: f)
    with Some show ?thesis by (simp add: ledger_of_def enter_def f tlook_same[OF f(4)])
  qed
qed

interpretation full: match_loop consistent insts flags
    "\<lambda>st. (ledger_of st, um_totalCount (umSet st))" "match_at 2"
proof (unfold_locales, goal_cases)
  case (1 s i)
  from match_at_settles[OF 1, where flag = 2] match_at_ledger[OF 1] show ?case by auto
next
  case (2 s i)
  then show ?case by (rule match_at_skips)
qed (simp add: consistent_def)

lemma full_waiting: "consistent st \<Longrightarrow> full.waiting st = unsettled st"
  by (simp add: full.waiting_def unsettled_waiting waiting_upto_def consistent_def)

lemma ledger_waiting:
  assumes c: "consistent st" and w: "p_cites p \<noteq> []"
  shows "ledger_of (ingest 2 p st) = ledger_of st"
proof -
  have st': "ingest 2 p st = st\<lparr>totalCount := totalCount st + 1,
        umSet := (umSet st)\<lparr>um_instance := insts st @ [parsed_instance p], um_flag := flags st @ [True]\<rparr>\<rparr>"
    using w by (simp add: ingest_eq)
  have k: "kept (ingest 2 p st) = kept st"
    using consistent_index[OF c] by (intro kept_cong) (simp_all add: st' nth_append)
  have t: "tlook (ingest 2 p st) = tlook st" by (rule tlook_same) (simp add: st')
  show ?thesis by (simp add: ledger_of_def k t) (simp add: st')
qed

lemma tlook_counted: "tlook (st\<lparr>totalCount := n\<rparr>) = tlook st"
  by (rule tlook_same) simp

lemma ledger_first:
  assumes c: "consistent st" and r: "p_cites p = []" and n: "tlook st (entry_of (parsed_instance p)) = None"
  shows "ledger_of (ingest 2 p st) = enter (parsed_instance p) (ledger_of st)"
proof -
  let ?x = "parsed_instance p"
  have st': "ingest 2 p st = keep_first (\<lambda>n. add_entry (type_content (mSet st)) (entry_of ?x) n) ?x
      (st\<lparr>totalCount := totalCount st + 1, iterCount := iterCount st + 1\<rparr>)"
    using r n tlook_counted by (simp add: ingest_eq Let_def del: parsed_instance_simps(4))
  have f: "insts (ingest 2 p st) = insts st @ [?x\<lparr>inst_id := newInc st + 1\<rparr>]"
      "index (mSet (ingest 2 p st)) = index (mSet st) @ [length (insts st)]"
      "newInc (ingest 2 p st) = newInc st + 1"
      "type_content (mSet (ingest 2 p st)) = add_entry (type_content (mSet st)) (entry_of ?x) (newInc st + 1)"
      "renum (ingest 2 p st) = pm_insert (inst_id ?x) (newInc st + 1) (renum st)"
      "deleteCount (ingest 2 p st) = deleteCount st" "entity_num (ingest 2 p st) = entity_num st"
    unfolding st' by (simp_all add: keep_first_def Let_def)
  have "kept (ingest 2 p st) = kept st @ [?x\<lparr>inst_id := newInc st + 1\<rparr>]"
    using consistent_index[OF c] by (auto simp: kept_def f nth_append)
  with n show ?thesis
    by (simp add: ledger_of_def enter_def f tlook_add_entry[OF f(4)] ana_line_show del: parsed_instance_simps(4))
qed

lemma ledger_duplicate:
  assumes r: "p_cites p = []" and s: "tlook st (entry_of (parsed_instance p)) = Some b"
  shows "ledger_of (ingest 2 p st) = enter (parsed_instance p) (ledger_of st)"
proof -
  let ?x = "parsed_instance p"
  have st': "ingest 2 p st = drop_duplicate 2 ?x b (st\<lparr>totalCount := totalCount st + 1, iterCount := iterCount st + 1\<rparr>)"
    using r s tlook_counted by (simp add: ingest_eq Let_def del: parsed_instance_simps(4))
  have f: "insts (ingest 2 p st) = insts st" "index (mSet (ingest 2 p st)) = index (mSet st)"
      "newInc (ingest 2 p st) = newInc st"
      "type_content (mSet (ingest 2 p st)) = type_content (mSet st)"
      "renum (ingest 2 p st) = pm_insert (inst_id ?x) b (renum st)"
      "deleteCount (ingest 2 p st) = deleteCount st + 1"
      "entity_num (ingest 2 p st) = count_type (inst_type ?x) (entity_num st)"
    unfolding st' by (simp_all add: drop_duplicate_def Let_def count_entity_two)
  have "kept (ingest 2 p st) = kept st" by (rule kept_cong) (simp_all add: f)
  with s show ?thesis
    by (simp add: ledger_of_def enter_def f tlook_same[OF f(4)] del: parsed_instance_simps(4))
qed

lemma ingest_ledger:
  assumes c: "consistent st"
  shows "ledger_of (ingest 2 p st) =
     (if p_cites p = [] then enter (parsed_instance p) (ledger_of st) else ledger_of st)"
  using ledger_waiting[OF c] ledger_first[OF c] ledger_duplicate
  by (cases "tlook st (entry_of (parsed_instance p))") (simp_all del: parsed_instance_simps(4))

section \<open>The analysis keeps the ledger\<close>

abbreviation a_insts :: "analysis \<Rightarrow> IfcInstance list" where
  "a_insts an \<equiv> um_instance (a_umSet an)"

abbreviation a_flags :: "analysis \<Rightarrow> bool list" where
  "a_flags an \<equiv> um_flag (a_umSet an)"

definition a_look :: "analysis \<Rightarrow> entry \<Rightarrow> int option" where
  "a_look an e = (case type_content (a_mSet an) (fst e) of None \<Rightarrow> None | Some cm \<Rightarrow> cm (snd e))"

definition ana_ledger :: "analysis \<Rightarrow> ledger" where
  "ana_ledger an =
     \<lparr>l_map = id_baseID (a_mSet an), l_look = a_look an, l_next = a_newInc an,
      l_lines = baseInstance (a_mSet an), l_bytype = type_delete an, l_deleted = a_deleteCount an\<rparr>"

definition ana_ok :: "analysis \<Rightarrow> bool" where
  "ana_ok an \<longleftrightarrow> length (a_flags an) = length (a_insts an)"

lemma ana_keep_ledger:
  assumes "a_look an (entry_of x) = None"
  shows "ana_ledger (ana_keep (\<lambda>n. add_entry (type_content (a_mSet an)) (entry_of x) n) x an) = enter x (ana_ledger an)"
  using assms by (auto simp: ana_ledger_def enter_def ana_keep_def Let_def a_look_def fun_eq_iff add_entry_look)

lemma ana_drop_ledger:
  assumes "a_look an (entry_of x) = Some b"
  shows "ana_ledger (ana_drop x b an) = enter x (ana_ledger an)"
  using assms by (auto simp: ana_ledger_def enter_def ana_drop_def Let_def a_look_def fun_eq_iff)

definition ana_enter :: "IfcInstance \<Rightarrow> analysis \<Rightarrow> analysis" where
  "ana_enter x an =
     (case a_look an (entry_of x) of
        None \<Rightarrow> ana_keep (\<lambda>n. add_entry (type_content (a_mSet an)) (entry_of x) n) x an
      | Some b \<Rightarrow> ana_drop x b an)"

lemma ana_enter_ledger: "ana_ledger (ana_enter x an) = enter x (ana_ledger an)"
  using ana_keep_ledger ana_drop_ledger by (auto simp: ana_enter_def split: option.splits)

lemma ana_enter_frame [simp]:
  "a_umSet (ana_enter x an) = a_umSet an" "a_totalCount (ana_enter x an) = a_totalCount an"
  "type_total (ana_enter x an) = type_total an"
  by (simp_all add: ana_enter_def ana_keep_def ana_drop_def Let_def split: option.splits)

lemma ana_match_at_eq:
  "ana_match_at i an =
     (if a_flags an ! i \<and> inst_flag (a_insts an ! i) then ana_settle_at i (ana_enter (a_insts an ! i) an) else an)"
  by (auto simp: ana_match_at_def ana_enter_def a_look_def entry_of_def Let_def add_entry_cases split: option.splits)

lemma ana_ingest_eq:
  "ana_ingest p an0 =
     (let an = an0\<lparr>a_totalCount := a_totalCount an0 + 1, type_total := count_type (p_type p) (type_total an0)\<rparr>
      in if p_cites p = [] then ana_enter (parsed_instance p) an
         else an\<lparr>a_umSet := (a_umSet an)\<lparr>um_instance := a_insts an @ [parsed_instance p],
                                      um_flag := a_flags an @ [True]\<rparr>\<rparr>)"
  by (cases p) (auto simp: ana_ingest_def parsed_instance_def ana_enter_def a_look_def entry_of_def Let_def
      add_entry_cases split: option.splits)

lemma ana_ledger_frame [simp]:
  "ana_ledger (an\<lparr>a_umSet := u\<rparr>) = ana_ledger an" "ana_ledger (an\<lparr>a_totalCount := k\<rparr>) = ana_ledger an"
  "ana_ledger (an\<lparr>type_total := t\<rparr>) = ana_ledger an" "ana_ledger (ana_settle_at i an) = ana_ledger an"
  by (simp_all add: ana_ledger_def a_look_def fun_eq_iff ana_settle_at_def Let_def)

interpretation half: match_loop ana_ok "\<lambda>an. um_instance (a_umSet an)" "\<lambda>an. um_flag (a_umSet an)"
    "\<lambda>an. (ana_ledger an, um_totalCount (a_umSet an))" ana_match_at
  by unfold_locales (auto simp: ana_match_at_eq ana_enter_ledger ana_settle_at_def ana_ok_def Let_def
      simp flip: ana_enter_ledger)

section \<open>Renaming leaves the ledger alone\<close>

definition renamed_inst :: "(int \<rightharpoonup> int) \<Rightarrow> IfcInstance \<Rightarrow> IfcInstance" where
  "renamed_inst rel x = (case rename_inst rel x of Inl _ \<Rightarrow> x | Inr y \<Rightarrow> y)"

lemma with_insts_ledger:
  assumes c: "consistent st" and l: "length xs = length (insts st)"
    and k: "\<And>j. j < length xs \<Longrightarrow> \<not> flags st ! j \<Longrightarrow>
              entry_of (xs ! j) = entry_of (insts st ! j) \<and> inst_id (xs ! j) = inst_id (insts st ! j)"
  shows "ledger_of (with_insts xs st) = ledger_of st"
proof -
  have "show_instance (xs ! j) = show_instance (insts st ! j)" if "j \<in> set (index (mSet st))" for j
    using k[of j] consistent_index[OF c that] l by (simp add: show_instance_def entry_of_def)
  moreover have "tlook (with_insts xs st) = tlook st" by (rule tlook_same) simp
  ultimately show ?thesis by (simp add: ledger_of_def kept_def) (simp add: with_insts_def)
qed

lemma refresh_effect:
  assumes c: "consistent st" and r: "refresh_all st = Inr st'"
  shows "ledger_of st' = ledger_of st" "totalCount st' = totalCount st"
    "um_totalCount (umSet st') = um_totalCount (umSet st)"
    "unsettled st' = map (renamed_inst (renum st)) (unsettled st)"
    "\<forall>x \<in> set (unsettled st). rename_inst (renum st) x = Inr (renamed_inst (renum st) x)"
proof -
  let ?n = "length (insts st)"
  have "\<exists>xs. st' = with_insts xs st \<and> length xs = ?n \<and> (\<forall>j \<ge> ?n. xs ! j = insts st ! j) \<and>
    (\<forall>j < ?n. if flags st ! j then rename_inst (renum st) (insts st ! j) = Inr (xs ! j) else xs ! j = insts st ! j)"
    by (rule store.rename_effect[OF order_refl r[unfolded refresh_all_def]])
      (simp add: refresh_at_def rename_at_with)
  then obtain xs where xs: "st' = with_insts xs st" "length xs = ?n"
    "\<forall>j < ?n. if flags st ! j then rename_inst (renum st) (insts st ! j) = Inr (xs ! j) else xs ! j = insts st ! j"
    by blast
  then show "ledger_of st' = ledger_of st" using with_insts_ledger[OF c xs(2)] by simp
  show "totalCount st' = totalCount st" "um_totalCount (umSet st') = um_totalCount (umSet st)"
    using xs(1) by simp_all
  have "unsettled st' = map ((!) xs) (filter ((!) (flags st)) [0..<?n])"
    using with_insts_consistent(3)[OF c xs(2)] xs by simp
  then show "unsettled st' = map (renamed_inst (renum st)) (unsettled st)"
    using c xs(3) by (auto simp: unsettled_waiting waiting_upto_def consistent_def renamed_inst_def)
  show "\<forall>x \<in> set (unsettled st). rename_inst (renum st) x = Inr (renamed_inst (renum st) x)"
    using c xs(3) by (auto simp: unsettled_waiting waiting_upto_def consistent_def renamed_inst_def)
qed

lemma rename_all_effect:
  assumes c: "consistent st" and r: "rename_all st = Inr st'"
    and k: "\<And>j. j < length (insts st) \<Longrightarrow> \<not> flags st ! j \<Longrightarrow>
              inst_content (renamed_inst (renum st) (insts st ! j)) = inst_content (insts st ! j)"
  shows "ledger_of st' = ledger_of st" "totalCount st' = totalCount st"
    "unsettled st' = map (renamed_inst (renum st)) (unsettled st)"
    "\<forall>x \<in> set (unsettled st). rename_inst (renum st) x = Inr (renamed_inst (renum st) x)"
proof -
  let ?n = "length (insts st)"
  have "\<exists>xs. st' = with_insts xs st \<and> length xs = ?n \<and> (\<forall>j \<ge> ?n. xs ! j = insts st ! j) \<and>
    (\<forall>j < ?n. if True then rename_inst (renum st) (insts st ! j) = Inr (xs ! j) else xs ! j = insts st ! j)"
    by (rule store.rename_effect[OF order_refl r[unfolded rename_all_def]]) (simp add: rename_at_with)
  then obtain xs where xs: "st' = with_insts xs st" "length xs = ?n"
    "\<forall>j < ?n. rename_inst (renum st) (insts st ! j) = Inr (xs ! j)"
    by auto
  have "entry_of (xs ! j) = entry_of (insts st ! j) \<and> inst_id (xs ! j) = inst_id (insts st ! j)"
    if "j < length xs" "\<not> flags st ! j" for j
    using k[of j] xs(2,3) that rename_inst_id[of "renum st" "insts st ! j" "xs ! j"]
    by (simp add: renamed_inst_def entry_of_def)
  note K = this
  show "ledger_of st' = ledger_of st" unfolding xs(1) by (rule with_insts_ledger[OF c xs(2) K])
  show "totalCount st' = totalCount st" using xs(1) by simp
  have "unsettled st' = map ((!) xs) (filter ((!) (flags st)) [0..<?n])"
    using with_insts_consistent(3)[OF c xs(2) K] xs by simp
  then show "unsettled st' = map (renamed_inst (renum st)) (unsettled st)"
    using c xs(3) by (auto simp: unsettled_waiting waiting_upto_def consistent_def renamed_inst_def)
  show "\<forall>x \<in> set (unsettled st). rename_inst (renum st) x = Inr (renamed_inst (renum st) x)"
    using c xs(3) by (auto simp: unsettled_waiting waiting_upto_def consistent_def renamed_inst_def)
qed

definition a_with :: "IfcInstance list \<Rightarrow> analysis \<Rightarrow> analysis" where
  "a_with xs an = an\<lparr>a_umSet := (a_umSet an)\<lparr>um_instance := xs\<rparr>\<rparr>"

interpretation half_store: inst_store "\<lambda>an. um_instance (a_umSet an)" a_with "\<lambda>an. id_baseID (a_mSet an)"
  by unfold_locales (simp_all add: a_with_def)

lemma ana_rename_at_with:
  "ana_rename_at i (a_with xs an) =
     rbind (rename_inst (id_baseID (a_mSet an)) (xs ! i)) (\<lambda>y. Inr (a_with (xs[i := y]) an))"
  by (cases "RenameContent (id_baseID (a_mSet an)) (inst_content (xs ! i))")
     (auto simp: ana_rename_at_def rename_inst_def a_with_def Let_def)

lemma a_with_simps [simp]:
  "a_flags (a_with xs an) = a_flags an" "ana_ledger (a_with xs an) = ana_ledger an"
  "a_totalCount (a_with xs an) = a_totalCount an" "um_totalCount (a_umSet (a_with xs an)) = um_totalCount (a_umSet an)"
  "type_total (a_with xs an) = type_total an"
  by (simp_all add: a_with_def)

lemma ana_refresh_effect:
  assumes ok: "ana_ok an"
    and g: "\<forall>x \<in> set (half.waiting an). rename_inst (l_map (ana_ledger an)) x = Inr (g x)"
  obtains an' where "ana_refresh_all an = Inr an'" "ana_ok an'" "ana_ledger an' = ana_ledger an"
    "half.waiting an' = map g (half.waiting an)" "a_totalCount an' = a_totalCount an"
    "um_totalCount (a_umSet an') = um_totalCount (a_umSet an)" "type_total an' = type_total an"
proof -
  let ?n = "length (a_insts an)" and ?P = "\<lambda>j. a_flags an ! j"
  let ?g = "\<lambda>j. if ?P j then g (a_insts an ! j) else a_insts an ! j"
  have "rename_inst (id_baseID (a_mSet an)) (a_insts an ! j) = Inr (g (a_insts an ! j))" if "j < ?n" "?P j" for j
    using g that by (auto simp: half.waiting_def ana_ledger_def)
  then have "ana_refresh_all an = Inr (a_with (map ?g [0..<?n] @ drop ?n (a_insts an)) an)"
    unfolding ana_refresh_all_def
    by (intro half_store.rename_upto[where P = ?P]) (auto simp: ana_rename_at_with)
  moreover have "half.waiting (a_with (map ?g [0..<?n]) an) = map g (half.waiting an)"
    by (simp add: half.waiting_def)
  moreover have "ana_ok (a_with (map ?g [0..<?n]) an)" using ok by (simp add: ana_ok_def)
  ultimately show ?thesis by (intro that[of "a_with (map ?g [0..<?n]) an"]) simp_all
qed

lemma ana_rename_all_refresh:
  assumes "list_all (\<lambda>b. b) (a_flags an)" "ana_ok an"
  shows "ana_rename_all an = ana_refresh_all an"
proof -
  have "rfold ana_rename_at is an = rfold (\<lambda>i an. if a_flags an ! i then ana_rename_at i an else Inr an) is an"
    if "\<forall>i \<in> set is. a_flags an ! i" for "is"
    using that
  proof (induction "is" arbitrary: an)
    case (Cons i "is")
    show ?case
    proof (cases "ana_rename_at i an")
      case (Inr an')
      then have "a_flags an' = a_flags an" by (auto simp: ana_rename_at_def Let_def rbind_eq_Inr)
      with Cons Inr show ?thesis by simp
    qed (use Cons.prems in simp)
  qed simp
  moreover have "\<forall>i \<in> set [0..<length (a_insts an)]. a_flags an ! i"
    using assms by (simp add: list_all_length ana_ok_def)
  ultimately show ?thesis unfolding ana_rename_all_def ana_refresh_all_def by blast
qed

section \<open>In step\<close>

definition agree :: "compressor \<Rightarrow> analysis \<Rightarrow> bool" where
  "agree st an \<longleftrightarrow>
     consistent st \<and> ana_ok an \<and> ledger_of st = ana_ledger an \<and> unsettled st = half.waiting an \<and>
     um_totalCount (umSet st) = um_totalCount (a_umSet an) \<and> totalCount st = a_totalCount an"

lemma ana_match_all_total: "a_totalCount (ana_match_all an) = a_totalCount an"
proof -
  have "a_totalCount (fold ana_match_at is an) = a_totalCount an" for "is"
    by (induction "is" arbitrary: an) (simp_all add: ana_match_at_eq ana_settle_at_def Let_def)
  then show ?thesis by (simp add: ana_match_all_def)
qed

lemma ledger_frame:
  "ledger_of (st\<lparr>iterCount := k\<rparr>) = ledger_of st"
  "ledger_of (first_report 2 (close_first st)) = ledger_of st"
  "totalCount (first_report 2 (close_first st)) = totalCount st"
  by (simp_all add: ledger_of_def kept_def first_report_def close_first_def Let_def tlook_def fun_eq_iff)

lemma agree_round:
  assumes a: "agree st an" and r: "one_round 2 it st = Inr st'"
  obtains an' where "ana_refresh_all (ana_match_all an) = Inr an'" "agree st' an'"
proof -
  let ?s = "st\<lparr>iterCount := 0\<rparr>"
  define m where "m = match_all 2 ?s"
  define k where "k = ana_match_all an"
  have c: "consistent ?s" and ok: "ana_ok an" and l: "ledger_of ?s = ana_ledger an"
    and w: "full.waiting ?s = half.waiting an"
    and t: "um_totalCount (umSet ?s) = um_totalCount (a_umSet an)" "totalCount ?s = a_totalCount an"
    using a by (simp_all add: agree_def loop_frame full_waiting ledger_frame)
  note F = full.all[OF c, folded match_all_def m_def] and H = half.all[OF ok, folded ana_match_all_def k_def]
  have rm: "refresh_all m = Inr st'"
    using r by (simp add: one_round_def m_def round_report_def rbind_eq_Inr)
  have wm: "unsettled m = half.waiting k"
    using F(1,3) H(3) w by (simp add: full_waiting[symmetric])
  have lm: "ledger_of m = ana_ledger k" using F(4) H(4) l w by simp
  have um: "um_totalCount (umSet m) = um_totalCount (a_umSet k)" using F(4) H(4) w t by simp
  have tm: "totalCount m = a_totalCount k"
    using match_all_refines(5)[OF c, of 2] t(2) ana_match_all_total by (simp add: m_def k_def)
  note R = refresh_effect[OF F(1) rm]
  have rel: "renum m = l_map (ana_ledger k)" using lm by (simp add: ledger_of_def flip: lm)
  obtain st2 where st2: "refresh_all m = Inr st2" "consistent st2"
    by (rule refresh_all_refines[OF F(1) R(5)[rule_format]])
  have g: "\<forall>x \<in> set (half.waiting k). rename_inst (l_map (ana_ledger k)) x = Inr (renamed_inst (renum m) x)"
    using R(5) by (simp add: wm rel)
  obtain an' where an': "ana_refresh_all k = Inr an'" "ana_ok an'" "ana_ledger an' = ana_ledger k"
      "half.waiting an' = map (renamed_inst (renum m)) (half.waiting k)" "a_totalCount an' = a_totalCount k"
      "um_totalCount (a_umSet an') = um_totalCount (a_umSet k)" "type_total an' = type_total k"
    by (rule ana_refresh_effect[OF H(1) g])
  have "agree st' an'"
    unfolding agree_def using st2 rm R an' lm wm um tm by simp
  with an'(1) that show ?thesis by (simp add: k_def)
qed

lemma agree_rounds:
  assumes "rounds 2 it st = Some (Inr st')" "agree st an"
  shows "\<exists>an'. ana_rounds an = Some (Inr an') \<and> agree st' an'"
proof -
  have "\<And>an. flag = 2 \<Longrightarrow> r = Inr st' \<Longrightarrow> agree st an \<Longrightarrow> \<exists>an'. ana_rounds an = Some (Inr an') \<and> agree st' an'"
    if "rounds flag it st = Some r" for flag it st r
    using that
  proof (induction rule: rounds.raw_induct[rotated, consumes 1])
    case (1 f flag it st r an)
    have t: "um_totalCount (umSet st) = um_totalCount (a_umSet an)" using 1(5) by (simp add: agree_def)
    show ?case
    proof (cases "um_totalCount (umSet st) = 0")
      case True
      with 1(2,4,5) t show ?thesis by (simp add: ana_rounds.simps)
    next
      case False
      with 1(2,3,4) obtain s where s: "one_round 2 (it + 1) st = Inr s" "f 2 (it + 1) s = Some (Inr st')"
        by (auto split: sum.splits)
      obtain an1 where an1: "ana_refresh_all (ana_match_all an) = Inr an1" "agree s an1"
        by (rule agree_round[OF 1(5) s(1)])
      from 1(1)[OF s(2) refl refl an1(2)] an1(1) False t show ?thesis by (subst ana_rounds.simps) simp
    qed
  qed
  with assms show ?thesis by blast
qed

lemma agree_rounds_back:
  assumes i: "inputs ps" and "ana_rounds an = Some r" "loop_ok ps st" "agree st an"
  shows "rounds 2 it st \<noteq> None"
  using assms(2-)
proof (induction arbitrary: st it rule: ana_rounds.raw_induct[rotated, consumes 1])
  case (1 f an r st it)
  have t: "um_totalCount (umSet st) = um_totalCount (a_umSet an)" using 1(4) by (simp add: agree_def)
  show ?case
  proof (cases "um_totalCount (umSet st) = 0")
    case True
    then show ?thesis by (simp add: rounds.simps)
  next
    case False
    obtain st' where st': "one_round 2 (it + 1) st = Inr st'" "loop_ok ps st'"
      by (rule one_round_ok[OF i 1(3)])
    obtain an' where an': "ana_refresh_all (ana_match_all an) = Inr an'" "agree st' an'"
      by (rule agree_round[OF 1(4) st'(1)])
    from 1(2) False t an'(1) have "f an' = Some r" by simp
    from 1(1)[OF this st'(2) an'(2)] st'(1) False show ?thesis by (subst rounds.simps) simp
  qed
qed

section \<open>The first step\<close>

definition agree_input :: "compressor \<Rightarrow> analysis \<Rightarrow> bool" where
  "agree_input st an \<longleftrightarrow>
     consistent st \<and> ledger_of st = ana_ledger an \<and> a_insts an = unsettled st \<and>
     a_flags an = map (\<lambda>_. True) (a_insts an) \<and> totalCount st = a_totalCount an"

lemma agree_ingest: "agree_input st an \<Longrightarrow> agree_input (ingest 2 p st) (ana_ingest p an)"
  using ingest_refines[of st 2 p] ingest_ledger[of st p]
  by (auto simp: agree_input_def ana_ingest_eq Let_def ana_enter_ledger)

lemma agree_inputs: "agree_input st an \<Longrightarrow> agree_input (fold (ingest 2) ps st) (fold ana_ingest ps an)"
  by (induction ps arbitrary: st an) (simp_all add: agree_ingest)

lemma agree_init: "agree_input (init_compressor b) init_analysis"
  by (simp add: agree_input_def init_compressor_def init_analysis_def ledger_of_def ana_ledger_def
      tlook_def a_look_def kept_def unsettled_def consistent_def entries_def fun_eq_iff)

lemma all_waiting: "a_flags an = map (\<lambda>_. True) (a_insts an) \<Longrightarrow> half.waiting an = a_insts an"
  unfolding half.waiting_def by (simp add: map_nth cong: filter_cong)

lemma agree_start:
  assumes i: "inputs ps" and ok: "input_ok ps ps st" and a: "agree_input st an"
  obtains st' an' where "rename_all (first_report 2 (close_first st)) = Inr st'" "loop_ok ps st'"
    "ana_rename_all (ana_close an) = Inr an'" "agree st' an'"
proof -
  let ?s = "first_report 2 (close_first st)" and ?k = "ana_close an"
  obtain st' where st': "rename_all ?s = Inr st'" "loop_ok ps st'"
    by (rule second_step_start[OF i ok])
  have c: "consistent ?s" using ok by (simp add: input_ok_def first_report_frame)
  note ls = ledger_frame(2,3)[of st]
  have K: "inst_content (renamed_inst (renum ?s) (insts ?s ! j)) = inst_content (insts ?s ! j)"
    if "j < length (insts ?s)" "\<not> flags ?s ! j" for j
  proof -
    from ok have "\<forall>j < length (insts st). \<exists>p \<in> set ps. inst_content (insts st ! j) = p_content p \<and>
        (flags st ! j \<longleftrightarrow> p_cites p \<noteq> [])" by (simp add: input_ok_def)
    with that obtain p where p: "p \<in> set ps" "inst_content (insts ?s ! j) = p_content p" "p_cites p = []"
      unfolding first_report_frame by blast
    from renamed_no_refs(2)[OF inputs_good[OF i p(1)] p(3)] show ?thesis
      by (simp add: renamed_inst_def rename_inst_def p(2))
  qed
  note R = rename_all_effect[OF c st'(1) K]
  have k: "a_insts ?k = unsettled st" "a_flags ?k = map (\<lambda>_. True) (a_insts ?k)" "ana_ledger ?k = ana_ledger an"
      "a_totalCount ?k = a_totalCount an" "um_totalCount (a_umSet ?k) = int (length (unsettled st))"
    using a by (simp_all add: agree_input_def ana_close_def Let_def)
  have okk: "ana_ok ?k" using k by (simp add: ana_ok_def)
  have wk: "half.waiting ?k = unsettled ?s" using all_waiting[OF k(2)] k(1) by (simp add: first_report_frame)
  have lk: "ledger_of ?s = ana_ledger ?k" using ls k a by (simp add: agree_input_def)
  have rel: "renum ?s = l_map (ana_ledger ?k)" by (simp add: ledger_of_def flip: lk)
  have g: "\<forall>x \<in> set (half.waiting ?k). rename_inst (l_map (ana_ledger ?k)) x = Inr (renamed_inst (renum ?s) x)"
    using R(4) by (simp add: wk rel)
  obtain an' where an': "ana_refresh_all ?k = Inr an'" "ana_ok an'" "ana_ledger an' = ana_ledger ?k"
      "half.waiting an' = map (renamed_inst (renum ?s)) (half.waiting ?k)" "a_totalCount an' = a_totalCount ?k"
      "um_totalCount (a_umSet an') = um_totalCount (a_umSet ?k)" "type_total an' = type_total ?k"
    by (rule ana_refresh_effect[OF okk g])
  have "ana_rename_all ?k = Inr an'"
    using ana_rename_all_refresh[OF _ okk] an'(1) k(2) by (simp add: list_all_iff)
  moreover have "um_totalCount (umSet st') = int (length (unsettled st'))" by (rule loop_okD(4)[OF st'(2)])
  then have "agree st' an'"
    unfolding agree_def using loop_okD(1)[OF st'(2)] R an' lk wk k ls a
    by (simp add: first_report_frame agree_input_def)
  ultimately show ?thesis using that st' by blast
qed

lemma analysis_agrees:
  assumes i: "inputs ps"
  shows "case compress_instances 2 b ps of
           None \<Rightarrow> ana_second_step (fold ana_ingest ps init_analysis) = None
         | Some r \<Rightarrow> (\<exists>st an. r = Inr st \<and> ana_second_step (fold ana_ingest ps init_analysis) = Some (Inr an) \<and> agree st an)"
proof -
  let ?st = "fold (ingest 2) ps (init_compressor b)" and ?an = "fold ana_ingest ps init_analysis"
  obtain st' an' where s: "rename_all (first_report 2 (close_first ?st)) = Inr st'" "loop_ok ps st'"
      "ana_rename_all (ana_close ?an) = Inr an'" "agree st' an'"
    by (rule agree_start[OF i ingest_all_input_ok[OF i] agree_inputs[OF agree_init]])
  have e: "compress_instances 2 b ps = rounds 2 0 st'" "ana_second_step ?an = ana_rounds an'"
    using s by (simp_all add: compress_instances_def second_step_def ana_second_step_def)
  show ?thesis
  proof (cases "rounds 2 0 st'")
    case None
    with agree_rounds_back[OF i _ s(2,4), of _ 0] have "ana_rounds an' = None" by (cases "ana_rounds an'") auto
    with None e show ?thesis by simp
  next
    case (Some r)
    from rounds_result[OF i Some s(2)] obtain st where st: "r = Inr st" by blast
    with agree_rounds[OF _ s(4)] Some e show ?thesis by simp
  qed
qed

section \<open>The counts add up\<close>

definition om_sum :: "(string, int) omap \<Rightarrow> int" where
  "om_sum m = sum_list (map snd m)"

lemma om_sum_assign:
  "om_ok m \<Longrightarrow> om_sum (om_assign k v m) = om_sum m - (case map_of m k of None \<Rightarrow> 0 | Some w \<Rightarrow> w) + v"
proof (induction k v m rule: om_assign.induct)
  case (2 k v k' v' m)
  show ?case
  proof (cases "k < k'")
    case True
    then have "map_of m k = None" "k \<noteq> k'" using 2(2) by (auto simp: om_ok_def map_of_eq_None_iff)
    with True show ?thesis by (simp add: om_sum_def)
  next
    case False
    with 2 show ?thesis by (auto simp: om_sum_def om_ok_def split: option.splits)
  qed
qed (simp add: om_sum_def)

definition tallied :: "int \<Rightarrow> (string, int) omap \<Rightarrow> bool" where
  "tallied n m \<longleftrightarrow> om_ok m \<and> om_sum m = n \<and> list_all (\<lambda>(_, k). 0 < k) m"

lemma om_assign_all: "list_all P m \<Longrightarrow> P (k, v) \<Longrightarrow> list_all P (om_assign k v m)"
  by (induction k v m rule: om_assign.induct) auto

lemma count_type_tallied:
  assumes "tallied n m"
  shows "tallied (n + 1) (count_type ty m)"
proof (cases "map_of m ty")
  case None
  with assms show ?thesis
    by (auto simp: tallied_def count_type_def om_insert_def om_ok_assign om_sum_assign intro!: om_assign_all)
next
  case (Some k)
  have "0 < k" using assms map_of_SomeD[OF Some] by (auto simp: tallied_def list_all_iff)
  with assms Some show ?thesis
    by (auto simp: tallied_def count_type_def om_ok_assign om_sum_assign intro!: om_assign_all)
qed

abbreviation led_tallied :: "ledger \<Rightarrow> bool" where
  "led_tallied L \<equiv> tallied (l_deleted L) (l_bytype L)"

lemma enter_tallied: "led_tallied L \<Longrightarrow> led_tallied (enter x L)"
  by (auto simp: enter_def count_type_tallied split: option.splits)

lemma enter_all_tallied: "led_tallied L \<Longrightarrow> led_tallied (fold enter xs L)"
  by (induction xs arbitrary: L) (simp_all add: enter_tallied)

definition counted :: "analysis \<Rightarrow> bool" where
  "counted an \<longleftrightarrow> ana_ok an \<and> led_tallied (ana_ledger an) \<and> tallied (a_totalCount an) (type_total an)"

lemma counted_init: "counted init_analysis"
  by (simp add: counted_def init_analysis_def ana_ok_def ana_ledger_def tallied_def om_sum_def)

lemma counted_ingest: "counted an \<Longrightarrow> counted (ana_ingest p an)"
  by (auto simp: counted_def ana_ingest_eq Let_def ana_enter_ledger enter_tallied count_type_tallied ana_ok_def)

lemma counted_close: "counted an \<Longrightarrow> counted (ana_close an)"
  by (simp add: counted_def ana_close_def Let_def ana_ok_def)

lemma counted_match: "counted an \<Longrightarrow> counted (ana_match_all an)"
proof -
  assume c: "counted an"
  then have ok: "ana_ok an" by (simp add: counted_def)
  have "type_total (fold ana_match_at is an) = type_total an" for "is"
    by (induction "is" arbitrary: an) (simp_all add: ana_match_at_eq ana_settle_at_def Let_def)
  then have "type_total (ana_match_all an) = type_total an" by (simp add: ana_match_all_def)
  with c half.all[OF ok, folded ana_match_all_def] show ?thesis
    by (simp add: counted_def enter_all_tallied ana_match_all_total)
qed

lemma counted_a_with: "counted an \<Longrightarrow> length xs = length (a_insts an) \<Longrightarrow> counted (a_with xs an)"
  by (simp add: counted_def ana_ok_def)

lemma counted_rename:
  assumes "counted an" "ana_rename_all an = Inr an' \<or> ana_refresh_all an = Inr an'"
  shows "counted an'"
proof -
  let ?n = "length (a_insts an)"
  have "\<exists>xs. an' = a_with xs an \<and> length xs = ?n" if "rfold f [0..<?n] an = Inr an'"
    "\<And>j xs. f j (a_with xs an) = (if P j then ana_rename_at j (a_with xs an) else Inr (a_with xs an))" for f P
  proof -
    have "\<exists>xs. an' = a_with xs an \<and> length xs = ?n \<and> (\<forall>j \<ge> ?n. xs ! j = a_insts an ! j) \<and>
      (\<forall>j < ?n. if P j then rename_inst (id_baseID (a_mSet an)) (a_insts an ! j) = Inr (xs ! j) else xs ! j = a_insts an ! j)"
      by (rule half_store.rename_effect[OF order_refl that(1)]) (simp add: that(2) ana_rename_at_with)
    then show ?thesis by blast
  qed
  note E = this
  have "\<exists>xs. an' = a_with xs an \<and> length xs = ?n"
    using assms(2) E[of ana_rename_at "\<lambda>_. True"]
      E[of "\<lambda>i an. if a_flags an ! i then ana_rename_at i an else Inr an" "\<lambda>j. a_flags an ! j"]
    by (auto simp: ana_rename_all_def ana_refresh_all_def)
  with counted_a_with[OF assms(1)] show ?thesis by blast
qed

lemma counted_rounds:
  assumes "ana_rounds an = Some r" "r = Inr an'" "counted an"
  shows "counted an'"
  using assms
proof (induction rule: ana_rounds.raw_induct[rotated, consumes 1])
  case (1 f an r)
  show ?case
  proof (cases "um_totalCount (a_umSet an) = 0")
    case True
    with 1 show ?thesis by simp
  next
    case False
    with 1(2,3) obtain an1 where an1: "ana_refresh_all (ana_match_all an) = Inr an1" "f an1 = Some (Inr an')"
      by (auto split: sum.splits)
    have "counted an1" using counted_rename[OF counted_match[OF 1(4)]] an1(1) by blast
    with 1(1)[OF an1(2) refl] show ?thesis .
  qed
qed

lemma counted_second_step:
  assumes "ana_second_step an = Some (Inr an')" "counted an"
  shows "counted an'"
proof -
  from assms(1) obtain an1 where an1: "ana_rename_all (ana_close an) = Inr an1" "ana_rounds an1 = Some (Inr an')"
    by (auto simp: ana_second_step_def split: sum.splits)
  have "counted an1" using counted_rename[OF counted_close[OF assms(2)]] an1(1) by blast
  then show ?thesis by (rule counted_rounds[OF an1(2) refl])
qed

lemma data_loop_keeps:
  fixes take_in :: "parsed \<Rightarrow> 's \<Rightarrow> 's"
  assumes "data_loop take_in fpr prec is old isPart tmp st = Some (Inr (is', l, st'))"
    and "\<And>p s. P s \<Longrightarrow> P (take_in p s)" "P st"
  shows "P st'"
proof -
  have "\<And>is' l st'. r = Inr (is', l, st') \<Longrightarrow> (\<And>p s. P s \<Longrightarrow> P (take_in p s)) \<Longrightarrow> P st \<Longrightarrow> P st'"
    if "data_loop take_in fpr prec is old isPart tmp st = Some r"
    for take_in :: "parsed \<Rightarrow> 's \<Rightarrow> 's" and fpr prec "is" old isPart tmp st r
    using that
  proof (induction rule: data_loop.raw_induct[rotated, consumes 1])
    case (1 f take_in fpr prec "is" old isPart tmp st r is' l st')
    obtain is1 line where nl: "next_line is old = (is1, line)" by fastforce
    show ?case
    proof (cases "line = ''ENDSEC;''")
      case True
      with 1(2,3,5) nl show ?thesis by simp
    next
      case False
      with 1(2,3) nl obtain l1 b1 t1 s1 where d: "data_line take_in fpr prec line isPart tmp st = Inr (l1, b1, t1, s1)"
          "f take_in fpr prec is1 l1 b1 t1 s1 = Some (Inr (is', l, st'))"
        by (auto split: sum.splits)
      have "P s1" using d(1) 1(4,5) by (auto simp: data_line_def Let_def rbind_eq_Inr split: if_splits)
      from 1(1)[OF d(2) refl 1(4) this] show ?thesis .
    qed
  qed
  with assms show ?thesis by blast
qed

lemma map_sum_eq_Inr: "map_sum f g x = Inr y \<longleftrightarrow> (\<exists>z. x = Inr z \<and> y = g z)"
  by (cases x) auto

section \<open>Properties\<close>

definition deletion_report :: "string \<Rightarrow> (string, int) omap \<Rightarrow> string" where
  "deletion_report cost m =
     ''Cost Time,'' @ cost @ newline @ concat (map (\<lambda>(ty, k). ty @ '','' @ show_int k @ newline) m)"

text \<open>C20. On every file whose markers are there and whose statements parse, the analysis ends exactly when
  the compressor does, and what it reports is what the compressor did: the same number of instances
  read, the same number deleted, and the same number deleted of every type.\<close>

theorem IfcCompressorAna_reports:
  assumes "parses FPR prec hs ls ts ps" "sized ls ps"
  shows "IfcCompressorAna cost (file_text hs ls ts) prec FPR =
     map_option (map_sum id (\<lambda>(_, st). (deletion_report cost (entity_num st), totalCount st, deleteCount st)))
       (IfcCompressor (Some (file_text hs ls ts)) 2 prec FPR)"
proof -
  have i: "inputs ps" by (rule parses_inputs[OF assms])
  obtain ss where ss: "statements False '''' ls = Inr ss" "rmap (IfcInstanceAna FPR prec) ss = Inr ps"
    using assms(1) by (auto simp: parses_def rbind_eq_Inr)
  have h: "list_all (\<lambda>l. one_line l \<and> l \<noteq> ''DATA;'') hs" "list_all (\<lambda>l. one_line l \<and> l \<noteq> ''ENDSEC;'') ls"
    using assms(1) by (simp_all add: parses_def)
  have "IfcCompressorAna cost (file_text hs ls ts) prec FPR =
      map_option (map_sum id (\<lambda>an. (ana_report cost an, a_totalCount an, a_deleteCount an)))
        (ana_second_step (fold ana_ingest ps init_analysis))"
    unfolding IfcCompressorAna_def file_text_split
    by (simp only: read_head_until_text[OF h(1)] data_loop_text[OF h(2) ss] option.case prod.case sum.case)
  moreover have "final_report 2 st = emit (''Entity Name,Removed Number'' @ newline
        @ concat (map (\<lambda>(k, v). k @ '','' @ show_int v @ newline) (entity_num st))) st" for st
    by (simp add: final_report_def)
  then have "entity_num (final_report 2 st) = entity_num st" "totalCount (final_report 2 st) = totalCount st"
      "deleteCount (final_report 2 st) = deleteCount st" for st
    by (simp_all add: emit_def)
  moreover have "ana_report cost an = deletion_report cost (entity_num st)" "a_totalCount an = totalCount st"
      "a_deleteCount an = deleteCount st" if "agree st an" for st an
    using that by (auto simp: agree_def ana_report_def deletion_report_def ledger_of_def ana_ledger_def)
  ultimately show ?thesis
    using analysis_agrees[OF i, of "(2::int) = 1"]
    by (auto simp: IfcCompressor_text[OF assms(1) i] split: option.splits)
qed

theorem IfcCompressorAna_reports_witness:
  "IfcCompressorAna ''0.5'' (file_text sample_head sample_lines sample_tail) 2 False =
     map_option (map_sum id (\<lambda>(_, st). (deletion_report ''0.5'' (entity_num st), totalCount st, deleteCount st)))
       (IfcCompressor (Some (file_text sample_head sample_lines sample_tail)) 2 2 False)"
  by (rule IfcCompressorAna_reports[OF sample_parses sample_sized])

text \<open>The analysis adds up on every input it ends on, whatever is in it: the report lists types in order,
  each with a positive count, and the counts sum to the number of deleted instances.\<close>

theorem IfcCompressorAna_counts:
  assumes "IfcCompressorAna cost content prec FPR = Some (Inr (report, tot, deleted))"
  shows "\<exists>m. report = deletion_report cost m \<and> om_ok m \<and> sum_list (map snd m) = deleted \<and>
     list_all (\<lambda>(_, k). 0 < k) m"
proof -
  obtain "is" line h is' l' an an' where a: "read_head_until (open_text content) '''' '''' = Some (is, line, h)"
      "data_loop ana_ingest FPR prec is line False '''' init_analysis = Some (Inr (is', l', an))"
      "ana_second_step an = Some (Inr an')"
      "report = ana_report cost an'" "deleted = a_deleteCount an'"
    using assms by (auto simp: IfcCompressorAna_def map_sum_eq_Inr split: option.splits sum.splits)
  have "counted an" by (rule data_loop_keeps[OF a(2)]) (auto simp: counted_ingest counted_init)
  then have "counted an'" by (rule counted_second_step[OF a(3)])
  then show ?thesis
    using a(4,5) by (auto simp: counted_def tallied_def om_sum_def ana_ledger_def ana_report_def deletion_report_def)
qed

lemma sample_analysis:
  "case IfcCompressorAna ''0.5'' (file_text sample_head sample_lines sample_tail) 2 False of
     Some (Inr (report, tot, deleted)) \<Rightarrow> tot = 4 \<and> deleted = 2 | _ \<Rightarrow> False"
  by code_simp

theorem IfcCompressorAna_counts_witness:
  "\<exists>report tot deleted.
     IfcCompressorAna ''0.5'' (file_text sample_head sample_lines sample_tail) 2 False =
       Some (Inr (report, tot, deleted)) \<and>
     (\<exists>m. report = deletion_report ''0.5'' m \<and> om_ok m \<and> sum_list (map snd m) = deleted)"
proof -
  obtain report tot deleted where r: "IfcCompressorAna ''0.5'' (file_text sample_head sample_lines sample_tail) 2 False =
       Some (Inr (report, tot, deleted))"
    using sample_analysis by (auto split: option.splits sum.splits)
  from IfcCompressorAna_counts[OF r] r show ?thesis by blast
qed

end
