(* ===== verification/Text_Utils.thy ===== *)
theory Text_Utils
  imports Prelude
begin

text \<open>
  The string helpers of \<open>src/src/common\<close>: \<open>string.cpp\<close> (stripping, splitting, merging, replacing,
  hexadecimal), \<open>subreplace\<close> and the conversion of line ends of \<open>vulcan_utility.cpp\<close>, and the wire format of
  \<open>io/resp_protocol.cpp\<close>, each with the property that makes it usable: what stripping removes,
  that splitting undoes merging, that replacing leaves nothing to replace, that decoding undoes
  encoding.
\<close>

section \<open>Stripping white space\<close>

text \<open>\<open>strip (char *)\<close>: \<open>head\<close> and \<open>last\<close> are indices into the buffer; a null character is written
  behind \<open>last\<close>.\<close>

definition strip_c :: "string \<Rightarrow> string" where
  "strip_c s =
     (if s = [] then s
      else let head = length (takeWhile isspace s);
               last = length s - 1 - min (length (takeWhile isspace (rev s))) (length s - 1)
           in take (last + 1 - head) (drop head s))"

text \<open>\<open>strip (std::string &)\<close>: the loop for the tail stops at \<open>head\<close> only, so on a string of white
  space it runs off the front.\<close>

fun strip_tail :: "string \<Rightarrow> nat \<Rightarrow> nat \<Rightarrow> nat option" where
  "strip_tail str head 0 = (if isspace (str ! 0) \<and> 0 \<noteq> head then None else Some 0)"
| "strip_tail str head (Suc k) =
     (if isspace (str ! Suc k) \<and> Suc k \<noteq> head then strip_tail str head k else Some (Suc k))"

definition strip_str :: "string \<Rightarrow> string res" where
  "strip_str str =
     (if str = [] then Inl Undefined
      else let head = length (takeWhile isspace str)
           in case strip_tail str head (length str - 1) of
                None \<Rightarrow> Inl Undefined
              | Some tail \<Rightarrow> substr str (int head) (int tail - int head + 1))"

definition trimmed :: "string \<Rightarrow> string" where
  "trimmed s = rev (dropWhile isspace (rev (dropWhile isspace s)))"

lemma takeWhile_snoc_stop: "\<not> P c \<Longrightarrow> takeWhile P (zs @ [c]) = takeWhile P zs"
  by (induction zs) auto

lemma takeWhile_rev_trim:
  assumes "\<not> (\<forall>c \<in> set s. P c)"
  shows "length (takeWhile P s) + length (takeWhile P (rev s)) < length s"
    and "rev (dropWhile P (rev (dropWhile P s))) =
         take (length s - length (takeWhile P (rev s)) - length (takeWhile P s)) (drop (length (takeWhile P s)) s)"
proof -
  from assms obtain xs c ys where s: "s = xs @ c # ys" "\<not> P c" "\<forall>x \<in> set xs. P x"
    using split_list_first_prop[of s "\<lambda>x. \<not> P x"] by auto
  then have d: "takeWhile P s = xs" "dropWhile P s = c # ys"
    by (auto simp: takeWhile_append dropWhile_append)
  have r: "rev s = (rev ys @ [c]) @ rev xs" using s(1) by simp
  have t: "takeWhile P (rev s) = takeWhile P (rev ys @ [c])" "takeWhile P (rev ys @ [c]) = takeWhile P (rev ys)"
    unfolding r using s(2) takeWhile_append1[of c "rev ys @ [c]" P "rev xs"]
    by (simp_all add: takeWhile_snoc_stop)
  have l: "length (takeWhile P (rev ys)) \<le> length ys" using length_takeWhile_le[of P "rev ys"] by simp
  show "length (takeWhile P s) + length (takeWhile P (rev s)) < length s"
    using d(1) t l s(1) by simp
  have "rev (dropWhile P (rev (c # ys))) = take (length (c # ys) - length (takeWhile P (rev ys @ [c]))) (c # ys)"
    by (simp only: dropWhile_eq_drop rev_drop rev_rev_ident length_rev rev.simps(2) t) simp
  then show "rev (dropWhile P (rev (dropWhile P s))) =
         take (length s - length (takeWhile P (rev s)) - length (takeWhile P s)) (drop (length (takeWhile P s)) s)"
    using s(1) d t by (simp add: diff_commute)
qed

lemma strip_c_eq: "strip_c s = trimmed s"
proof (cases "\<forall>c \<in> set s. isspace c")
  case True
  then have h: "length (takeWhile isspace s) = length s" and d: "dropWhile isspace s = []"
    by (simp_all add: takeWhile_eq_all_conv[THEN iffD2])
  show ?thesis unfolding strip_c_def trimmed_def Let_def h d by simp
next
  case False
  then have ne: "s \<noteq> []" by auto
  have "length (takeWhile isspace (rev s)) \<le> length s - 1"
    using takeWhile_rev_trim(1)[OF False] by linarith
  then have "length s - 1 - min (length (takeWhile isspace (rev s))) (length s - 1) + 1 =
      length s - length (takeWhile isspace (rev s))"
    using ne takeWhile_rev_trim(1)[OF False] by (simp add: min_absorb1)
  with takeWhile_rev_trim(2)[OF False] ne show ?thesis
    unfolding strip_c_def trimmed_def Let_def by (simp only: if_False)
qed

lemma strip_tail_spec:
  assumes "\<forall>j. t < j \<and> j \<le> k \<longrightarrow> isspace (str ! j)" "\<not> isspace (str ! t)" "t \<le> k" "head \<le> t"
  shows "strip_tail str head k = Some t"
  using assms
proof (induction k)
  case (Suc k)
  show ?case
  proof (cases "t = Suc k")
    case False
    with Suc show ?thesis by simp
  qed (use Suc in simp)
qed simp

lemma strip_tail_none:
  "(\<forall>j \<le> k. isspace (str ! j)) \<Longrightarrow> k < head \<Longrightarrow> strip_tail str head k = None"
  by (induction k) auto

lemma strip_str_eq:
  "strip_str s = (if \<forall>c \<in> set s. isspace c then Inl Undefined else Inr (trimmed s))"
proof (cases "\<forall>c \<in> set s. isspace c")
  case True
  then have h: "length (takeWhile isspace s) = length s" by (simp add: takeWhile_eq_all_conv[THEN iffD2])
  have n: "strip_tail s (length s) (length s - 1) = None" if ne: "s \<noteq> []"
  proof (rule strip_tail_none)
    have "j < length s" if "j \<le> length s - 1" for j using that ne by (cases s) auto
    then show "\<forall>j \<le> length s - 1. isspace (s ! j)" using True by simp
    show "length s - 1 < length s" using ne by simp
  qed
  show ?thesis unfolding strip_str_def h Let_def using True n by auto
next
  case False
  let ?h = "length (takeWhile isspace s)" and ?z = "length (takeWhile isspace (rev s))"
  note T = takeWhile_rev_trim[OF False]
  have ne: "s \<noteq> []" using False by auto
  have "strip_tail s ?h (length s - 1) = Some (length s - 1 - ?z)"
  proof (rule strip_tail_spec)
    have "?z < length (rev s)" using T(1) by simp
    from nth_length_takeWhile[OF this] show "\<not> isspace (s ! (length s - 1 - ?z))"
      using T(1) by (simp add: rev_nth)
    show "\<forall>j. length s - 1 - ?z < j \<and> j \<le> length s - 1 \<longrightarrow> isspace (s ! j)"
    proof (intro allI impI)
      fix j assume j: "length s - 1 - ?z < j \<and> j \<le> length s - 1"
      then have i: "length s - 1 - j < ?z" "j < length s" using ne by auto
      then have "isspace (rev s ! (length s - 1 - j))"
        by (metis nth_mem set_takeWhileD takeWhile_nth)
      then show "isspace (s ! j)" using i(2) by (simp add: rev_nth)
    qed
  qed (use T(1) in auto)
  moreover have "int (length s - 1 - ?z) - int ?h + 1 = int (length s - ?z - ?h)" using T(1) by linarith
  moreover have "substr s (int ?h) (int (length s - ?z - ?h)) = Inr (take (length s - ?z - ?h) (drop ?h s))"
    using T(1) by (intro substr_in_range) auto
  ultimately show ?thesis
    using False ne T(2) by (simp add: strip_str_def trimmed_def Let_def)
qed

section \<open>Padding and case\<close>

definition size_to_pad_str :: "int \<Rightarrow> nat \<Rightarrow> string" where
  "size_to_pad_str n pad = (let d = show_int n in replicate (pad - length d) (CHR ''0'') @ d)"

definition toupper :: "char \<Rightarrow> char" where
  "toupper c = (let n = of_char c :: nat in if 97 \<le> n \<and> n \<le> 122 then char_of (n - 32) else c)"

definition tolower :: "char \<Rightarrow> char" where
  "tolower c = (let n = of_char c :: nat in if 65 \<le> n \<and> n \<le> 90 then char_of (n + 32) else c)"

definition str_to_upper :: "string \<Rightarrow> string" where
  "str_to_upper s = map toupper s"

definition str_to_lower :: "string \<Rightarrow> string" where
  "str_to_lower s = map tolower s"

section \<open>Splitting and merging\<close>

function (sequential) split_string :: "string \<Rightarrow> string \<Rightarrow> string list" where
  "split_string str delim =
     (case index_of (\<lambda>c. c \<in> set delim) str of
        None \<Rightarrow> if length str > 0 then [str] else []
      | Some cut_at \<Rightarrow>
          (if cut_at > 0 then [take cut_at str] else []) @ split_string (drop (cut_at + 1) str) delim)"
  by pat_completeness auto
termination
  by (relation "measure (\<lambda>(s, d). length s)") (auto dest: index_of_SomeD)

declare split_string.simps [simp del]

definition split_string_set :: "string \<Rightarrow> string \<Rightarrow> string set" where
  "split_string_set str delim = set (split_string str delim)"

text \<open>\<open>split_string (char *, ..)\<close>: \<open>l\<close> is the text from the last cut to the position \<open>p\<close>.\<close>

fun split_from :: "char \<Rightarrow> bool \<Rightarrow> string \<Rightarrow> string \<Rightarrow> string list" where
  "split_from dim keep_null l [] = (if length l > 0 \<or> keep_null then [l] else [])"
| "split_from dim keep_null l (c # p) =
     (if c = dim then (if length l + 1 > 1 \<or> keep_null then [l] else []) @ split_from dim keep_null [] p
      else split_from dim keep_null (l @ [c]) p)"

definition split_string_c :: "string \<Rightarrow> char \<Rightarrow> bool \<Rightarrow> string list" where
  "split_string_c str dim keep_null = split_from dim keep_null [] str"

definition merge_string :: "string \<Rightarrow> string list \<Rightarrow> nat \<Rightarrow> string" where
  "merge_string delim source result_len =
     (if source = [] then ''''
      else let n = (if result_len = 0 \<or> result_len > length source then length source else result_len)
           in concat (map (\<lambda>i. if i = 0 then source ! i else delim @ source ! i) [0..<n]))"

lemma merge_string_all: "merge_string delim source 0 = intercalate delim source"
proof -
  have "concat (map (\<lambda>i. if i = 0 then xs ! i else delim @ xs ! i) [0..<length xs]) = intercalate delim xs"
    if "xs \<noteq> []" for xs
    using that
  proof (induction xs rule: rev_nonempty_induct)
    case (snoc x xs)
    let ?F = "\<lambda>xs i. if i = 0 then xs ! i else delim @ xs ! i"
    have m: "map (?F (xs @ [x])) [0..<length xs] = map (?F xs) [0..<length xs]"
      by (rule map_cong) (auto simp: nth_append)
    have "concat (map (?F (xs @ [x])) [0..<length (xs @ [x])]) =
        concat (map (?F (xs @ [x])) [0..<length xs]) @ delim @ x"
      using snoc(1) by (simp add: nth_append)
    moreover have "intercalate delim (xs @ [x]) = intercalate delim xs @ delim @ x"
      using snoc(1) by (induction xs rule: induct_list012) auto
    ultimately show ?case unfolding m snoc(2) by simp
  qed simp
  then show ?thesis by (simp add: merge_string_def)
qed

lemma split_string_piece:
  "set t \<inter> set delim = {} \<Longrightarrow> d \<in> set delim \<Longrightarrow>
   split_string (t @ d # s) delim = (if t = [] then [] else [t]) @ split_string s delim"
proof -
  assume t: "set t \<inter> set delim = {}" "d \<in> set delim"
  then have "index_of (\<lambda>c. c \<in> set delim) (t @ d # s) = Some (length t)"
    by (intro index_of_Some_append) auto
  then show ?thesis by (subst split_string.simps) simp
qed

lemma split_string_last:
  "set t \<inter> set delim = {} \<Longrightarrow> split_string t delim = (if t = [] then [] else [t])"
proof -
  assume "set t \<inter> set delim = {}"
  then have "index_of (\<lambda>c. c \<in> set delim) t = None" by (auto simp: index_of_None)
  then show ?thesis by (subst split_string.simps) simp
qed

lemma split_merge:
  assumes "d \<in> set delim" "\<And>t. t \<in> set ts \<Longrightarrow> t \<noteq> [] \<and> set t \<inter> set delim = {}"
  shows "split_string (merge_string [d] ts 0) delim = ts"
  unfolding merge_string_all using assms(2)
proof (induction ts rule: induct_list012)
  case 1
  show ?case by (simp add: split_string_last)
next
  case (2 x)
  then show ?case by (simp add: split_string_last)
next
  case (3 x y zs)
  then show ?case using assms(1) by (simp add: split_string_piece)
qed

lemma split_string_pieces:
  "t \<in> set (split_string s delim) \<Longrightarrow> t \<noteq> [] \<and> set t \<inter> set delim = {} \<and> length t \<le> length s"
proof (induction s delim rule: split_string.induct)
  case (1 s delim)
  show ?case
  proof (cases "index_of (\<lambda>c. c \<in> set delim) s")
    case None
    then have "split_string s delim = (if length s > 0 then [s] else [])"
      by (subst split_string.simps) simp
    with 1(2) None show ?thesis by (auto simp: index_of_None split: if_splits)
  next
    case (Some k)
    from index_of_SomeD[OF Some]
    have k: "k < length s" "\<forall>j < k. s ! j \<notin> set delim" by auto
    then have "set (take k s) \<inter> set delim = {}" by (auto simp: in_set_conv_nth)
    moreover have "split_string s delim = (if k > 0 then [take k s] else []) @ split_string (drop (k + 1) s) delim"
      using Some by (subst split_string.simps) simp
    ultimately consider "t = take k s" "0 < k" "set t \<inter> set delim = {}" | "t \<in> set (split_string (drop (k + 1) s) delim)"
      using 1(2) k(1) by (auto split: if_splits)
    then show ?thesis using 1(1)[OF Some] k(1) by cases auto
  qed
qed

section \<open>Replacing\<close>

text \<open>\<open>std::string::find\<close> for a substring.\<close>

fun find_sub :: "string \<Rightarrow> string \<Rightarrow> nat option" where
  "find_sub sub [] = (if sub = [] then Some 0 else None)"
| "find_sub sub (c # s) =
     (if take (length sub) (c # s) = sub then Some 0 else map_option Suc (find_sub sub s))"

lemma find_sub_SomeD: "find_sub sub s = Some i \<Longrightarrow> i + length sub \<le> length s \<and> take (length sub) (drop i s) = sub"
proof (induction s arbitrary: i)
  case Nil
  then show ?case by (simp split: if_splits)
next
  case (Cons c s)
  show ?case
  proof (cases "take (length sub) (c # s) = sub")
    case True
    then have "length sub \<le> length (c # s)" by (metis length_take min.cobounded1)
    with True Cons.prems show ?thesis by simp
  next
    case False
    with Cons.prems obtain j where "find_sub sub s = Some j" "i = Suc j" by auto
    with Cons.IH show ?thesis by simp
  qed
qed

lemma find_sub_shrinks: "sub \<noteq> [] \<Longrightarrow> find_sub sub s = Some i \<Longrightarrow> length s - (i + length sub) < length s"
proof -
  assume "sub \<noteq> []" "find_sub sub s = Some i"
  then have "0 < length sub" "i + length sub \<le> length s" using find_sub_SomeD by auto
  then show ?thesis by linarith
qed

lemma find_sub_split: "find_sub sub s = Some i \<Longrightarrow> s = take i s @ sub @ drop (i + length sub) s"
  using find_sub_SomeD[of sub s i] by (metis add.commute append_take_drop_id drop_drop)

lemma find_sub_occurs: "find_sub sub (xs @ sub @ ys) \<noteq> None"
proof (induction xs)
  case Nil
  show ?case
  proof (cases "sub @ ys")
    case (Cons c cs)
    then have "take (length sub) (c # cs) = sub" by (metis append_eq_conv_conj)
    with Cons show ?thesis by simp
  qed simp
qed simp

function replace_from :: "string \<Rightarrow> string \<Rightarrow> string \<Rightarrow> string" where
  "replace_from old new_str s =
     (if old = [] then s
      else case find_sub old s of
             None \<Rightarrow> s
           | Some index \<Rightarrow> take index s @ new_str @ replace_from old new_str (drop (index + length old) s))"
  by pat_completeness auto
termination
  by (relation "measure (\<lambda>(old, _, s). length s)") (auto simp: find_sub_shrinks)

declare replace_from.simps [simp del]

definition replace :: "string \<Rightarrow> string \<Rightarrow> string \<Rightarrow> string" where
  "replace str old new_str =
     (if old = new_str then str
      else if old = [] then str
      else if length old > length str then str
      else replace_from old new_str str)"

lemma find_sub_char: "find_sub [c] s = index_of (\<lambda>x. x = c) s"
  by (induction s) auto

lemma replace_from_absent: "find_sub old s = None \<Longrightarrow> replace_from old new s = s"
  by (subst replace_from.simps) simp

lemma replace_from_piece:
  "c \<notin> set t \<Longrightarrow> replace_from [c] new (t @ c # s) = t @ new @ replace_from [c] new s"
proof -
  assume "c \<notin> set t"
  then have "find_sub [c] (t @ c # s) = Some (length t)"
    unfolding find_sub_char by (intro index_of_Some_append) auto
  then show ?thesis by (subst replace_from.simps) simp
qed

lemma replace_char:
  assumes "\<And>t. t \<in> set ts \<Longrightarrow> c \<notin> set t"
  shows "replace (intercalate [c] ts) [c] new = intercalate new ts"
proof -
  have r: "replace_from [c] new (intercalate [c] ts) = intercalate new ts"
    using assms
  proof (induction ts rule: induct_list012)
    case 1
    show ?case by (simp add: replace_from_absent)
  next
    case (2 x)
    then have "find_sub [c] x = None" by (auto simp: find_sub_char index_of_None)
    then show ?case by (simp add: replace_from_absent)
  next
    case (3 x y zs)
    then show ?case by (simp add: replace_from_piece)
  qed
  have "length (intercalate [c] ts) < 1 \<Longrightarrow> replace_from [c] new (intercalate [c] ts) = intercalate [c] ts"
    by (simp add: replace_from_absent)
  with r show ?thesis by (auto simp: replace_def)
qed

text \<open>\<open>subreplace\<close> starts again from the front of the changed string, so it need not end.\<close>

partial_function (option) subreplace :: "string \<Rightarrow> string \<Rightarrow> string \<Rightarrow> string option" where
  "subreplace dst_str sub_str new_str =
     (case find_sub sub_str dst_str of
        None \<Rightarrow> Some dst_str
      | Some pos \<Rightarrow> subreplace (take pos dst_str @ new_str @ drop (pos + length sub_str) dst_str) sub_str new_str)"

declare subreplace.simps [code]

lemma subreplace_total:
  assumes "length new < length sub"
  shows "\<exists>r. subreplace s sub new = Some r \<and> find_sub sub r = None \<and> length r \<le> length s"
proof (induction "length s" arbitrary: s rule: less_induct)
  case less
  show ?case
  proof (cases "find_sub sub s")
    case None
    then show ?thesis by (subst subreplace.simps) simp
  next
    case (Some i)
    let ?t = "take i s @ new @ drop (i + length sub) s"
    have l: "i + length sub \<le> length s" using find_sub_SomeD[OF Some] by simp
    then have "length ?t = i + length new + (length s - (i + length sub))" by simp
    then have "length ?t < length s" using l assms by linarith
    with less[of ?t] Some show ?thesis by (subst subreplace.simps) (force intro: order_trans)
  qed
qed

lemma subreplace_diverges:
  assumes "find_sub sub s \<noteq> None" "find_sub sub new \<noteq> None"
  shows "subreplace s sub new = None"
proof (rule ccontr)
  obtain a b where ab: "new = a @ sub @ b" using assms(2) find_sub_split by blast
  assume "subreplace s sub new \<noteq> None"
  then obtain r where "subreplace s sub new = Some r" by blast
  moreover have "find_sub sub' s \<noteq> None \<Longrightarrow> sub' = sub \<Longrightarrow> new' = new \<Longrightarrow> False"
    if "subreplace s sub' new' = Some r" for s sub' new' r
    using that
  proof (induction rule: subreplace.raw_induct[rotated, consumes 1])
    case (1 f s sub' new' r)
    then obtain i where i: "find_sub sub s = Some i" by auto
    have "find_sub sub ((take i s @ a) @ sub @ (b @ drop (i + length sub) s)) \<noteq> None"
      by (rule find_sub_occurs)
    with 1 i show ?case by (simp add: ab)
  qed
  ultimately show False using assms(1) by blast
qed

lemma subreplace_remove: "subreplace s [c] [] = Some (filter (\<lambda>x. x \<noteq> c) s)"
proof (induction "length s" arbitrary: s rule: less_induct)
  case less
  show ?case
  proof (cases "find_sub [c] s")
    case None
    then have "filter (\<lambda>x. x \<noteq> c) s = s" by (auto simp: find_sub_char index_of_None filter_id_conv)
    with None show ?thesis by (subst subreplace.simps) simp
  next
    case (Some i)
    let ?t = "take i s @ drop (i + 1) s"
    have s: "s = take i s @ [c] @ drop (i + 1) s" using find_sub_split[OF Some] by simp
    have "length ?t < length s" using arg_cong[OF s, of length] by simp
    from less[OF this] Some have "subreplace s [c] [] = Some (filter (\<lambda>x. x \<noteq> c) ?t)"
      by (subst subreplace.simps) simp
    moreover have "filter (\<lambda>x. x \<noteq> c) ?t = filter (\<lambda>x. x \<noteq> c) s"
      by (subst (3) s) simp
    ultimately show ?thesis by simp
  qed
qed

text \<open>The loop of \<open>replace_win_newlines_to_unix\<close> on the text of a file: every line loses its carriage returns.\<close>

fun omap_list :: "('a \<Rightarrow> 'b option) \<Rightarrow> 'a list \<Rightarrow> 'b list option" where
  "omap_list f [] = Some []"
| "omap_list f (x # xs) =
     (case f x of None \<Rightarrow> None | Some y \<Rightarrow> map_option (Cons y) (omap_list f xs))"

definition unix_text :: "string \<Rightarrow> string option" where
  "unix_text s =
     map_option (\<lambda>ls. concat (map (\<lambda>l. l @ [CHR 0x0A]) ls))
       (omap_list (\<lambda>line. subreplace line [CHR 0x0D] []) (getline_split (CHR 0x0A) s))"

text \<open>\<open>replace_win_newlines_to_unix\<close> on files: \<open>fs\<close> are the files there are, \<open>tmp_dir\<close> is the new directory, or
  \<open>None\<close> if \<open>create_temp_directory\<close> throws, and \<open>may_write\<close> tells the files that can be opened for writing; the directory
  of the target exists. \<open>std::filesystem::copy\<close> throws if the target exists. The result says whether an exception was
  caught and printed.\<close>

type_synonym files = "string \<rightharpoonup> string"

text \<open>\<open>a / b\<close> of \<open>std::filesystem\<close>: an absolute right-hand side replaces the left one.\<close>

definition path_join :: "string \<Rightarrow> string \<Rightarrow> string" where
  "path_join a b =
     (if b \<noteq> [] \<and> hd b = CHR ''/'' then b
      else if a = [] \<or> last a = CHR ''/'' then a @ b
      else a @ ''/'' @ b)"

definition filename :: "string \<Rightarrow> string" where
  "filename p = rev (takeWhile (\<lambda>c. c \<noteq> CHR ''/'') (rev p))"

definition replace_win_newlines_to_unix ::
    "(string \<Rightarrow> bool) \<Rightarrow> string option \<Rightarrow> string \<Rightarrow> string \<Rightarrow> files \<Rightarrow> (bool \<times> files) option" where
  "replace_win_newlines_to_unix may_write tmp_dir file new_file fs =
     (let new_file = (if new_file = [] then file else new_file)
      in case tmp_dir of
           None \<Rightarrow> Some (True, fs)
         | Some dir \<Rightarrow>
             let tmp_file = path_join dir (filename file)
             in case unix_text (case fs file of None \<Rightarrow> [] | Some s \<Rightarrow> if may_write file then s else []) of
                  None \<Rightarrow> None
                | Some s \<Rightarrow>
                    let fs1 = (fs(tmp_file \<mapsto> s))(file := None)
                    in if fs1 new_file \<noteq> None then Some (True, fs1)
                       else Some (False, (fs1(new_file \<mapsto> s))(tmp_file := None)))"

lemma omap_list_total: "(\<And>x. x \<in> set xs \<Longrightarrow> f x = Some (g x)) \<Longrightarrow> omap_list f xs = Some (map g xs)"
  by (induction xs) auto

section \<open>Hexadecimal\<close>

definition hex_digit :: "nat \<Rightarrow> char" where
  "hex_digit d = (if d < 10 then char_of (48 + d) else char_of (87 + d))"

definition bin_to_hex :: "string \<Rightarrow> string" where
  "bin_to_hex s = concat (map (\<lambda>c. let n = of_char c :: nat in [hex_digit (n div 16), hex_digit (n mod 16)]) s)"

definition hex_val :: "char \<Rightarrow> nat option" where
  "hex_val c =
     (let n = of_char c :: nat
      in if 48 \<le> n \<and> n \<le> 57 then Some (n - 48)
         else if 97 \<le> n \<and> n \<le> 102 then Some (n - 87)
         else if 65 \<le> n \<and> n \<le> 70 then Some (n - 55)
         else None)"

text \<open>\<open>strtol (buff, NULL, 16)\<close> on a buffer of two characters (too short for a \<open>0x\<close> prefix).\<close>

fun hex_digits :: "nat \<Rightarrow> string \<Rightarrow> nat" where
  "hex_digits n [] = n"
| "hex_digits n (c # cs) = (case hex_val c of None \<Rightarrow> n | Some d \<Rightarrow> hex_digits (16 * n + d) cs)"

definition strtol16 :: "string \<Rightarrow> int" where
  "strtol16 s =
     (let t = dropWhile isspace s
      in if t \<noteq> [] \<and> hd t = CHR ''-'' then - int (hex_digits 0 (tl t))
         else if t \<noteq> [] \<and> hd t = CHR ''+'' then int (hex_digits 0 (tl t))
         else int (hex_digits 0 t))"

text \<open>The bytes and their number; the null character in \<open>buff [2]\<close> ends a number.\<close>

fun hex_to_bin :: "string \<Rightarrow> string \<times> nat" where
  "hex_to_bin (a # b # s) =
     (let (bs, n) = hex_to_bin s in (char_of (nat (strtol16 [a, b] mod 256)) # bs, n + 1))"
| "hex_to_bin _ = ([], 0)"

lemma hex_digit_code:
  "d < 16 \<Longrightarrow> of_char (hex_digit d) = (if d < 10 then 48 + d else 87 + d)"
  by (simp add: hex_digit_def)

lemma strtol16_digits:
  assumes "h < 16" "l < 16"
  shows "strtol16 [hex_digit h, hex_digit l] = int (16 * h + l)"
proof -
  have v: "hex_val (hex_digit d) = Some d" if "d < 16" for d
    using that by (simp add: hex_val_def hex_digit_code Let_def)
  have sp: "\<not> isspace (hex_digit h)" using assms(1) by (auto simp: isspace_def hex_digit_code)
  have "of_char (hex_digit h) \<noteq> (45::nat)" "of_char (hex_digit h) \<noteq> (43::nat)"
    using assms(1) by (auto simp: hex_digit_code)
  moreover have "of_char (CHR ''-'') = (45::nat)" "of_char (CHR ''+'') = (43::nat)" by simp_all
  ultimately have "hex_digit h \<noteq> CHR ''-''" "hex_digit h \<noteq> CHR ''+''" by metis+
  with sp v assms show ?thesis by (simp add: strtol16_def Let_def)
qed

lemma hex_round_trip: "hex_to_bin (bin_to_hex s) = (s, length s)"
proof (induction s)
  case (Cons c s)
  let ?n = "of_char c :: nat"
  have n: "n div 16 < 16 \<and> n mod 16 < 16 \<and> nat (int n mod 256) = n" if "n < 256" for n :: nat
    using that by auto
  have "?n < 256" by simp
  note n = n[OF this]
  then have "strtol16 [hex_digit (?n div 16), hex_digit (?n mod 16)] = int (16 * (?n div 16) + ?n mod 16)"
    by (intro strtol16_digits) simp_all
  then have "strtol16 [hex_digit (?n div 16), hex_digit (?n mod 16)] = int ?n"
    by (simp only: mult_div_mod_eq)
  moreover have "char_of (nat (int ?n mod 256)) = c"
    by (simp only: n char_of_char)
  moreover have "bin_to_hex (c # s) = hex_digit (?n div 16) # hex_digit (?n mod 16) # bin_to_hex s"
    by (simp only: bin_to_hex_def Let_def list.map concat.simps append.simps)
  ultimately show ?case by (simp only: hex_to_bin.simps Cons Let_def prod.case list.size add_0 One_nat_def)
qed (simp add: bin_to_hex_def)

section \<open>Blank strings and the wire format\<close>

definition is_blank :: "string option \<Rightarrow> bool" where
  "is_blank s = (case s of None \<Rightarrow> True | Some t \<Rightarrow> list_all isspace t)"

definition resp_encode :: "string \<Rightarrow> string" where
  "resp_encode str = CHR ''+'' # str @ [CHR 0x0D, CHR 0x0A]"

text \<open>\<open>reserve (str.size () - 2)\<close> wraps around below two characters and then throws; \<open>append\<close> with a
  position past the end throws.\<close>

definition resp_decode :: "string \<Rightarrow> string res" where
  "resp_decode str =
     (if length str < 2 then Inl Length_error else substr str 1 (int (length str) - 3))"

lemma resp_round_trip: "resp_decode (resp_encode s) = Inr s"
proof -
  have "substr (resp_encode s) (int 1) (int (length s)) = Inr (take (length s) (drop 1 (resp_encode s)))"
    by (rule substr_in_range) (simp_all add: resp_encode_def)
  then show ?thesis by (simp add: resp_decode_def) (simp add: resp_encode_def)
qed

section \<open>Properties\<close>

text \<open>Splitting undoes merging: pieces that are not empty and free of delimiters, joined with any
  one delimiter, are split into the same pieces; and whatever is split, no piece is empty or
  contains a delimiter.\<close>

theorem split_string_merge_string:
  assumes "d \<in> set delim" "\<And>t. t \<in> set ts \<Longrightarrow> t \<noteq> [] \<and> set t \<inter> set delim = {}"
  shows "split_string (merge_string [d] ts 0) delim = ts \<and>
    (\<forall>s t. t \<in> set (split_string s delim) \<longrightarrow> t \<noteq> [] \<and> set t \<inter> set delim = {})"
  using split_merge[OF assms] split_string_pieces by blast

theorem split_string_merge_string_witness:
  "split_string (merge_string '';'' [''ab'', ''c''] 0) '',;'' = [''ab'', ''c'']"
proof -
  have "t \<noteq> [] \<and> set t \<inter> set '',;'' = {}" if "t \<in> set [''ab'', ''c'']" for t
    using that by auto
  moreover have "CHR '';'' \<in> set '',;''" by simp
  ultimately show ?thesis using split_string_merge_string[of "CHR '';''" "'',;''" "[''ab'', ''c'']"] by blast
qed

text \<open>Any bytes survive being written in hexadecimal and read back, with their number; and any text
  survives being framed and unframed by the wire format.\<close>

theorem hex_and_resp_round_trip:
  "hex_to_bin (bin_to_hex s) = (s, length s) \<and> resp_decode (resp_encode s) = Inr s"
  using hex_round_trip resp_round_trip by blast

text \<open>When \<open>subreplace\<close> ends: it ends, with no occurrence left and a text no longer than before, if the
  new text is shorter than the old; it never ends if the old text occurs both in the input and in the
  new text.\<close>

theorem subreplace_ends:
  "(length new_str < length sub_str \<longrightarrow>
     (\<exists>r. subreplace s sub_str new_str = Some r \<and> find_sub sub_str r = None \<and> length r \<le> length s)) \<and>
   (find_sub sub_str s \<noteq> None \<longrightarrow> find_sub sub_str new_str \<noteq> None \<longrightarrow> subreplace s sub_str new_str = None)"
  using subreplace_total subreplace_diverges by blast

theorem subreplace_ends_witness:
  "(\<exists>r. subreplace ''a--b'' ''--'' ''-'' = Some r \<and> find_sub ''--'' r = None \<and> length r \<le> length ''a--b'') \<and>
   subreplace ''ab'' ''b'' ''bb'' = None"
  using subreplace_ends[of "''-''" "''--''" "''a--b''"] subreplace_ends[of "''bb''" "''b''" "''ab''"] by auto

text \<open>The loop ends on every text: each line is written without any of its carriage returns, and ends in a newline.\<close>

definition unix_lines :: "string \<Rightarrow> string" where
  "unix_lines s = concat (map (\<lambda>l. filter (\<lambda>c. c \<noteq> CHR 0x0D) l @ [CHR 0x0A]) (getline_split (CHR 0x0A) s))"

theorem replace_win_newlines_to_unix_lines: "unix_text s = Some (unix_lines s)"
  using omap_list_total[of "getline_split (CHR 0x0A) s" "\<lambda>l. subreplace l [CHR 0x0D] []" "filter (\<lambda>c. c \<noteq> CHR 0x0D)"]
  by (simp add: unix_text_def unix_lines_def subreplace_remove o_def)

lemma unix_lines_Nil [simp]: "unix_lines [] = []"
  by (simp add: unix_lines_def)

text \<open>C31. What the conversion does to the files. In place it rewrites the file, but a file that cannot be opened for writing
  it empties. With another target it removes the source; if the target exists it stays as it was, and the text is left
  in the temporary directory only.\<close>

theorem win_newlines_files:
  assumes "path_join dir (filename file) = tmp" "fs tmp = None" "tmp \<noteq> file" "tmp \<noteq> new" "new \<noteq> []" "new \<noteq> file" "fs file = Some s"
  shows "replace_win_newlines_to_unix w (Some dir) file [] fs = Some (False, fs(file \<mapsto> if w file then unix_lines s else [])) \<and>
    (if fs new = None
     then replace_win_newlines_to_unix w (Some dir) file new fs =
            Some (False, fs(file := None, new \<mapsto> if w file then unix_lines s else []))
     else replace_win_newlines_to_unix w (Some dir) file new fs =
            Some (True, fs(file := None, tmp \<mapsto> if w file then unix_lines s else [])))"
  using assms by (auto simp: replace_win_newlines_to_unix_def replace_win_newlines_to_unix_lines Let_def fun_eq_iff)

theorem win_newlines_files_witness:
  "let fs = [''/d/a'' \<mapsto> [CHR ''x'', CHR 0x0D, CHR 0x0A], ''/d/b'' \<mapsto> ''y'']
   in replace_win_newlines_to_unix (\<lambda>p. True) (Some ''/t'') ''/d/a'' ''/d/b'' fs =
        Some (True, fs(''/d/a'' := None, ''/t/a'' \<mapsto> [CHR ''x'', CHR 0x0A])) \<and>
      replace_win_newlines_to_unix (\<lambda>p. False) (Some ''/t'') ''/d/a'' [] fs = Some (False, fs(''/d/a'' \<mapsto> []))"
proof -
  let ?fs = "[''/d/a'' \<mapsto> [CHR ''x'', CHR 0x0D, CHR 0x0A], ''/d/b'' \<mapsto> ''y'']"
  have p: "path_join ''/t'' (filename ''/d/a'') = ''/t/a''" by (simp add: path_join_def filename_def)
  have u: "unix_lines [CHR ''x'', CHR 0x0D, CHR 0x0A] = [CHR ''x'', CHR 0x0A]"
    by (simp add: unix_lines_def getline_split.simps)
  show ?thesis
    using win_newlines_files[OF p, of ?fs "''/d/b''" "[CHR ''x'', CHR 0x0D, CHR 0x0A]" "\<lambda>p. True"]
      win_newlines_files[OF p, of ?fs "''/d/b''" "[CHR ''x'', CHR 0x0D, CHR 0x0A]" "\<lambda>p. False"]
    by (simp add: u Let_def)
qed

end
