(* ===== verification/Net_IO.thy ===== *)
theory Net_IO
  imports Text_Utils
begin

text \<open>
  Bytes on sockets: \<open>writen\<close> and \<open>readn\<close> (\<open>common/io/io.cpp\<close>), the server's message loop
  (\<open>Server::recv\<close>, \<open>Server::send\<close>) and the client (\<open>client/vulcan_client.cpp\<close>). What the system calls
  return is a list given by the environment; when it runs out the call never returns, and the
  result is \<open>None\<close>. Messages end in a null character.
\<close>

section \<open>System calls\<close>

definition EAGAIN :: int where "EAGAIN = 11"
definition EINTR :: int where "EINTR = 4"

text \<open>\<open>write\<close> takes some bytes or fails.\<close>

datatype write_ret = Wrote nat | Write_err int

text \<open>The bytes that arrive, in the pieces they arrive in, the end of the stream, or a failure.\<close>

datatype read_ret = Arrived string | Peer_shutdown | Read_err int

datatype read_len = Got string | Nothing | Failed int

text \<open>\<open>read (fd, buf, n)\<close>: at most \<open>n\<close> bytes of the first piece; with no room it returns zero.\<close>

fun sys_read :: "nat \<Rightarrow> read_ret list \<Rightarrow> (read_len \<times> read_ret list) option" where
  "sys_read n [] = (if n = 0 then Some (Nothing, []) else None)"
| "sys_read n (Arrived s # rs) =
     (if n = 0 then Some (Nothing, Arrived s # rs)
      else if length s \<le> n then Some (if s = [] then Nothing else Got s, rs)
      else Some (Got (take n s), Arrived (drop n s) # rs))"
| "sys_read n (Peer_shutdown # rs) = Some (Nothing, Peer_shutdown # rs)"
| "sys_read n (Read_err e # rs) = Some (if n = 0 then Nothing else Failed e, rs)"

section \<open>\<open>writen\<close> and \<open>readn\<close>\<close>

text \<open>The bytes written, the return value, and what is left of the environment's answers.\<close>

fun writen :: "string \<Rightarrow> write_ret list \<Rightarrow> (string \<times> int \<times> write_ret list) option" where
  "writen [] rs = Some ([], 0, rs)"
| "writen buf [] = None"
| "writen buf (Wrote k # rs) =
     map_option (\<lambda>(out, r, rs'). (take k buf @ out, r, rs')) (writen (drop k buf) rs)"
| "writen buf (Write_err e # rs) =
     (if e \<noteq> EAGAIN \<and> e \<noteq> EINTR then Some ([], e, rs) else writen buf rs)"

text \<open>The weight of pending input: what a step of reading makes smaller.\<close>

fun piece_weight :: "read_ret \<Rightarrow> nat" where
  "piece_weight (Arrived s) = length s + 1"
| "piece_weight _ = 1"

definition weight :: "read_ret list \<Rightarrow> nat" where
  "weight rs = sum_list (map piece_weight rs)"

lemma sys_read_weight:
  "sys_read n rs = Some (Got s, rs') \<Longrightarrow> weight rs' < weight rs \<and> s \<noteq> [] \<and> length s \<le> n"
  "sys_read n rs = Some (Failed e, rs') \<Longrightarrow> weight rs' < weight rs"
  by (induction n rs rule: sys_read.induct) (auto simp: weight_def split: if_splits)

function readn :: "nat \<Rightarrow> read_ret list \<Rightarrow> (string \<times> int \<times> read_ret list) option" where
  "readn len rs =
     (if len = 0 then Some ([], 0, rs)
      else case sys_read len rs of
             None \<Rightarrow> None
           | Some (Got s, rs') \<Rightarrow>
               map_option (\<lambda>(t, r, rs''). (s @ t, r, rs'')) (readn (len - length s) rs')
           | Some (Nothing, rs') \<Rightarrow> Some ([], -1, rs')
           | Some (Failed e, rs') \<Rightarrow>
               (if e \<noteq> EAGAIN \<and> e \<noteq> EINTR then Some ([], e, rs') else readn len rs'))"
  by pat_completeness auto
termination
  by (relation "measure (\<lambda>(_, rs). weight rs)") (auto dest: sys_read_weight)

declare readn.simps [simp del]

section \<open>The server's message loop\<close>

text \<open>\<open>sizeof (client->buf)\<close>.\<close>

definition SOCKET_BUFFER_SIZE :: nat where
  "SOCKET_BUFFER_SIZE = 1048576"

datatype recv_outcome =
    Too_long
  | Peer_closed
  | Read_failed int
  | Request string nat

text \<open>
  The loop: \<open>buf\<close> is the text read so far. It ends with the last \<open>read_len\<close>, the buffer and
  \<open>data_len\<close>.
\<close>

function recv_loop :: "nat \<Rightarrow> string \<Rightarrow> read_ret list \<Rightarrow> (read_len \<times> string \<times> nat \<times> read_ret list) option" where
  "recv_loop buf_size buf rs =
     (case sys_read (buf_size - length buf) rs of
        None \<Rightarrow> None
      | Some (Failed e, rs') \<Rightarrow>
          (if e = EAGAIN then recv_loop buf_size buf rs' else Some (Failed e, buf, length buf, rs'))
      | Some (Nothing, rs') \<Rightarrow> Some (Nothing, buf, length buf, rs')
      | Some (Got s, rs') \<Rightarrow>
          (if length s + length buf > buf_size then Some (Got s, buf @ s, length buf + length s, rs')
           else case index_of (\<lambda>c. c = CHR 0x00) s of
                  Some i \<Rightarrow> Some (Got s, buf @ s, length buf + i + 1, rs')
                | None \<Rightarrow> recv_loop buf_size (buf @ s) rs'))"
  by pat_completeness auto
termination
  by (relation "measure (\<lambda>(_, _, rs). weight rs)") (auto dest: sys_read_weight)

declare recv_loop.simps [simp del]

text \<open>The request is the C string in the buffer; every other outcome closes the connection.\<close>

definition recv :: "nat \<Rightarrow> read_ret list \<Rightarrow> (recv_outcome \<times> read_ret list) option" where
  "recv buf_size rs =
     (case recv_loop buf_size [] rs of
        None \<Rightarrow> None
      | Some (read_len, buf, data_len, rs') \<Rightarrow>
          Some (if data_len > buf_size then Too_long
                else case read_len of
                       Nothing \<Rightarrow> Peer_closed
                     | Failed e \<Rightarrow> Read_failed e
                     | Got _ \<Rightarrow> Request (takeWhile (\<lambda>c. c \<noteq> CHR 0x00) buf) data_len, rs'))"

text \<open>\<open>Server::send\<close>: bytes written, whether the connection was closed, the return value.\<close>

definition send :: "string option \<Rightarrow> write_ret list \<Rightarrow> (string \<times> bool \<times> int \<times> write_ret list) option" where
  "send buf rs =
     (case buf of
        None \<Rightarrow> Some ([], False, 0, rs)
      | Some b \<Rightarrow>
          if b = [] then Some ([], False, 0, rs)
          else map_option (\<lambda>(out, ret, rs'). if ret < 0 then (out, True, -1, rs') else (out, False, 0, rs'))
                 (writen b rs))"

text \<open>\<open>SessionStage::callback_event\<close>: the buffers passed to \<open>send\<close> for a response.\<close>

definition reply_buffers :: "string \<Rightarrow> string list" where
  "reply_buffers resp =
     (let response = (if resp = [] then ''No data'' @ [CHR 0x0A, CHR 0x00] else resp)
      in if last response \<noteq> CHR 0x00 then [response, [CHR 0x00]] else [response])"

section \<open>The client\<close>

definition MAX_MEM_BUFFER_SIZE :: nat where
  "MAX_MEM_BUFFER_SIZE = 8192"

text \<open>\<open>fgets\<close>: up to \<open>n - 1\<close> characters, the newline included; \<open>None\<close> at the end of the input.\<close>

definition fgets :: "nat \<Rightarrow> string \<Rightarrow> (string \<times> string) option" where
  "fgets n s =
     (if s = [] then None
      else let l = length (takeWhile (\<lambda>c. c \<noteq> CHR 0x0A) s); k = min (n - 1) (l + 1)
           in Some (take k s, drop k s))"

definition is_exit_command :: "string \<Rightarrow> bool" where
  "is_exit_command cmd \<longleftrightarrow>
     map tolower (take 4 cmd) = ''exit'' \<or> map tolower (take 3 cmd) = ''bye'' \<or>
     map tolower (take 2 cmd) = [CHR 0x5C, CHR ''q'']"

text \<open>\<open>recv_and_print_msg\<close>: what is printed and the return value.\<close>

function print_msg :: "nat \<Rightarrow> read_ret list \<Rightarrow> (string \<times> int \<times> read_ret list) option" where
  "print_msg buf_size rs =
     (case sys_read buf_size rs of
        None \<Rightarrow> None
      | Some (Failed e, rs') \<Rightarrow> Some ([CHR 0x0A], -1, rs')
      | Some (Nothing, rs') \<Rightarrow> Some ([CHR 0x0A], 0, rs')
      | Some (Got s, rs') \<Rightarrow>
          (if CHR 0x00 \<in> set s
           then Some (takeWhile (\<lambda>c. c \<noteq> CHR 0x00) s @ [CHR 0x0A], 0, rs')
           else map_option (\<lambda>(t, r, rs''). (s @ t, r, rs'')) (print_msg buf_size rs')))"
  by pat_completeness auto
termination
  by (relation "measure (\<lambda>(_, rs). weight rs)") (auto dest: sys_read_weight)

declare print_msg.simps [simp del]

datatype client_end = Client_done | Client_exit int

text \<open>\<open>run\<close>: the commands sent, the text printed (without the prompts), and how it ended.\<close>

lemma fgets_shorter: "fgets (Suc (Suc n)) s = Some (l, s') \<Longrightarrow> length s' < length s"
  by (auto simp: fgets_def Let_def split: if_splits)

function run :: "string \<Rightarrow> write_ret list \<Rightarrow> read_ret list \<Rightarrow> (string list \<times> string \<times> client_end) option" where
  "run stdin ws rs =
     (case fgets MAX_MEM_BUFFER_SIZE stdin of
        None \<Rightarrow> Some ([], [], Client_done)
      | Some (line, stdin') \<Rightarrow>
          let cmd = takeWhile (\<lambda>c. c \<noteq> CHR 0x00) line
          in if is_exit_command cmd then Some ([], [], Client_done)
             else if is_blank (Some cmd) then run stdin' ws rs
             else case writen (cmd @ [CHR 0x00]) ws of
                    None \<Rightarrow> None
                  | Some (out, r, ws') \<Rightarrow>
                      if r \<noteq> 0 then Some ([out], [], Client_exit 1)
                      else case print_msg MAX_MEM_BUFFER_SIZE rs of
                             None \<Rightarrow> None
                           | Some (t, ret, rs') \<Rightarrow>
                               if ret < 0 then Some ([out], t, Client_done)
                               else if ret = 1 then Some ([out], t @ ''Connection has been closed'' @ [CHR 0x0A], Client_done)
                               else map_option (\<lambda>(outs, u, e). (out # outs, t @ u, e)) (run stdin' ws' rs'))"
  by pat_completeness auto
termination
  by (relation "measure (\<lambda>(s, _, _). length s)") (auto simp: MAX_MEM_BUFFER_SIZE_def fgets_def Let_def split: if_splits)

declare run.simps [simp del]

section \<open>Lemmas\<close>

lemma writen_prefix:
  "writen buf rs = Some (out, r, rs') \<Longrightarrow> Write_err 0 \<notin> set rs \<Longrightarrow>
   (r = 0 \<longrightarrow> out = buf) \<and> (\<exists>t. buf = out @ t) \<and> r \<noteq> EAGAIN \<and> r \<noteq> EINTR \<and> (r \<noteq> 0 \<longrightarrow> Write_err r \<in> set rs)"
proof (induction buf rs arbitrary: out r rs' rule: writen.induct)
  case (3 c cs k rs)
  then obtain out' where o: "writen (drop k (c # cs)) rs = Some (out', r, rs')" "out = take k (c # cs) @ out'"
    by auto
  have nz: "Write_err 0 \<notin> set rs" using "3.prems"(2) by simp
  note IH = "3.IH"[OF o(1) nz]
  then obtain t where t: "drop k (c # cs) = out' @ t" by blast
  have "c # cs = out @ t" using o(2) t append_take_drop_id[of k "c # cs"] by simp
  moreover have "r = 0 \<Longrightarrow> out = c # cs" using IH o(2) append_take_drop_id[of k "c # cs"] by simp
  ultimately show ?case using IH by auto
next
  case (4 c cs e rs)
  show ?case
  proof (cases "e \<noteq> EAGAIN \<and> e \<noteq> EINTR")
    case True
    with 4(2) have "out = []" "r = e" by simp_all
    with True 4(3) show ?thesis by auto
  next
    case False
    with 4(2) have "writen (c # cs) rs = Some (out, r, rs')" by auto
    with 4(1)[OF False] 4(3) show ?thesis by auto
  qed
qed (simp_all add: EAGAIN_def EINTR_def)

text \<open>One turn of the loop.\<close>

lemma recv_steps:
  "sys_read (n - length buf) rs = None \<Longrightarrow> recv_loop n buf rs = None"
  "sys_read (n - length buf) rs = Some (Nothing, rs') \<Longrightarrow> recv_loop n buf rs = Some (Nothing, buf, length buf, rs')"
  "sys_read (n - length buf) rs = Some (Failed e, rs') \<Longrightarrow>
     recv_loop n buf rs = (if e = EAGAIN then recv_loop n buf rs' else Some (Failed e, buf, length buf, rs'))"
  "sys_read (n - length buf) rs = Some (Got s, rs') \<Longrightarrow> \<not> n < length s + length buf \<Longrightarrow>
     recv_loop n buf rs = (case index_of (\<lambda>c. c = CHR 0x00) s of
       Some i \<Rightarrow> Some (Got s, buf @ s, length buf + i + 1, rs') | None \<Rightarrow> recv_loop n (buf @ s) rs')"
  by (subst recv_loop.simps, simp)+

lemma first_null:
  assumes "index_of (\<lambda>c. c = CHR 0x00) s = Some i" "CHR 0x00 \<notin> set buf"
  shows "\<exists>m. buf @ s = m @ CHR 0x00 # drop (Suc i) s \<and> CHR 0x00 \<notin> set m \<and> length m = length buf + i"
proof (intro exI conjI)
  note I = index_of_SomeD[OF assms(1)]
  show "buf @ s = (buf @ take i s) @ CHR 0x00 # drop (Suc i) s" using I by (metis append_assoc id_take_nth_drop)
  show "CHR 0x00 \<notin> set (buf @ take i s)" using assms(2) I by (auto simp: in_set_conv_nth)
  show "length (buf @ take i s) = length buf + i" using I by simp
qed

lemma recv_loop_data:
  assumes "recv_loop n buf rs = Some (rl, buf', len, rs')" "length buf \<le> n" "CHR 0x00 \<notin> set buf"
  shows "len \<le> n \<and> len \<le> length buf' \<and> (\<forall>s. rl = Got s \<longrightarrow> (\<exists>m t. buf' = m @ CHR 0x00 # t \<and> CHR 0x00 \<notin> set m \<and> len = length m + 1))"
  using assms
proof (induction n buf rs rule: recv_loop.induct)
  case (1 n buf rs)
  obtain l rs1 where sys: "sys_read (n - length buf) rs = Some (l, rs1)"
    using 1(3) recv_steps(1) by (cases "sys_read (n - length buf) rs") auto
  show ?case
  proof (cases l)
    case Nothing
    then show ?thesis using recv_steps(2) sys 1(3-) by fastforce
  next
    case (Failed e)
    note st = recv_steps(3)[OF sys[unfolded Failed]]
    show ?thesis
    proof (cases "e = EAGAIN")
      case True
      then show ?thesis using 1(2)[OF sys refl Failed True] 1(3-) st by simp
    next
      case False
      then show ?thesis using 1(3-) st by auto
    qed
  next
    case (Got s)
    have "length s \<le> n - length buf" using sys_read_weight(1)[of "n - length buf" rs s rs1] sys Got by simp
    then have fits: "\<not> n < length s + length buf" using 1(4) by linarith
    note st = recv_steps(4)[OF sys[unfolded Got] fits]
    show ?thesis
    proof (cases "index_of (\<lambda>c. c = CHR 0x00) s")
      case None
      moreover have "CHR 0x00 \<notin> set (buf @ s)" using 1(5) None by (auto simp: index_of_None)
      ultimately show ?thesis using 1(1)[OF sys refl Got fits None] 1(3) st fits by simp
    next
      case (Some i)
      then have r: "buf' = buf @ s" "len = length buf + i + 1" using 1(3) st by simp_all
      obtain m where m: "buf' = m @ CHR 0x00 # drop (Suc i) s" "CHR 0x00 \<notin> set m" "len = length m + 1"
        using first_null[OF Some 1(5)] r by auto
      have "len \<le> n \<and> len \<le> length buf'" using index_of_SomeD[OF Some] r fits by simp
      then show ?thesis using m by blast
    qed
  qed
qed

section \<open>Input that arrives in pieces\<close>

text \<open>Non-empty pieces, with the calls that find nothing yet between them.\<close>

fun arriving :: "read_ret \<Rightarrow> bool" where
  "arriving (Arrived s) = (s \<noteq> [])"
| "arriving Peer_shutdown = False"
| "arriving (Read_err e) = (e = EAGAIN)"

fun piece :: "read_ret \<Rightarrow> string" where
  "piece (Arrived s) = s"
| "piece _ = []"

definition data :: "read_ret list \<Rightarrow> string" where
  "data rs = concat (map piece rs)"

lemma sys_read_arriving:
  assumes "list_all arriving rs" "0 < n"
  shows "(rs = [] \<and> sys_read n rs = None) \<or>
     (\<exists>s rs'. sys_read n rs = Some (Got s, rs') \<and> s \<noteq> [] \<and> length s \<le> n \<and> data rs = s @ data rs' \<and> list_all arriving rs') \<or>
     (\<exists>rs'. sys_read n rs = Some (Failed EAGAIN, rs') \<and> data rs = data rs' \<and> list_all arriving rs')"
  using assms by (cases "(n, rs)" rule: sys_read.cases) (auto simp: data_def)

lemma split_at_null:
  assumes "buf @ s @ d = m @ CHR 0x00 # t" "CHR 0x00 \<notin> set buf" "CHR 0x00 \<notin> set m"
  shows "(\<exists>i. index_of (\<lambda>c. c = CHR 0x00) s = Some i \<and> buf @ take i s = m) \<or>
         (index_of (\<lambda>c. c = CHR 0x00) s = None \<and> length buf + length s \<le> length m)"
proof (cases "index_of (\<lambda>c. c = CHR 0x00) s")
  case None
  then have no: "CHR 0x00 \<notin> set (buf @ s)" using assms(2) by (auto simp: index_of_None)
  have "length (buf @ s) \<le> length m"
  proof (rule ccontr)
    assume "\<not> ?thesis"
    then have l: "length m < length (buf @ s)" by simp
    have "((buf @ s) @ d) ! length m = CHR 0x00" using assms(1) by simp
    then have "(buf @ s) ! length m = CHR 0x00" using l by (metis nth_append)
    with l no show False by (metis nth_mem)
  qed
  with None show ?thesis by simp
next
  case (Some i)
  note I = index_of_SomeD[OF Some]
  have "takeWhile (\<lambda>c. c \<noteq> CHR 0x00) (buf @ s @ d) = m"
    using assms(1,3) by (auto simp: takeWhile_append takeWhile_eq_all_conv)
  moreover have s: "s = take i s @ CHR 0x00 # drop (Suc i) s" using I by (metis id_take_nth_drop)
  have "CHR 0x00 \<notin> set (buf @ take i s)" using assms(2) I by (auto simp: in_set_conv_nth)
  then have "takeWhile (\<lambda>c. c \<noteq> CHR 0x00) ((buf @ take i s) @ CHR 0x00 # drop (Suc i) s @ d) = buf @ take i s"
    by (auto simp: takeWhile_append takeWhile_eq_all_conv)
  moreover have "buf @ s @ d = (buf @ take i s) @ CHR 0x00 # drop (Suc i) s @ d"
    by (subst s) simp
  ultimately show ?thesis using Some by simp
qed

lemma recv_loop_message:
  assumes "list_all arriving rs" "buf @ data rs = m @ CHR 0x00 # t" "CHR 0x00 \<notin> set buf" "CHR 0x00 \<notin> set m"
    "length m < n"
  shows "\<exists>s buf' rs'. recv_loop n buf rs = Some (Got s, m @ CHR 0x00 # buf', length m + 1, rs')"
  using assms
proof (induction n buf rs rule: recv_loop.induct)
  case (1 n buf rs)
  have lb: "length buf \<le> length m"
    using split_at_null[of buf "[]" "data rs" m t] 1(4-6) by simp
  then have pos: "0 < n - length buf" using 1(7) by linarith
  have ne: "rs \<noteq> []"
  proof
    assume "rs = []"
    with 1(4) have "CHR 0x00 \<in> set buf" by (simp add: data_def)
    with 1(5) show False by simp
  qed
  from sys_read_arriving[OF 1(3) pos] ne
  consider s rs' where "sys_read (n - length buf) rs = Some (Got s, rs')" "s \<noteq> []" "length s \<le> n - length buf"
      "data rs = s @ data rs'" "list_all arriving rs'"
    | rs' where "sys_read (n - length buf) rs = Some (Failed EAGAIN, rs')" "data rs = data rs'" "list_all arriving rs'"
    by blast
  then show ?case
  proof cases
    case g: 1
    have fits: "\<not> length s + length buf > n" using g(3) pos by linarith
    have eq: "buf @ s @ data rs' = m @ CHR 0x00 # t" using 1(4) g(4) by simp
    from split_at_null[OF eq 1(5,6)] show ?thesis
    proof
      assume "\<exists>i. index_of (\<lambda>c. c = CHR 0x00) s = Some i \<and> buf @ take i s = m"
      then obtain i where i: "index_of (\<lambda>c. c = CHR 0x00) s = Some i" "buf @ take i s = m" by blast
      obtain m' where m': "buf @ s = m' @ CHR 0x00 # drop (Suc i) s" "CHR 0x00 \<notin> set m'" "length m' = length buf + i"
        using first_null[OF i(1) 1(5)] by blast
      have "length m = length buf + i" using i(2) index_of_SomeD[OF i(1)] by auto
      then have "m' = m" using m'(1,3) i(2) index_of_SomeD[OF i(1)] by (metis append_eq_append_conv append_take_drop_id append_assoc)
      then show ?thesis using recv_steps(4)[OF g(1) fits] i(1) m'(1,3) by auto
    next
      assume n: "index_of (\<lambda>c. c = CHR 0x00) s = None \<and> length buf + length s \<le> length m"
      then have no: "CHR 0x00 \<notin> set (buf @ s)" using 1(5) by (auto simp: index_of_None)
      have "recv_loop n buf rs = recv_loop n (buf @ s) rs'"
        using recv_steps(4)[OF g(1) fits] n by simp
      moreover have "\<exists>s' buf' rs''. recv_loop n (buf @ s) rs' = Some (Got s', m @ CHR 0x00 # buf', length m + 1, rs'')"
        by (rule 1(1)[OF g(1) refl refl fits conjunct1[OF n] g(5) _ no 1(6,7)]) (simp add: eq)
      ultimately show ?thesis by simp
    qed
  next
    case f: 2
    have "recv_loop n buf rs = recv_loop n buf rs'" using recv_steps(3)[OF f(1)] by simp
    moreover have "\<exists>s buf' rs''. recv_loop n buf rs' = Some (Got s, m @ CHR 0x00 # buf', length m + 1, rs'')"
      using 1(4) f(2) by (intro 1(2)[OF f(1) refl refl refl f(3) _ 1(5-7)]) simp
    ultimately show ?thesis by simp
  qed
qed

lemma recv_message:
  assumes "list_all arriving rs" "data rs = m @ CHR 0x00 # t" "CHR 0x00 \<notin> set m" "length m < n"
  shows "\<exists>rs'. recv n rs = Some (Request m (length m + 1), rs')"
proof -
  obtain s buf' rs' where "recv_loop n [] rs = Some (Got s, m @ CHR 0x00 # buf', length m + 1, rs')"
    using recv_loop_message[OF assms(1), of "[]" m t n] assms(2-) by auto
  moreover have "takeWhile (\<lambda>c. c \<noteq> CHR 0x00) (m @ CHR 0x00 # buf') = m"
    using assms(3) by (auto simp: takeWhile_append takeWhile_eq_all_conv)
  ultimately show ?thesis using assms(4) by (simp add: recv_def)
qed

lemma recv_loop_overlong:
  assumes "list_all arriving rs" "CHR 0x00 \<notin> set (take n (buf @ data rs))" "n \<le> length (buf @ data rs)"
    "length buf \<le> n"
  shows "\<exists>buf' rs'. recv_loop n buf rs = Some (Nothing, buf', n, rs')"
  using assms
proof (induction n buf rs rule: recv_loop.induct)
  case (1 n buf rs)
  show ?case
  proof (cases "length buf = n")
    case True
    then have "\<exists>rs'. sys_read (n - length buf) rs = Some (Nothing, rs')"
      by (cases "(0::nat, rs)" rule: sys_read.cases) auto
    with True show ?thesis using recv_steps(2) by blast
  next
    case False
    with 1(6) have pos: "0 < n - length buf" by simp
    have ne: "rs \<noteq> []" using 1(5) False 1(6) by (auto simp: data_def)
    from sys_read_arriving[OF 1(3) pos] ne
    consider s rs' where "sys_read (n - length buf) rs = Some (Got s, rs')" "s \<noteq> []" "length s \<le> n - length buf"
        "data rs = s @ data rs'" "list_all arriving rs'"
      | rs' where "sys_read (n - length buf) rs = Some (Failed EAGAIN, rs')" "data rs = data rs'" "list_all arriving rs'"
      by blast
    then show ?thesis
    proof cases
      case g: 1
      have fits: "\<not> length s + length buf > n" using g(3) pos by linarith
      have "set s \<subseteq> set (take n (buf @ data rs))" using g(4) fits 1(6) by auto
      then have nn: "index_of (\<lambda>c. c = CHR 0x00) s = None" using 1(4) by (auto simp: index_of_None)
      have "recv_loop n buf rs = recv_loop n (buf @ s) rs'"
        using recv_steps(4)[OF g(1) fits] nn by simp
      moreover have "\<exists>buf' rs''. recv_loop n (buf @ s) rs' = Some (Nothing, buf', n, rs'')"
        using 1(4,5) g(4) fits by (intro 1(1)[OF g(1) refl refl fits nn g(5)]) simp_all
      ultimately show ?thesis by simp
    next
      case f: 2
      have "recv_loop n buf rs = recv_loop n buf rs'" using recv_steps(3)[OF f(1)] by simp
      moreover have "\<exists>buf' rs''. recv_loop n buf rs' = Some (Nothing, buf', n, rs'')"
        using 1(4-6) f(2) by (intro 1(2)[OF f(1) refl refl refl f(3)]) simp_all
      ultimately show ?thesis by simp
    qed
  qed
qed

lemma print_msg_message:
  assumes "list_all arriving rs" "\<forall>e. Read_err e \<notin> set rs" "data rs = m @ CHR 0x00 # t" "CHR 0x00 \<notin> set m" "0 < n"
  shows "\<exists>rs'. print_msg n rs = Some (m @ [CHR 0x0A], 0, rs')"
  using assms
proof (induction n rs arbitrary: m rule: print_msg.induct)
  case (1 n rs)
  have ne: "rs \<noteq> []" using 1(4) by (auto simp: data_def)
  have nf: "sys_read n rs \<noteq> Some (Failed EAGAIN, rs')" for rs'
    using 1(3,6) by (cases "(n, rs)" rule: sys_read.cases) auto
  from sys_read_arriving[OF 1(2,6)] ne nf obtain s rs' where s: "sys_read n rs = Some (Got s, rs')"
      "data rs = s @ data rs'" "list_all arriving rs'" by blast
  have errs: "\<forall>e. Read_err e \<notin> set rs'"
    using s(1) 1(3) by (cases "(n, rs)" rule: sys_read.cases) (auto split: if_splits)
  have eq: "[] @ s @ data rs' = m @ CHR 0x00 # t" using 1(4) s(2) by simp
  have e: "CHR 0x00 \<notin> set []" by simp
  from split_at_null[OF eq e 1(5)] show ?case
  proof (elim disjE)
    assume "\<exists>i. index_of (\<lambda>c. c = CHR 0x00) s = Some i \<and> [] @ take i s = m"
    then obtain i where i: "index_of (\<lambda>c. c = CHR 0x00) s = Some i" "take i s = m" by auto
    note I = index_of_SomeD[OF i(1)]
    have sm: "s = m @ CHR 0x00 # drop (Suc i) s" using I i(2) by (metis id_take_nth_drop)
    then have z: "CHR 0x00 \<in> set s" by (metis in_set_conv_decomp)
    have "takeWhile (\<lambda>c. c \<noteq> CHR 0x00) s = m"
      by (subst sm) (use 1(5) in \<open>auto simp: takeWhile_append takeWhile_eq_all_conv\<close>)
    with z s(1) show ?thesis by (subst print_msg.simps) simp
  next
    assume a: "index_of (\<lambda>c. c = CHR 0x00) s = None \<and> length [] + length s \<le> length m"
    then have z: "CHR 0x00 \<notin> set s" by (auto simp: index_of_None)
    from eq a obtain m' where m': "m = s @ m'" "data rs' = m' @ CHR 0x00 # t"
      by (auto simp: append_eq_append_conv2)
    have "\<exists>rs''. print_msg n rs' = Some (m' @ [CHR 0x0A], 0, rs'')"
      using 1(5) m' by (intro 1(1)[OF s(1) refl refl z s(3) errs m'(2) _ 1(6)]) auto
    with s(1) z m' show ?thesis by (subst print_msg.simps) auto
  qed
qed

lemma takeWhile_null: "CHR 0x00 \<notin> set u \<Longrightarrow> takeWhile (\<lambda>c. c \<noteq> CHR 0x00) (u @ CHR 0x00 # t) = u"
  by (induction u) auto

section \<open>What the pair promises\<close>

fun accepted :: "write_ret \<Rightarrow> nat" where
  "accepted (Wrote k) = k"
| "accepted (Write_err _) = 0"

definition transient :: "write_ret \<Rightarrow> bool" where
  "transient r \<longleftrightarrow> (\<forall>e. r = Write_err e \<longrightarrow> e = EAGAIN \<or> e = EINTR)"

lemma writen_all:
  assumes "list_all transient rs" "length buf \<le> sum_list (map accepted rs)"
  shows "\<exists>rs'. writen buf rs = Some (buf, 0, rs')"
  using assms
proof (induction buf rs rule: writen.induct)
  case (3 c cs k rs)
  have "length (drop k (c # cs)) \<le> sum_list (map accepted rs)" using "3.prems"(2) by simp
  then obtain rs' where "writen (drop k (c # cs)) rs = Some (drop k (c # cs), 0, rs')"
    using "3.IH" "3.prems"(1) by auto
  then show ?case by simp
next
  case (4 c cs e rs)
  then have e: "\<not> (e \<noteq> EAGAIN \<and> e \<noteq> EINTR)" by (auto simp: transient_def)
  from "4.IH"[OF e] "4.prems" e show ?case by auto
qed simp_all

lemma readn_data:
  assumes "list_all arriving rs" "data rs = s @ t"
  shows "\<exists>rs'. readn (length s) rs = Some (s, 0, rs') \<and> list_all arriving rs' \<and> data rs' = t"
  using assms
proof (induction "weight rs" arbitrary: rs s rule: less_induct)
  case less
  show ?case
  proof (cases "s = []")
    case True
    with less.prems show ?thesis by (subst readn.simps) auto
  next
    case False
    then have pos: "0 < length s" by simp
    have ne: "rs \<noteq> []" using less.prems(2) False by (auto simp: data_def)
    from sys_read_arriving[OF less.prems(1) pos] ne
    consider u rs' where "sys_read (length s) rs = Some (Got u, rs')" "length u \<le> length s"
        "data rs = u @ data rs'" "list_all arriving rs'"
      | rs' where "sys_read (length s) rs = Some (Failed EAGAIN, rs')" "data rs = data rs'" "list_all arriving rs'"
      by blast
    then show ?thesis
    proof cases
      case g: 1
      from less.prems(2) g(2,3) obtain s' where s': "s = u @ s'" "data rs' = s' @ t"
        by (auto simp: append_eq_append_conv2)
      have "weight rs' < weight rs" using sys_read_weight(1)[OF g(1)] by simp
      from less.hyps[OF this g(4) s'(2)] obtain rs'' where
        "readn (length s') rs' = Some (s', 0, rs'')" "list_all arriving rs''" "data rs'' = t" by blast
      then show ?thesis using g(1) s' False by (subst readn.simps) auto
    next
      case f: 2
      have "weight rs' < weight rs" using sys_read_weight(2)[OF f(1)] .
      moreover have "data rs' = s @ t" using f(2) less.prems(2) by simp
      ultimately obtain rs'' where
        "readn (length s) rs' = Some (s, 0, rs'')" "list_all arriving rs''" "data rs'' = t"
        using less.hyps f(3) by blast
      then show ?thesis using f(1) False by (subst readn.simps) auto
    qed
  qed
qed

lemma send_outcome:
  assumes "send (Some b) rs = Some (out, closed, r, rs')" "\<forall>e. Write_err e \<in> set rs \<longrightarrow> 0 < e"
  shows "\<not> closed \<and> r = 0 \<and> (\<exists>t. b = out @ t)"
proof (cases "b = []")
  case True
  with assms(1) show ?thesis by (auto simp: send_def)
next
  case False
  with assms(1) obtain ret where w: "writen b rs = Some (out, ret, rs')" "closed = (ret < 0)" "r = (if ret < 0 then -1 else 0)"
    by (auto simp: send_def split: if_splits)
  have "Write_err 0 \<notin> set rs" using assms(2) by auto
  from writen_prefix[OF w(1) this] have p: "\<exists>t. b = out @ t" "ret \<noteq> 0 \<longrightarrow> Write_err ret \<in> set rs" by blast+
  then have "\<not> ret < 0" using assms(2) by (metis less_asym order.irrefl)
  with w p show ?thesis by simp
qed

lemma reply_buffers_concat:
  assumes "CHR 0x00 \<notin> set resp"
  shows "concat (reply_buffers resp) = (if resp = [] then ''No data'' @ [CHR 0x0A] else resp) @ [CHR 0x00]"
proof (cases "resp = []")
  case False
  then have "last resp \<noteq> CHR 0x00" using assms last_in_set by metis
  with False show ?thesis by (simp add: reply_buffers_def)
qed (simp add: reply_buffers_def)

section \<open>Properties\<close>

text \<open>What \<open>writen\<close> sends, \<open>readn\<close> receives: if the kernel takes the whole buffer, in pieces
  of any size and with any number of \<open>EAGAIN\<close> and \<open>EINTR\<close> between them, and the same bytes arrive
  at the other end, in pieces of any other sizes, followed by anything, then \<open>readn\<close> of that length
  returns exactly the buffer with result zero, and leaves exactly what follows.\<close>

theorem writen_readn_round_trip:
  assumes "list_all transient ws" "length buf \<le> sum_list (map accepted ws)"
    and "\<And>out r ws'. writen buf ws = Some (out, r, ws') \<Longrightarrow> data rs = out @ t" "list_all arriving rs"
  shows "(\<exists>ws'. writen buf ws = Some (buf, 0, ws')) \<and>
    (\<exists>rs'. readn (length buf) rs = Some (buf, 0, rs') \<and> data rs' = t)"
proof -
  obtain ws' where w: "writen buf ws = Some (buf, 0, ws')" using writen_all[OF assms(1,2)] by blast
  with readn_data[OF assms(4) assms(3)[OF w]] show ?thesis by blast
qed

theorem writen_readn_round_trip_witness:
  "(\<exists>ws'. writen ''abcde'' [Wrote 2, Write_err EAGAIN, Wrote 0, Wrote 3] = Some (''abcde'', 0, ws')) \<and>
   (\<exists>rs'. readn (length ''abcde'') [Arrived ''a'', Read_err EAGAIN, Arrived ''bcdef''] = Some (''abcde'', 0, rs') \<and>
          data rs' = ''f'')"
  by (rule writen_readn_round_trip) (auto simp: transient_def data_def EAGAIN_def EINTR_def)

text \<open>Framing of requests: however the bytes of a request shorter than the buffer arrive, in
  pieces and with \<open>EAGAIN\<close> between them, \<open>Server::recv\<close> reports exactly the text before the first
  null character, and the length with it.\<close>

theorem recv_reads_one_request:
  assumes "list_all arriving rs" "data rs = m @ CHR 0x00 # t" "CHR 0x00 \<notin> set m" "length m < SOCKET_BUFFER_SIZE"
  shows "\<exists>rs'. recv SOCKET_BUFFER_SIZE rs = Some (Request m (length m + 1), rs')"
  by (rule recv_message[OF assms])

theorem recv_reads_one_request_witness:
  "\<exists>rs'. recv SOCKET_BUFFER_SIZE [Arrived ''sel'', Read_err EAGAIN, Arrived (''ect'' @ [CHR 0x00, CHR ''x''])] =
     Some (Request ''select'' (length ''select'' + 1), rs')"
proof (rule recv_reads_one_request[where t = "''x''"])
  show "length ''select'' < SOCKET_BUFFER_SIZE" by (simp add: SOCKET_BUFFER_SIZE_def)
qed (simp_all add: data_def EAGAIN_def)

text \<open>C36. The bounds of \<open>Server::recv\<close>: whatever arrives, the length counted never exceeds the
  buffer (so the branch for requests that are too long is never taken), a reported request is the text
  before the null character and fits with it; and a buffer that fills up without a null character is
  taken for the end of the connection.\<close>

theorem recv_bounds:
  assumes "recv n rs = Some (res, rs')"
  shows "res \<noteq> Too_long \<and>
    (\<forall>m len. res = Request m len \<longrightarrow> CHR 0x00 \<notin> set m \<and> len = length m + 1 \<and> len \<le> n) \<and>
    (list_all arriving rs \<longrightarrow> n \<le> length (data rs) \<longrightarrow> CHR 0x00 \<notin> set (take n (data rs)) \<longrightarrow> res = Peer_closed)"
proof -
  obtain rl buf len rs1 where l: "recv_loop n [] rs = Some (rl, buf, len, rs1)"
    using assms by (auto simp: recv_def split: option.splits)
  have D: "len \<le> n \<and> len \<le> length buf \<and> (\<forall>s. rl = Got s \<longrightarrow>
      (\<exists>m t. buf = m @ CHR 0x00 # t \<and> CHR 0x00 \<notin> set m \<and> len = length m + 1))"
    by (rule recv_loop_data[OF l]) simp_all
  then have le: "len \<le> n" by blast
  have res: "res = (case rl of Nothing \<Rightarrow> Peer_closed | Failed e \<Rightarrow> Read_failed e
      | Got _ \<Rightarrow> Request (takeWhile (\<lambda>c. c \<noteq> CHR 0x00) buf) len)"
    using assms l le by (simp add: recv_def)
  have "res \<noteq> Too_long" using res by (cases rl) simp_all
  moreover have "CHR 0x00 \<notin> set m \<and> k = length m + 1 \<and> k \<le> n" if r: "res = Request m k" for m k
  proof -
    from r res obtain s where s: "rl = Got s" and m: "m = takeWhile (\<lambda>c. c \<noteq> CHR 0x00) buf" and k: "k = len"
      by (cases rl) simp_all
    from D[THEN conjunct2, THEN conjunct2, rule_format, OF s] obtain u t
      where u: "buf = u @ CHR 0x00 # t" "CHR 0x00 \<notin> set u" "len = length u + 1" by (elim exE conjE)
    have "m = u" using m takeWhile_null[OF u(2)] u(1) by simp
    show ?thesis unfolding k \<open>m = u\<close> using u(2,3) le by blast
  qed
  moreover have "res = Peer_closed"
    if a: "list_all arriving rs" "n \<le> length (data rs)" "CHR 0x00 \<notin> set (take n (data rs))"
  proof -
    obtain buf' rs2 where "recv_loop n [] rs = Some (Nothing, buf', n, rs2)"
      using recv_loop_overlong[OF a(1), of n "[]"] a(2,3) by auto
    with l res show ?thesis by simp
  qed
  ultimately show ?thesis by blast
qed

theorem recv_bounds_witness:
  "\<exists>rs'. recv 4 [Arrived ''abcdef''] = Some (Peer_closed, rs')"
proof -
  have r: "\<exists>res rs'. recv 4 [Arrived ''abcdef''] = Some (res, rs')"
    by (simp add: recv_def recv_loop.simps)
  then obtain res rs' where r: "recv 4 [Arrived ''abcdef''] = Some (res, rs')" by blast
  have "res = Peer_closed" using recv_bounds[OF r] by (simp add: data_def)
  with r show ?thesis by blast
qed

text \<open>\<open>Server::send\<close> does not notice a failed write: \<open>writen\<close> returns the (positive) error
  number and \<open>send\<close> tests for a negative one, so that it always returns zero and never closes the
  connection, whatever prefix of the buffer was sent.\<close>

theorem send_ignores_errors:
  assumes "send (Some b) rs = Some (out, closed, r, rs')" "\<forall>e. Write_err e \<in> set rs \<longrightarrow> 0 < e"
  shows "\<not> closed \<and> r = 0 \<and> (\<exists>t. b = out @ t)"
  by (rule send_outcome[OF assms])

theorem send_ignores_errors_witness:
  "send (Some ''answer'') [Wrote 2, Write_err 32] = Some (''an'', False, 0, []) \<and>
   \<not> False \<and> (0::int) = 0 \<and> (\<exists>t. ''answer'' = ''an'' @ t)"
proof -
  have s: "send (Some ''answer'') [Wrote 2, Write_err 32] = Some (''an'', False, 0, [])"
    by (simp add: send_def EAGAIN_def EINTR_def)
  from s send_ignores_errors[OF s] show ?thesis by simp
qed

text \<open>C22. One exchange, end to end: the bytes the client writes for a command, cut up by the
  network in any way, are received by the server as that command, and the buffers the server then
  sends for a response (the response itself, or the text for an empty one, with a null character)
  are printed by the client as exactly that text and a newline, with result zero.\<close>

theorem client_server_exchange:
  assumes "CHR 0x00 \<notin> set cmd" "length cmd < SOCKET_BUFFER_SIZE"
    and "list_all transient ws" "length (cmd @ [CHR 0x00]) \<le> sum_list (map accepted ws)"
    and "writen (cmd @ [CHR 0x00]) ws = Some (sent, r, ws')"
    and "list_all arriving rs" "data rs = sent"
    and "CHR 0x00 \<notin> set resp" "0 < n"
    and "list_all arriving qs" "\<forall>e. Read_err e \<notin> set qs" "data qs = concat (reply_buffers resp)"
  shows "r = 0 \<and> (\<exists>rs'. recv SOCKET_BUFFER_SIZE rs = Some (Request cmd (length cmd + 1), rs')) \<and>
    (\<exists>qs'. print_msg n qs = Some ((if resp = [] then ''No data'' @ [CHR 0x0A] else resp) @ [CHR 0x0A], 0, qs'))"
proof -
  from writen_all[OF assms(3,4)] assms(5) have w: "r = 0" "sent = cmd @ [CHR 0x00]" by auto
  have "\<exists>rs'. recv SOCKET_BUFFER_SIZE rs = Some (Request cmd (length cmd + 1), rs')"
    by (rule recv_message[OF assms(6) _ assms(1,2)]) (simp add: assms(7) w)
  moreover define body where "body = (if resp = [] then ''No data'' @ [CHR 0x0A] else resp)"
  have "\<exists>qs'. print_msg n qs = Some (body @ [CHR 0x0A], 0, qs')"
    by (rule print_msg_message[OF assms(10,11) _ _ assms(9), where t = "[]"])
      (use assms(8,12) in \<open>auto simp: reply_buffers_concat body_def\<close>)
  ultimately show ?thesis using w(1) by (simp add: body_def)
qed

theorem client_server_exchange_witness:
  "(0::int) = 0 \<and>
   (\<exists>rs'. recv SOCKET_BUFFER_SIZE [Arrived ''ls'', Arrived [CHR 0x00]] = Some (Request ''ls'' (length ''ls'' + 1), rs')) \<and>
   (\<exists>qs'. print_msg 2 [Arrived ''a b'', Arrived [CHR 0x00]] =
      Some ((if ''a b'' = [] then ''No data'' @ [CHR 0x0A] else ''a b'') @ [CHR 0x0A], 0, qs'))"
  by (rule client_server_exchange[where ws = "[Wrote 1, Wrote 2]" and ws' = "[]" and sent = "''ls'' @ [CHR 0x00]"])
    (simp_all add: SOCKET_BUFFER_SIZE_def transient_def data_def reply_buffers_def)

end
