(* ===== verification/Seda_Event.thy ===== *)
theory Seda_Event
  imports Prelude
begin

text \<open>
  Stage events (\<open>backend/seda/stage_event.cpp\<close>), their stack of completion callbacks
  (\<open>callback.cpp\<close>), and the shared, reference-counted time limits (\<open>timeout_info.cpp\<close>). What an
  operation does next with an event, which in the source is a virtual call or \<open>delete this\<close>, is a
  value of type \<open>next\<close>. Stages are named.
\<close>

section \<open>Events and callbacks\<close>

datatype HistType = HANDLE_EV | CALLBACK_EV | TIMEOUT_EV

text \<open>The rest of the stack, \<open>next_cb_\<close>, is the tail of the list a callback stands in.\<close>

record callback =
  target_stage :: string
  context_arg :: "nat option"
  ev_hist_flag :: bool

record stage_event =
  comp_cb :: "callback list"
  user_data :: "nat option"
  cb_flag :: bool
  history :: "(string \<times> HistType) list option"
  stage_hops :: nat
  tm_info :: "nat option"

definition new_event :: stage_event where
  "new_event = \<lparr>comp_cb = [], user_data = None, cb_flag = False, history = None, stage_hops = 0, tm_info = None\<rparr>"

definition new_callback :: "bool \<Rightarrow> string \<Rightarrow> nat option \<Rightarrow> callback" where
  "new_callback event_history_flag trgt ctx =
     \<lparr>target_stage = trgt, context_arg = ctx, ev_hist_flag = event_history_flag\<rparr>"

datatype next_step =
    Deleted
  | Add_event string stage_event
  | Callback_event string stage_event "nat option"
  | Timeout_event string stage_event "nat option"
  | Handle_event string stage_event

definition push_callback :: "callback \<Rightarrow> stage_event \<Rightarrow> stage_event" where
  "push_callback cb ev = ev\<lparr>comp_cb := cb # comp_cb ev\<rparr>"

definition set_user_data :: "nat option \<Rightarrow> stage_event \<Rightarrow> stage_event" where
  "set_user_data u ev = ev\<lparr>user_data := u\<rparr>"

definition get_user_data :: "stage_event \<Rightarrow> nat option" where
  "get_user_data ev = user_data ev"

text \<open>\<open>stage_hops_\<close> is a \<open>uint32_t\<close>.\<close>

definition save_stage :: "nat \<Rightarrow> string \<Rightarrow> HistType \<Rightarrow> stage_event \<Rightarrow> stage_event res" where
  "save_stage max_event_hops stg type ev =
     (let h = (case history ev of None \<Rightarrow> [] | Some h \<Rightarrow> h); n = (stage_hops ev + 1) mod 4294967296
      in if n \<le> max_event_hops then Inr (ev\<lparr>history := Some (h @ [(stg, type)]), stage_hops := n\<rparr>)
         else Inl Assert_failed)"

definition event_done :: "nat \<Rightarrow> callback \<Rightarrow> stage_event \<Rightarrow> next_step res" where
  "event_done hops cb ev =
     rbind (if ev_hist_flag cb then save_stage hops (target_stage cb) CALLBACK_EV ev else Inr ev)
       (\<lambda>ev'. Inr (Callback_event (target_stage cb) ev' (context_arg cb)))"

definition event_timeout :: "nat \<Rightarrow> callback \<Rightarrow> stage_event \<Rightarrow> next_step res" where
  "event_timeout hops cb ev =
     rbind (if ev_hist_flag cb then save_stage hops (target_stage cb) TIMEOUT_EV ev else Inr ev)
       (\<lambda>ev'. Inr (Timeout_event (target_stage cb) ev' (context_arg cb)))"

definition event_reschedule :: "callback \<Rightarrow> stage_event \<Rightarrow> next_step" where
  "event_reschedule cb ev = Add_event (target_stage cb) ev"

definition done_event :: "stage_event \<Rightarrow> next_step" where
  "done_event ev =
     (case comp_cb ev of
        [] \<Rightarrow> Deleted
      | cb # _ \<Rightarrow> event_reschedule cb (ev\<lparr>cb_flag := True\<rparr>))"

definition done_immediate :: "nat \<Rightarrow> stage_event \<Rightarrow> next_step res" where
  "done_immediate hops ev =
     (case comp_cb ev of
        [] \<Rightarrow> Inr Deleted
      | cb # cbs \<Rightarrow> event_done hops cb (ev\<lparr>cb_flag := False, comp_cb := cbs\<rparr>))"

definition done_timeout :: "nat \<Rightarrow> stage_event \<Rightarrow> next_step res" where
  "done_timeout hops ev =
     (case comp_cb ev of
        [] \<Rightarrow> Inr Deleted
      | cb # cbs \<Rightarrow> event_timeout hops cb (ev\<lparr>cb_flag := False, comp_cb := cbs\<rparr>))"

text \<open>\<open>Threadpool::run_thread\<close>: what a thread does with an event it has taken from a stage, built
  without stage-level time limits.\<close>

definition run_event :: "nat \<Rightarrow> bool \<Rightarrow> string \<Rightarrow> stage_event \<Rightarrow> next_step res" where
  "run_event hops eventhist run_stage ev =
     (if cb_flag ev then done_immediate hops ev
      else rbind (if eventhist then save_stage hops run_stage HANDLE_EV ev else Inr ev)
             (\<lambda>ev'. Inr (Handle_event run_stage ev')))"

text \<open>\<open>Stage::timeout_event\<close>: the default passes the event to \<open>callback_event\<close>.\<close>

definition timeout_event :: "string \<Rightarrow> stage_event \<Rightarrow> nat option \<Rightarrow> next_step" where
  "timeout_event stg ev ctx = Callback_event stg ev ctx"

section \<open>Time limits\<close>

record timeout_info =
  deadline :: int
  is_timed_out :: bool
  ref_cnt :: int

record timeouts =
  live :: "nat \<rightharpoonup> timeout_info"
  fresh :: nat

definition new_timeout :: "int \<Rightarrow> timeouts \<Rightarrow> nat \<times> timeouts" where
  "new_timeout d h =
     (fresh h, h\<lparr>live := (live h)(fresh h \<mapsto> \<lparr>deadline = d, is_timed_out = False, ref_cnt = 0\<rparr>),
                 fresh := fresh h + 1\<rparr>)"

definition attach :: "nat \<Rightarrow> timeouts \<Rightarrow> timeouts res" where
  "attach i h =
     (case live h i of
        None \<Rightarrow> Inl Undefined
      | Some t \<Rightarrow> Inr (h\<lparr>live := (live h)(i \<mapsto> t\<lparr>ref_cnt := ref_cnt t + 1\<rparr>)\<rparr>))"

definition detach :: "nat \<Rightarrow> timeouts \<Rightarrow> timeouts res" where
  "detach i h =
     (case live h i of
        None \<Rightarrow> Inl Undefined
      | Some t \<Rightarrow>
          Inr (if ref_cnt t - 1 = 0 then h\<lparr>live := (live h)(i := None)\<rparr>
               else h\<lparr>live := (live h)(i \<mapsto> t\<lparr>ref_cnt := ref_cnt t - 1\<rparr>)\<rparr>))"

definition info_timed_out :: "int \<Rightarrow> nat \<Rightarrow> timeouts \<Rightarrow> (bool \<times> timeouts) res" where
  "info_timed_out now i h =
     (case live h i of
        None \<Rightarrow> Inl Undefined
      | Some t \<Rightarrow>
          if is_timed_out t then Inr (True, h)
          else let r = (now \<ge> deadline t)
               in Inr (r, h\<lparr>live := (live h)(i \<mapsto> t\<lparr>is_timed_out := r\<rparr>)\<rparr>))"

definition set_timeout_ptr :: "nat option \<Rightarrow> stage_event \<Rightarrow> timeouts \<Rightarrow> (stage_event \<times> timeouts) res" where
  "set_timeout_ptr tmi ev h =
     rbind (case tm_info ev of None \<Rightarrow> Inr h | Some i \<Rightarrow> detach i h) (\<lambda>h1.
     rbind (case tmi of None \<Rightarrow> Inr h1 | Some j \<Rightarrow> attach j h1) (\<lambda>h2.
     Inr (ev\<lparr>tm_info := tmi\<rparr>, h2)))"

definition set_timeout_deadline :: "int \<Rightarrow> stage_event \<Rightarrow> timeouts \<Rightarrow> (stage_event \<times> timeouts) res" where
  "set_timeout_deadline d ev h = (let (i, h') = new_timeout d h in set_timeout_ptr (Some i) ev h')"

definition set_timeout_from :: "stage_event \<Rightarrow> stage_event \<Rightarrow> timeouts \<Rightarrow> (stage_event \<times> timeouts) res" where
  "set_timeout_from other ev h = set_timeout_ptr (tm_info other) ev h"

definition has_timed_out :: "int \<Rightarrow> stage_event \<Rightarrow> timeouts \<Rightarrow> (bool \<times> timeouts) res" where
  "has_timed_out now ev h =
     (case tm_info ev of None \<Rightarrow> Inr (False, h) | Some i \<Rightarrow> info_timed_out now i h)"

definition delete_event :: "stage_event \<Rightarrow> timeouts \<Rightarrow> timeouts res" where
  "delete_event ev h = (case tm_info ev of None \<Rightarrow> Inr h | Some i \<Rightarrow> detach i h)"

section \<open>Callbacks run in the reverse order of their registration\<close>

lemma save_stage_cb: "save_stage m stg ty ev = Inr ev' \<Longrightarrow> comp_cb ev' = comp_cb ev"
  by (auto simp: save_stage_def Let_def split: if_splits)

lemma callback_pops:
  "done_event ev = Add_event stg ev1 \<Longrightarrow> run_event hops eh stg ev1 = Inr (Callback_event s ev2 ctx) \<Longrightarrow>
   length (comp_cb ev2) < length (comp_cb ev)"
  by (auto simp: done_event_def event_reschedule_def run_event_def done_immediate_def event_done_def
      rbind_eq_Inr dest: save_stage_cb split: list.splits if_splits)

text \<open>An event that every stage hands on with \<open>done\<close>: it is queued at the target of its top callback,
  a thread takes it and runs the callback, and so on until it is deleted. The result lists the
  callbacks that ran.\<close>

function unwind :: "nat \<Rightarrow> bool \<Rightarrow> stage_event \<Rightarrow> (string \<times> nat option) list res" where
  "unwind hops eventhist ev =
     (case done_event ev of
        Add_event stg ev1 \<Rightarrow>
          (case run_event hops eventhist stg ev1 of
             Inl e \<Rightarrow> Inl e
           | Inr (Callback_event s ev2 ctx) \<Rightarrow>
               rbind (unwind hops eventhist ev2) (\<lambda>cs. Inr ((s, ctx) # cs))
           | Inr _ \<Rightarrow> Inl Undefined)
      | _ \<Rightarrow> Inr [])"
  by pat_completeness auto
termination
  by (relation "measure (\<lambda>(_, _, ev). length (comp_cb ev))") (auto dest: callback_pops)

declare unwind.simps [simp del]

lemma unwind_plain:
  assumes "list_all (\<lambda>cb. \<not> ev_hist_flag cb) (comp_cb ev)"
  shows "unwind hops eh ev = Inr (map (\<lambda>cb. (target_stage cb, context_arg cb)) (comp_cb ev))"
  using assms
proof (induction "comp_cb ev" arbitrary: ev)
  case Nil
  then have "comp_cb ev = []" by simp
  then show ?case by (subst unwind.simps) (simp add: done_event_def)
next
  case (Cons cb cbs)
  let ?ev = "ev\<lparr>cb_flag := False, comp_cb := cbs\<rparr>"
  have c: "comp_cb ev = cb # cbs" using Cons(2) by simp
  then have "unwind hops eh ?ev = Inr (map (\<lambda>cb. (target_stage cb, context_arg cb)) cbs)"
    using Cons(1)[of ?ev] Cons(3) by simp
  then show ?case using c Cons(3)
    by (subst unwind.simps)
       (simp add: done_event_def event_reschedule_def run_event_def done_immediate_def event_done_def)
qed

section \<open>Reference counts\<close>

definition users :: "stage_event list \<Rightarrow> nat \<Rightarrow> int" where
  "users evs i = int (length (filter (\<lambda>ev. tm_info ev = Some i) evs))"

text \<open>Every time limit that is alive is referred to by as many events as it counts, and no event
  refers to one that is not alive; those in \<open>X\<close> may not be referred to yet.\<close>

definition counts_but :: "nat set \<Rightarrow> stage_event list \<Rightarrow> timeouts \<Rightarrow> bool" where
  "counts_but X evs h \<longleftrightarrow>
     (\<forall>i. (case live h i of
            None \<Rightarrow> users evs i = 0
          | Some t \<Rightarrow> ref_cnt t = users evs i \<and> (i \<in> X \<or> 0 < users evs i))) \<and>
     (\<forall>i \<ge> fresh h. live h i = None)"

definition counts_ok :: "stage_event list \<Rightarrow> timeouts \<Rightarrow> bool" where
  "counts_ok evs h \<longleftrightarrow> counts_but {} evs h"

lemma users_update:
  "k < length evs \<Longrightarrow>
   users (evs[k := ev]) i =
     users evs i - (if tm_info (evs ! k) = Some i then 1 else 0) + (if tm_info ev = Some i then 1 else 0)"
proof -
  assume k: "k < length evs"
  have split: "evs = take k evs @ evs ! k # drop (Suc k) evs" using k by (rule id_take_nth_drop)
  have upd: "evs[k := ev] = take k evs @ ev # drop (Suc k) evs" using k by (rule upd_conv_take_nth_drop)
  have "users evs i = users (take k evs) i + (if tm_info (evs ! k) = Some i then 1 else 0) + users (drop (Suc k) evs) i"
    by (subst split) (simp add: users_def)
  moreover have "users (evs[k := ev]) i =
      users (take k evs) i + (if tm_info ev = Some i then 1 else 0) + users (drop (Suc k) evs) i"
    unfolding upd by (simp add: users_def)
  ultimately show ?thesis by simp
qed

lemma users_pos: "k < length evs \<Longrightarrow> tm_info (evs ! k) = Some i \<Longrightarrow> 0 < users evs i"
  by (auto simp: users_def filter_empty_conv intro!: bexI[of _ "evs ! k"])

lemma users_nonneg: "0 \<le> users evs i"
  by (simp add: users_def)

lemma counts_at:
  "counts_but X evs h \<Longrightarrow>
   (case live h i of None \<Rightarrow> users evs i = 0 | Some t \<Rightarrow> ref_cnt t = users evs i \<and> (i \<in> X \<or> 0 < users evs i))"
  by (simp add: counts_but_def)

lemma counts_live:
  assumes "counts_but X evs h" "k < length evs" "tm_info (evs ! k) = Some i"
  shows "\<exists>t. live h i = Some t \<and> ref_cnt t = users evs i \<and> 0 < users evs i"
  using counts_at[OF assms(1), of i] users_pos[OF assms(2,3)] by (auto split: option.splits)

lemma detach_counts:
  assumes c: "counts_but X evs h" and k: "k < length evs" "tm_info (evs ! k) = Some i" "i \<notin> X"
    and ev: "tm_info ev = None"
  shows "\<exists>h1. detach i h = Inr h1 \<and> counts_but X (evs[k := ev]) h1 \<and> fresh h1 = fresh h \<and>
    (\<forall>j. j \<noteq> i \<longrightarrow> live h1 j = live h j) \<and> (live h1 i = None \<longleftrightarrow> users evs i = 1)"
proof -
  obtain t where t: "live h i = Some t" "ref_cnt t = users evs i" "0 < users evs i"
    using counts_live[OF c k(1,2)] by blast
  define h1 where "h1 = (if ref_cnt t - 1 = 0 then h\<lparr>live := (live h)(i := None)\<rparr>
      else h\<lparr>live := (live h)(i \<mapsto> t\<lparr>ref_cnt := ref_cnt t - 1\<rparr>)\<rparr>)"
  have u: "users (evs[k := ev]) j = users evs j - (if j = i then 1 else 0)" for j
    using k ev by (auto simp: users_update)
  have l: "live h1 j = (if j = i then (if users evs i = 1 then None else Some (t\<lparr>ref_cnt := users evs i - 1\<rparr>)) else live h j)" for j
    using t by (auto simp: h1_def)
  have "case live h1 j of None \<Rightarrow> users (evs[k := ev]) j = 0
      | Some t \<Rightarrow> ref_cnt t = users (evs[k := ev]) j \<and> (j \<in> X \<or> 0 < users (evs[k := ev]) j)" for j
    using counts_at[OF c, of j] t(3) by (auto simp: l u split: option.splits)
  moreover have "fresh h1 = fresh h" by (simp add: h1_def)
  moreover have "\<forall>j \<ge> fresh h. live h1 j = None" using c t(1) by (auto simp: counts_but_def l)
  ultimately have "counts_but X (evs[k := ev]) h1" by (simp add: counts_but_def)
  moreover have "detach i h = Inr h1" using t(1) by (simp add: detach_def h1_def)
  ultimately show ?thesis using l \<open>fresh h1 = fresh h\<close> by auto
qed

lemma attach_counts:
  assumes c: "counts_but X evs h" and k: "k < length evs" "tm_info (evs ! k) = None"
    and l: "live h i \<noteq> None" and ev: "tm_info ev = Some i"
  obtains h1 where "attach i h = Inr h1" "counts_but (X - {i}) (evs[k := ev]) h1"
proof -
  obtain t where t: "live h i = Some t" "ref_cnt t = users evs i"
    using l counts_at[OF c, of i] by (auto split: option.splits)
  define h1 where "h1 = h\<lparr>live := (live h)(i \<mapsto> t\<lparr>ref_cnt := ref_cnt t + 1\<rparr>)\<rparr>"
  have u: "users (evs[k := ev]) j = users evs j + (if j = i then 1 else 0)" for j
    using k ev by (auto simp: users_update)
  have "case live h1 j of None \<Rightarrow> users (evs[k := ev]) j = 0
      | Some t \<Rightarrow> ref_cnt t = users (evs[k := ev]) j \<and> (j \<in> X - {i} \<or> 0 < users (evs[k := ev]) j)" for j
    using counts_at[OF c, of j] t(2) users_nonneg[of evs i] by (auto simp: h1_def u split: option.splits)
  moreover have "\<forall>j \<ge> fresh h1. live h1 j = None" using c t(1) by (auto simp: counts_but_def h1_def)
  ultimately have "counts_but (X - {i}) (evs[k := ev]) h1" by (simp add: counts_but_def)
  moreover have "attach i h = Inr h1" using t(1) by (simp add: attach_def h1_def)
  ultimately show ?thesis using that by blast
qed

lemma counts_same_info:
  "k < length evs \<Longrightarrow> tm_info ev = tm_info (evs ! k) \<Longrightarrow> counts_but X (evs[k := ev]) h = counts_but X evs h"
  by (simp add: counts_but_def users_update cong: option.case_cong)

text \<open>The pointer assignment, when what is attached survives the release of the old pointer.\<close>

lemma set_timeout_ptr_counts:
  assumes c: "counts_but X evs h" and k: "k < length evs" and old: "\<And>i. tm_info (evs ! k) = Some i \<Longrightarrow> i \<notin> X"
    and tmi: "\<And>j. tmi = Some j \<Longrightarrow> live h j \<noteq> None" "X \<subseteq> set_option tmi"
    and alone: "tmi = tm_info (evs ! k) \<Longrightarrow> \<forall>j. tmi = Some j \<longrightarrow> users evs j \<noteq> 1"
  obtains h' where "set_timeout_ptr tmi (evs ! k) h = Inr ((evs ! k)\<lparr>tm_info := tmi\<rparr>, h')"
    "counts_ok (evs[k := (evs ! k)\<lparr>tm_info := tmi\<rparr>]) h'"
proof -
  let ?f = "(evs ! k)\<lparr>tm_info := None\<rparr>" and ?e = "(evs ! k)\<lparr>tm_info := tmi\<rparr>"
  obtain h1 where h1: "(case tm_info (evs ! k) of None \<Rightarrow> Inr h | Some i \<Rightarrow> detach i h) = Inr h1"
      "counts_but X (evs[k := ?f]) h1" "\<And>j. tmi = Some j \<Longrightarrow> live h1 j \<noteq> None"
  proof (cases "tm_info (evs ! k)")
    case None
    have "counts_but X (evs[k := ?f]) h" using c None counts_same_info[OF k, of ?f] by simp
    with None tmi(1) that[of h] show ?thesis by auto
  next
    case (Some i)
    have e0: "tm_info ?f = None" by simp
    obtain h1 where h1: "detach i h = Inr h1" "counts_but X (evs[k := ?f]) h1"
        "\<forall>j. j \<noteq> i \<longrightarrow> live h1 j = live h j" "live h1 i = None \<longleftrightarrow> users evs i = 1"
      using detach_counts[OF c k Some old[OF Some], of ?f] by auto
    have "live h1 j \<noteq> None" if "tmi = Some j" for j
      using that tmi(1)[OF that] alone Some h1(3,4) by (cases "j = i") auto
    then show ?thesis using Some h1(1,2) that[of h1] by auto
  qed
  show ?thesis
  proof (cases tmi)
    case None
    with tmi(2) h1(1,2) show ?thesis by (intro that[of h1]) (simp_all add: set_timeout_ptr_def counts_ok_def)
  next
    case (Some j)
    have "k < length (evs[k := ?f])" "tm_info (evs[k := ?f] ! k) = None" using k by simp_all
    moreover have "tm_info ?e = Some j" using Some by simp
    ultimately obtain h2 where h2: "attach j h1 = Inr h2" "counts_but (X - {j}) (evs[k := ?f, k := ?e]) h2"
      using attach_counts[OF h1(2) _ _ h1(3)[OF Some]] by blast
    have "X - {j} = {}" using tmi(2) Some by auto
    with h2 h1(1) Some show ?thesis by (intro that[of h2]) (simp_all add: set_timeout_ptr_def counts_ok_def)
  qed
qed

section \<open>Properties\<close>

text \<open>Completion callbacks are a stack: an event that every stage passes on is queued at the target of
  each of its callbacks in turn, the last one pushed first, each callback runs exactly once with its
  own context, and then the event is deleted (with the event history off, as it is by default).\<close>

theorem callbacks_run_in_reverse:
  "unwind hops eventhist (fold push_callback (map (\<lambda>(s, c). new_callback False s c) cs) new_event) = Inr (rev cs)"
proof -
  have cb: "comp_cb (fold push_callback cbs ev) = rev cbs @ comp_cb ev" for cbs ev
    by (induction cbs arbitrary: ev) (simp_all add: push_callback_def)
  let ?cbs = "map (\<lambda>(s, c). new_callback False s c) cs"
  have c: "comp_cb (fold push_callback ?cbs new_event) = rev ?cbs" by (simp add: cb new_event_def)
  have "list_all (\<lambda>cb. \<not> ev_hist_flag cb) (rev ?cbs)"
    by (auto simp: list_all_iff new_callback_def)
  with c unwind_plain[of "fold push_callback ?cbs new_event" hops eventhist] show ?thesis
    by (simp add: rev_map o_def new_callback_def split_def)
qed

lemma new_timeout_counts:
  assumes cb: "counts_but {} evs h"
  shows "counts_but {fresh h} evs (snd (new_timeout d h))"
  unfolding counts_but_def
proof (intro conjI allI)
  have gone: "live h i = None" if "i \<ge> fresh h" for i using cb that by (simp add: counts_but_def)
  show "case live (snd (new_timeout d h)) i of None \<Rightarrow> users evs i = 0
      | Some t \<Rightarrow> ref_cnt t = users evs i \<and> (i \<in> {fresh h} \<or> 0 < users evs i)" for i
    using counts_at[OF cb, of i] gone[of i] by (auto simp: new_timeout_def split: option.splits)
  show "fresh (snd (new_timeout d h)) \<le> i \<longrightarrow> live (snd (new_timeout d h)) i = None" for i
    using gone[of i] by (simp add: new_timeout_def)
qed

lemma set_timeout_deadline_counts:
  assumes cb: "counts_but {} evs h" and k: "k < length evs"
  shows "\<exists>ev' h'. set_timeout_deadline d (evs ! k) h = Inr (ev', h') \<and> counts_ok (evs[k := ev']) h'"
proof -
  have n1: "i \<notin> {fresh h}" if "tm_info (evs ! k) = Some i" for i
    using counts_live[OF cb k that] cb by (auto simp: counts_but_def)
  obtain h' where "set_timeout_ptr (Some (fresh h)) (evs ! k) (snd (new_timeout d h))
        = Inr ((evs ! k)\<lparr>tm_info := Some (fresh h)\<rparr>, h')"
      "counts_ok (evs[k := (evs ! k)\<lparr>tm_info := Some (fresh h)\<rparr>]) h'"
    by (rule set_timeout_ptr_counts[OF new_timeout_counts[OF cb] k n1])
      (use n1[of "fresh h"] in \<open>auto simp: new_timeout_def\<close>)
  then show ?thesis by (auto simp: set_timeout_deadline_def new_timeout_def)
qed

lemma delete_event_counts:
  assumes c: "counts_ok evs h" and k: "k < length evs"
  shows "\<exists>h'. delete_event (evs ! k) h = Inr h' \<and> counts_ok (evs[k := new_event]) h'"
proof (cases "tm_info (evs ! k)")
  case None
  then show ?thesis using c k counts_same_info[of k evs new_event "{}" h]
    by (simp add: delete_event_def counts_ok_def new_event_def)
next
  case (Some i)
  have cb: "counts_but {} evs h" using c by (simp add: counts_ok_def)
  have "tm_info new_event = None" by (simp add: new_event_def)
  from detach_counts[OF cb k Some _ this] obtain h1 where "detach i h = Inr h1" "counts_but {} (evs[k := new_event]) h1"
    by blast
  with Some show ?thesis by (simp add: delete_event_def counts_ok_def)
qed

text \<open>C23. The reference counts of time limits are right: setting a new limit and deleting an event keep
  the counts and never touch a limit that is gone; so does taking over the limit of another event,
  except that an event that is the only user of its limit and takes over its own limit releases it
  first and then uses it after it was freed.\<close>

theorem timeout_counts:
  assumes c: "counts_ok evs h" and k: "k < length evs" and j: "j < length evs"
  shows "(\<exists>ev' h'. set_timeout_deadline d (evs ! k) h = Inr (ev', h') \<and> counts_ok (evs[k := ev']) h') \<and>
    (\<exists>h'. delete_event (evs ! k) h = Inr h' \<and> counts_ok (evs[k := new_event]) h') \<and>
    (if tm_info (evs ! j) = tm_info (evs ! k) \<and> (\<exists>i. tm_info (evs ! k) = Some i \<and> users evs i = 1)
     then set_timeout_from (evs ! j) (evs ! k) h = Inl Undefined
     else \<exists>ev' h'. set_timeout_from (evs ! j) (evs ! k) h = Inr (ev', h') \<and> counts_ok (evs[k := ev']) h')"
proof (intro conjI)
  have cb: "counts_but {} evs h" using c by (simp add: counts_ok_def)
  show "\<exists>ev' h'. set_timeout_deadline d (evs ! k) h = Inr (ev', h') \<and> counts_ok (evs[k := ev']) h'"
    by (rule set_timeout_deadline_counts[OF cb k])
  show "\<exists>h'. delete_event (evs ! k) h = Inr h' \<and> counts_ok (evs[k := new_event]) h'"
    by (rule delete_event_counts[OF c k])
  show "if tm_info (evs ! j) = tm_info (evs ! k) \<and> (\<exists>i. tm_info (evs ! k) = Some i \<and> users evs i = 1)
     then set_timeout_from (evs ! j) (evs ! k) h = Inl Undefined
     else \<exists>ev' h'. set_timeout_from (evs ! j) (evs ! k) h = Inr (ev', h') \<and> counts_ok (evs[k := ev']) h'"
  proof (cases "tm_info (evs ! j) = tm_info (evs ! k) \<and> (\<exists>i. tm_info (evs ! k) = Some i \<and> users evs i = 1)")
    case True
    then obtain i where i: "tm_info (evs ! k) = Some i" "users evs i = 1" "tm_info (evs ! j) = Some i" by auto
    from counts_live[OF cb k i(1)] i(2) obtain t where "live h i = Some t" "ref_cnt t = 1" by auto
    with i True show ?thesis
      by (simp add: set_timeout_from_def set_timeout_ptr_def detach_def attach_def)
  next
    case False
    obtain h' where "set_timeout_ptr (tm_info (evs ! j)) (evs ! k) h = Inr ((evs ! k)\<lparr>tm_info := tm_info (evs ! j)\<rparr>, h')"
        "counts_ok (evs[k := (evs ! k)\<lparr>tm_info := tm_info (evs ! j)\<rparr>]) h'"
      by (rule set_timeout_ptr_counts[OF cb k, of "tm_info (evs ! j)"]) (use False counts_live[OF cb j] in auto)
    with False show ?thesis by (simp only: if_False set_timeout_from_def) blast
  qed
qed

theorem timeout_counts_witness:
  "let evs = [new_event\<lparr>tm_info := Some 0\<rparr>, new_event];
       h = \<lparr>live = [0 \<mapsto> \<lparr>deadline = 5, is_timed_out = False, ref_cnt = 1\<rparr>], fresh = 1\<rparr>
   in set_timeout_from (evs ! 0) (evs ! 0) h = Inl Undefined \<and>
      (\<exists>ev' h'. set_timeout_from (evs ! 0) (evs ! 1) h = Inr (ev', h') \<and> counts_ok (evs[1 := ev']) h')"
proof -
  let ?evs = "[new_event\<lparr>tm_info := Some 0\<rparr>, new_event]"
  let ?h = "\<lparr>live = [0 \<mapsto> \<lparr>deadline = 5, is_timed_out = False, ref_cnt = 1\<rparr>], fresh = 1\<rparr>"
  have c: "counts_ok ?evs ?h"
    by (auto simp: counts_ok_def counts_but_def users_def new_event_def)
  have u: "users ?evs 0 = 1" by (simp add: users_def new_event_def)
  have "set_timeout_from (?evs ! 0) (?evs ! 0) ?h = Inl Undefined"
    using timeout_counts[OF c, of 0 0 0] u by simp
  moreover have "\<exists>ev' h'. set_timeout_from (?evs ! 0) (?evs ! 1) ?h = Inr (ev', h') \<and> counts_ok (?evs[1 := ev']) h'"
    using timeout_counts[OF c, of 1 0 0] by (simp add: new_event_def)
  ultimately show ?thesis by (simp only: Let_def)
qed

end
