(* ===== verification/Seda_Pool.thy ===== *)
theory Seda_Pool
  imports Prelude
begin

text \<open>
  Stages and their thread pool (\<open>backend/seda/stage.cpp\<close>, \<open>thread_pool.cpp\<close>,
  \<open>kill_thread_stage.cpp\<close>) as a state machine. Each critical section of the source is one step: the
  queue operations of a stage under its \<open>list_mutex_\<close>, the run queue under \<open>run_mutex_\<close>, the thread
  counters under \<open>thread_mutex_\<close>. Between them any other thread may run: a call of \<open>schedule\<close> that a
  finished \<open>add_event\<close> or \<open>connect\<close> still has to make is an entry of \<open>calls\<close>, and a call of \<open>disconnect\<close> that
  sleeps on the condition variable of its stage, until \<open>release_event\<close> signals it or it wakes up unsignalled, is the
  field \<open>waiting\<close> of the stage. Handlers are arbitrary:
  while a thread runs one it may add events to any stage, and it ends at some point. Stages are numbered;
  the pool's own \<open>killer_\<close> is stage \<open>0\<close>.
\<close>

section \<open>Stages\<close>

record 'e stage =
  event_list :: "'e list"
  connected :: bool
  disconnecting :: bool
  waiting :: bool
  event_ref :: int
  th_pool :: "string option"
  next_stages :: "string list"

definition new_stage :: "'e stage" where
  "new_stage = \<lparr>event_list = [], connected = False, disconnecting = False, waiting = False, event_ref = 0, th_pool = None,
                next_stages = []\<rparr>"

definition set_pool :: "string \<Rightarrow> 'e stage \<Rightarrow> 'e stage res" where
  "set_pool nm st = (if connected st then Inl Assert_failed else Inr (st\<lparr>th_pool := Some nm\<rparr>))"

definition push_stage :: "string \<Rightarrow> 'e stage \<Rightarrow> 'e stage res" where
  "push_stage n st = (if connected st then Inl Assert_failed else Inr (st\<lparr>next_stages := next_stages st @ [n]\<rparr>))"

text \<open>\<open>connect\<close>: the new state, the number of \<open>schedule\<close> calls to make, the return value; \<open>ok\<close> is the
  result of \<open>initialize\<close>.\<close>

definition connect_stage :: "bool \<Rightarrow> 'e stage \<Rightarrow> ('e stage \<times> nat \<times> bool) res" where
  "connect_stage ok st =
     (if connected st \<or> th_pool st = None then Inl Assert_failed
      else if ok then
        let backlog = length (event_list st)
        in Inr (st\<lparr>event_ref := int backlog, connected := True\<rparr>, backlog, True)
      else Inr (st, 0, False))"

text \<open>\<open>disconnect\<close>: the thread that calls it holds \<open>list_mutex_\<close> and runs its loop; it either goes to sleep on
  \<open>disconnect_cond_\<close> (\<open>waiting\<close>), which gives up the lock, or finishes. Whoever signals wakes it, and it tests the
  counter again once it has the lock back. \<open>disconnecting\<close> says that the call has not returned.\<close>

definition disconnect_loop :: "'e stage \<Rightarrow> 'e stage" where
  "disconnect_loop st =
     (if event_ref st > 0 then st\<lparr>waiting := True\<rparr>
      else st\<lparr>th_pool := None, next_stages := [], disconnecting := False\<rparr>)"

definition disconnect_start :: "'e stage \<Rightarrow> 'e stage res" where
  "disconnect_start st =
     (if \<not> connected st then Inl Assert_failed
      else Inr (disconnect_loop (st\<lparr>connected := False, disconnecting := True\<rparr>)))"

definition disconnect_resume :: "'e stage \<Rightarrow> 'e stage option" where
  "disconnect_resume st = (if disconnecting st \<and> \<not> waiting st then Some (disconnect_loop st) else None)"

definition signal_disconnect :: "'e stage \<Rightarrow> 'e stage" where
  "signal_disconnect st = st\<lparr>waiting := False\<rparr>"

definition add_event :: "'e \<Rightarrow> 'e stage \<Rightarrow> 'e stage \<times> bool" where
  "add_event e st =
     (let st1 = st\<lparr>event_list := event_list st @ [e]\<rparr>
      in if connected st1 then (st1\<lparr>event_ref := event_ref st1 + 1\<rparr>, True) else (st1, False))"

definition qlen :: "'e stage \<Rightarrow> nat" where
  "qlen st = length (event_list st)"

definition qempty :: "'e stage \<Rightarrow> bool" where
  "qempty st \<longleftrightarrow> event_list st = []"

definition remove_event :: "'e stage \<Rightarrow> ('e \<times> 'e stage) res" where
  "remove_event st =
     (case event_list st of [] \<Rightarrow> Inl Assert_failed | e # es \<Rightarrow> Inr (e, st\<lparr>event_list := es\<rparr>))"

definition release_event :: "'e stage \<Rightarrow> 'e stage" where
  "release_event st =
     (let st1 = st\<lparr>event_ref := event_ref st - 1\<rparr>
      in if \<not> connected st1 \<and> event_ref st1 = 0 then signal_disconnect st1 else st1)"

definition delete_stage :: "'e stage \<Rightarrow> 'e list res" where
  "delete_stage st = (if connected st then Inl Assert_failed else Inr (event_list st))"

section \<open>The pool\<close>

text \<open>A thread is before the lock of the run queue, waits on \<open>run_cond_\<close>, has been woken but has not got the
  lock back, has taken a stage, runs a handler, is past \<open>thread_kill\<close>, or is gone.\<close>

datatype 'e thread =
    At_top
  | Sleeping
  | Woken
  | Took nat
  | Running nat 'e
  | Dying
  | Exited

text \<open>A pending call of \<open>schedule\<close>, and the thread of this pool that makes it, if one does.\<close>

type_synonym call = "nat \<times> nat option"

record 'e pool =
  pool_name :: string
  stages :: "nat \<Rightarrow> 'e stage"
  run_queue :: "nat list"
  threads :: "'e thread list"
  n_idles :: nat
  nthreads :: nat
  threads_to_kill :: nat
  kill_wait :: bool
  calls :: "call list"

definition killer :: nat where
  "killer = 0"

definition new_pool :: "string \<Rightarrow> 'e pool" where
  "new_pool nm =
     \<lparr>pool_name = nm, stages = (\<lambda>_. new_stage), run_queue = [], threads = [], n_idles = 0, nthreads = 0, threads_to_kill = 0,
      kill_wait = False, calls = []\<rparr>"

definition add_threads :: "nat \<Rightarrow> 'e pool \<Rightarrow> 'e pool" where
  "add_threads n p = p\<lparr>threads := threads p @ replicate n At_top, nthreads := nthreads p + n\<rparr>"

definition upd_stage :: "nat \<Rightarrow> 'e stage \<Rightarrow> 'e pool \<Rightarrow> 'e pool" where
  "upd_stage s st p = p\<lparr>stages := (stages p)(s := st)\<rparr>"

definition upd_thread :: "nat \<Rightarrow> 'e thread \<Rightarrow> 'e pool \<Rightarrow> 'e pool" where
  "upd_thread t th p = p\<lparr>threads := (threads p)[t := th]\<rparr>"

text \<open>\<open>COND_SIGNAL\<close> wakes the waiting thread the system chooses, if there is one.\<close>

definition cond_signal :: "nat option \<Rightarrow> 'e pool \<Rightarrow> 'e pool option" where
  "cond_signal w p =
     (case w of
        None \<Rightarrow> (if Sleeping \<in> set (threads p) then None else Some p)
      | Some i \<Rightarrow> (if i < length (threads p) \<and> threads p ! i = Sleeping then Some (upd_thread i Woken p) else None))"

text \<open>\<open>schedule\<close>: no signal is sent for a stage that a thread of this pool puts into an empty queue.\<close>

definition schedule :: "nat \<Rightarrow> bool \<Rightarrow> nat option \<Rightarrow> 'e pool \<Rightarrow> 'e pool option res" where
  "schedule s own_thread w p =
     (if qempty (stages p s) then Inl Assert_failed
      else
        let was_empty = (run_queue p = []); p1 = p\<lparr>run_queue := run_queue p @ [s]\<rparr>
        in Inr (if (\<not> was_empty \<or> \<not> own_thread) \<and> n_idles p > 0 then cond_signal w p1 else Some p1))"

text \<open>\<open>kill_threads\<close> up to its wait: the killer is connected, and the events are added to it.\<close>

definition kill_threads :: "'e list \<Rightarrow> nat \<Rightarrow> 'e pool \<Rightarrow> 'e pool res" where
  "kill_threads evs n p =
     (if threads_to_kill p > 0 then Inr p
      else
        let k = min n (nthreads p)
        in rbind (set_pool (pool_name p) (stages p killer)) (\<lambda>st.
           rbind (connect_stage True st) (\<lambda>(st1, backlog, _).
             let st2 = fold (\<lambda>e st. fst (add_event e st)) (take k evs) st1
             in Inr ((upd_stage killer st2 p)\<lparr>threads_to_kill := k, kill_wait := True,
                       calls := calls p @ replicate (backlog + k) (killer, None)\<rparr>))))"

definition thread_kill :: "'e pool \<Rightarrow> 'e pool" where
  "thread_kill p =
     (let k = threads_to_kill p - 1
      in p\<lparr>nthreads := nthreads p - 1, threads_to_kill := k, kill_wait := (if k = 0 then False else kill_wait p)\<rparr>)"

section \<open>The steps of one thread\<close>

text \<open>The run queue is locked: the thread takes a stage, or waits.\<close>

definition take_stage :: "nat \<Rightarrow> 'e pool \<Rightarrow> 'e pool option" where
  "take_stage t p =
     (case run_queue p of
        [] \<Rightarrow> None
      | s # q \<Rightarrow>
          (if threads p ! t = At_top then Some (upd_thread t (Took s) (p\<lparr>run_queue := q\<rparr>))
           else if threads p ! t = Woken then
             Some (upd_thread t (Took s) (p\<lparr>run_queue := q, n_idles := n_idles p - 1\<rparr>))
           else None))"

definition fall_asleep :: "nat \<Rightarrow> 'e pool \<Rightarrow> 'e pool option" where
  "fall_asleep t p =
     (if run_queue p \<noteq> [] then None
      else if threads p ! t = At_top then Some (upd_thread t Sleeping (p\<lparr>n_idles := n_idles p + 1\<rparr>))
      else if threads p ! t = Woken then Some (upd_thread t Sleeping p)
      else None)"

definition take_event :: "nat \<Rightarrow> nat \<Rightarrow> 'e pool \<Rightarrow> ('e \<times> 'e pool) res" where
  "take_event t s p =
     rbind (remove_event (stages p s)) (\<lambda>(e, st). Inr (e, upd_thread t (Running s e) (upd_stage s st p)))"

definition finish_event :: "nat \<Rightarrow> nat \<Rightarrow> 'e pool \<Rightarrow> 'e pool" where
  "finish_event t s p = upd_thread t At_top (upd_stage s (release_event (stages p s)) p)"

text \<open>\<open>KillThreadStage::handle_event\<close>: first \<open>thread_kill\<close>, then the release and the exit.\<close>

definition kill_self :: "nat \<Rightarrow> 'e pool \<Rightarrow> 'e pool" where
  "kill_self t p = upd_thread t Dying (thread_kill p)"

definition exit_thread :: "nat \<Rightarrow> 'e pool \<Rightarrow> 'e pool" where
  "exit_thread t p = upd_thread t Exited (upd_stage killer (release_event (stages p killer)) p)"

section \<open>The step relation\<close>

datatype 'e action =
    Env
  | Added nat 'e
  | Scheduled nat
  | Taken nat
  | Slept nat
  | Roused nat
  | Removed nat 'e
  | Finished nat
  | Killed nat
  | Released nat

text \<open>A thread that runs a handler makes one call at a time. Connecting and disconnecting one stage is left
  to one controlling thread, as in \<open>SedaConfig\<close>: no \<open>connect\<close> while a \<open>disconnect\<close> waits.\<close>

definition may_call :: "nat option \<Rightarrow> 'e pool \<Rightarrow> bool" where
  "may_call a p \<longleftrightarrow>
     (case a of
        None \<Rightarrow> True
      | Some t \<Rightarrow> t < length (threads p) \<and> (\<exists>s e. threads p ! t = Running s e \<and> s \<noteq> killer) \<and>
                  (\<forall>c \<in> set (calls p). snd c \<noteq> Some t))"

inductive pool_step :: "'e pool \<Rightarrow> 'e action \<Rightarrow> 'e pool \<Rightarrow> bool" where
  add_threads: "pool_step p Env (add_threads n p)"
| set_pool: "set_pool (pool_name p) (stages p s) = Inr st \<Longrightarrow> s \<noteq> killer \<Longrightarrow> \<not> disconnecting (stages p s) \<Longrightarrow>
     pool_step p Env (upd_stage s st p)"
| connect: "connect_stage ok (stages p s) = Inr (st, k, b) \<Longrightarrow> s \<noteq> killer \<Longrightarrow> \<not> disconnecting (stages p s) \<Longrightarrow>
     pool_step p Env ((upd_stage s st p)\<lparr>calls := calls p @ replicate k (s, None)\<rparr>)"
| disconnect: "disconnect_start (stages p s) = Inr st \<Longrightarrow> s = killer \<longrightarrow> \<not> kill_wait p \<Longrightarrow>
     pool_step p Env (upd_stage s st p)"
| resume: "disconnect_resume (stages p s) = Some st \<Longrightarrow> pool_step p Env (upd_stage s st p)"
| unsignalled_wake: "waiting (stages p s) \<Longrightarrow> pool_step p Env (upd_stage s (signal_disconnect (stages p s)) p)"
| kill_threads: "kill_threads evs n p = Inr p' \<Longrightarrow> n \<le> length evs \<Longrightarrow> \<not> kill_wait p \<Longrightarrow>
     \<not> disconnecting (stages p killer) \<Longrightarrow> pool_step p Env p'"
| add_event: "add_event e (stages p s) = (st, b) \<Longrightarrow> s \<noteq> killer \<Longrightarrow> may_call a p \<Longrightarrow>
     pool_step p (Added s e) ((upd_stage s st p)\<lparr>calls := calls p @ (if b then [(s, a)] else [])\<rparr>)"
| schedule: "calls p = xs @ (s, a) # ys \<Longrightarrow> schedule s (a \<noteq> None) w (p\<lparr>calls := xs @ ys\<rparr>) = Inr (Some p') \<Longrightarrow>
     pool_step p (Scheduled s) p'"
| take: "t < length (threads p) \<Longrightarrow> take_stage t p = Some p' \<Longrightarrow> pool_step p (Taken t) p'"
| sleep: "t < length (threads p) \<Longrightarrow> fall_asleep t p = Some p' \<Longrightarrow> pool_step p (Slept t) p'"
| rouse: "t < length (threads p) \<Longrightarrow> threads p ! t = Sleeping \<Longrightarrow> pool_step p (Roused t) (upd_thread t Woken p)"
| remove: "t < length (threads p) \<Longrightarrow> threads p ! t = Took s \<Longrightarrow> take_event t s p = Inr (e, p') \<Longrightarrow>
     pool_step p (Removed s e) p'"
| finish: "t < length (threads p) \<Longrightarrow> threads p ! t = Running s e \<Longrightarrow> s \<noteq> killer \<Longrightarrow>
     \<forall>c \<in> set (calls p). snd c \<noteq> Some t \<Longrightarrow> pool_step p (Finished t) (finish_event t s p)"
| kill: "t < length (threads p) \<Longrightarrow> threads p ! t = Running killer e \<Longrightarrow> pool_step p (Killed t) (kill_self t p)"
| exit: "t < length (threads p) \<Longrightarrow> threads p ! t = Dying \<Longrightarrow> pool_step p (Released t) (exit_thread t p)"

inductive pool_run :: "'e pool \<Rightarrow> 'e action list \<Rightarrow> 'e pool \<Rightarrow> bool" where
  run_nil: "pool_run p [] p"
| run_snoc: "pool_run p as q \<Longrightarrow> pool_step q a r \<Longrightarrow> pool_run p (as @ [a]) r"

definition reachable :: "'e pool \<Rightarrow> bool" where
  "reachable p \<longleftrightarrow> (\<exists>nm as. pool_run (new_pool nm) as p)"

section \<open>Counting\<close>

definition cnt :: "('a \<Rightarrow> bool) \<Rightarrow> 'a list \<Rightarrow> int" where
  "cnt P xs = int (length (filter P xs))"

lemma cnt_simps [simp]:
  "cnt P [] = 0" "cnt P (x # xs) = of_bool (P x) + cnt P xs" "cnt P (xs @ ys) = cnt P xs + cnt P ys"
  "cnt P (replicate n x) = (if P x then int n else 0)"
  by (simp_all add: cnt_def)

lemma cnt_nonneg [simp]: "0 \<le> cnt P xs"
  by (simp add: cnt_def)

lemma cnt_update [simp]:
  "k < length xs \<Longrightarrow> cnt P (xs[k := x]) = cnt P xs - of_bool (P (xs ! k)) + of_bool (P x)"
proof (induction xs arbitrary: k)
  case (Cons y ys)
  then show ?case by (cases k) simp_all
qed simp

lemma cnt_pos: "k < length xs \<Longrightarrow> P (xs ! k) \<Longrightarrow> 0 < cnt P xs"
  by (auto simp: cnt_def filter_empty_conv intro!: bexI[of _ "xs ! k"])

lemma cnt_zero: "cnt P xs = 0 \<longleftrightarrow> (\<forall>x \<in> set xs. \<not> P x)"
  by (auto simp: cnt_def filter_empty_conv)

lemma cnt_mono: "(\<And>x. P x \<Longrightarrow> Q x) \<Longrightarrow> cnt P xs \<le> cnt Q xs"
  by (induction xs) auto

text \<open>Strictly more, when one element is counted on the right only.\<close>

lemma cnt_less:
  "(\<And>x. P x \<Longrightarrow> Q x) \<Longrightarrow> k < length xs \<Longrightarrow> Q (xs ! k) \<Longrightarrow> \<not> P (xs ! k) \<Longrightarrow> cnt P xs + 1 \<le> cnt Q xs"
proof (induction xs arbitrary: k)
  case (Cons y ys)
  show ?case
  proof (cases k)
    case 0
    then show ?thesis using Cons.prems cnt_mono[of P Q ys] by simp
  next
    case (Suc n)
    then have "cnt P ys + 1 \<le> cnt Q ys" using Cons.prems by (intro Cons.IH[of n]) simp_all
    then show ?thesis using Cons.prems(1)[of y] by simp
  qed
qed simp

section \<open>The invariant\<close>

fun in_stage :: "nat \<Rightarrow> 'e thread \<Rightarrow> bool" where
  "in_stage s (Running s' e) = (s' = s)"
| "in_stage s Dying = (s = killer)"
| "in_stage s _ = False"

fun running_kill :: "'e thread \<Rightarrow> bool" where
  "running_kill (Running s e) = (s = killer)"
| "running_kill _ = False"

fun doomed :: "'e thread \<Rightarrow> bool" where
  "doomed (Took s) = (s = killer)"
| "doomed (Running s e) = (s = killer)"
| "doomed Dying = True"
| "doomed _ = False"

fun awake :: "'e thread \<Rightarrow> bool" where
  "awake Sleeping = False"
| "awake Exited = False"
| "awake _ = True"

fun alive :: "'e thread \<Rightarrow> bool" where
  "alive Dying = False"
| "alive Exited = False"
| "alive _ = True"

fun handling :: "'e thread \<Rightarrow> bool" where
  "handling (Running s e) = (s \<noteq> killer)"
| "handling _ = False"

text \<open>The work a stage is still owed: its entries in the run queue, the calls of \<open>schedule\<close> on their way, and
  the threads that have taken it but not yet an event.\<close>

definition tokens :: "nat \<Rightarrow> 'e pool \<Rightarrow> int" where
  "tokens s p = cnt (\<lambda>x. x = s) (run_queue p) + cnt (\<lambda>c. fst c = s) (calls p) + cnt (\<lambda>th. th = Took s) (threads p)"

definition inside :: "nat \<Rightarrow> 'e pool \<Rightarrow> int" where
  "inside s p = cnt (in_stage s) (threads p)"

definition stage_ok :: "nat \<Rightarrow> 'e pool \<Rightarrow> bool" where
  "stage_ok s p \<longleftrightarrow>
     (let st = stages p s
      in event_ref st = tokens s p + inside s p \<and>
         tokens s p \<le> int (length (event_list st)) \<and>
         (connected st \<or> s = killer \<longrightarrow> tokens s p = int (length (event_list st))) \<and>
         (connected st \<longrightarrow> th_pool st \<noteq> None \<and> \<not> disconnecting st) \<and>
         (waiting st \<longrightarrow> disconnecting st \<and> 0 < event_ref st) \<and>
         (\<not> connected st \<and> \<not> disconnecting st \<longrightarrow> event_ref st = 0))"

definition sleep_ok :: "'e pool \<Rightarrow> bool" where
  "sleep_ok p \<longleftrightarrow>
     int (n_idles p) = cnt (\<lambda>th. th = Sleeping \<or> th = Woken) (threads p) \<and>
     (cnt (\<lambda>th. th = Sleeping) (threads p) = 0 \<or>
      int (length (run_queue p)) + cnt doomed (threads p) \<le> cnt awake (threads p))"

definition calls_ok :: "'e pool \<Rightarrow> bool" where
  "calls_ok p \<longleftrightarrow> (\<forall>s t. (s, Some t) \<in> set (calls p) \<longrightarrow> t < length (threads p) \<and> handling (threads p ! t))"

definition kill_ok :: "'e pool \<Rightarrow> bool" where
  "kill_ok p \<longleftrightarrow>
     int (nthreads p) = cnt alive (threads p) \<and>
     int (threads_to_kill p) = tokens killer p + cnt running_kill (threads p) \<and>
     threads_to_kill p \<le> nthreads p"

definition pool_ok :: "'e pool \<Rightarrow> bool" where
  "pool_ok p \<longleftrightarrow> (\<forall>s. stage_ok s p) \<and> sleep_ok p \<and> calls_ok p \<and> kill_ok p"

lemma inv_new: "pool_ok (new_pool nm)"
  by (simp add: pool_ok_def stage_ok_def sleep_ok_def calls_ok_def kill_ok_def new_pool_def new_stage_def
      tokens_def inside_def)

lemma pool_simps [simp]:
  "stages (upd_thread t th p) = stages p" "run_queue (upd_thread t th p) = run_queue p"
  "threads (upd_thread t th p) = (threads p)[t := th]" "n_idles (upd_thread t th p) = n_idles p"
  "nthreads (upd_thread t th p) = nthreads p" "threads_to_kill (upd_thread t th p) = threads_to_kill p"
  "calls (upd_thread t th p) = calls p" "kill_wait (upd_thread t th p) = kill_wait p"
  "stages (upd_stage s st p) = (stages p)(s := st)" "run_queue (upd_stage s st p) = run_queue p"
  "threads (upd_stage s st p) = threads p" "n_idles (upd_stage s st p) = n_idles p"
  "nthreads (upd_stage s st p) = nthreads p" "threads_to_kill (upd_stage s st p) = threads_to_kill p"
  "calls (upd_stage s st p) = calls p" "kill_wait (upd_stage s st p) = kill_wait p"
  by (simp_all add: upd_thread_def upd_stage_def)

text \<open>What the invariant of one stage depends on.\<close>

lemma stage_ok_cong:
  "stages p' s = stages p s \<Longrightarrow> tokens s p' = tokens s p \<Longrightarrow> inside s p' = inside s p \<Longrightarrow>
   stage_ok s p' = stage_ok s p"
  by (simp add: stage_ok_def)

lemma tokens_simps [simp]:
  "tokens s (upd_stage s' st p) = tokens s p"
  "tokens s (p\<lparr>calls := cs\<rparr>) = tokens s p - cnt (\<lambda>c. fst c = s) (calls p) + cnt (\<lambda>c. fst c = s) cs"
  "tokens s (p\<lparr>run_queue := q\<rparr>) = tokens s p - cnt (\<lambda>x. x = s) (run_queue p) + cnt (\<lambda>x. x = s) q"
  "tokens s (p\<lparr>n_idles := n\<rparr>) = tokens s p" "tokens s (p\<lparr>nthreads := n\<rparr>) = tokens s p"
  "tokens s (p\<lparr>threads_to_kill := n\<rparr>) = tokens s p" "tokens s (p\<lparr>kill_wait := b\<rparr>) = tokens s p"
  "t < length (threads p) \<Longrightarrow>
     tokens s (upd_thread t th p) = tokens s p - of_bool (threads p ! t = Took s) + of_bool (th = Took s)"
  by (simp_all add: tokens_def)

lemma inside_simps [simp]:
  "inside s (upd_stage s' st p) = inside s p" "inside s (p\<lparr>calls := cs\<rparr>) = inside s p"
  "inside s (p\<lparr>run_queue := q\<rparr>) = inside s p" "inside s (p\<lparr>n_idles := n\<rparr>) = inside s p"
  "inside s (p\<lparr>nthreads := n\<rparr>) = inside s p" "inside s (p\<lparr>threads_to_kill := n\<rparr>) = inside s p"
  "inside s (p\<lparr>kill_wait := b\<rparr>) = inside s p"
  "t < length (threads p) \<Longrightarrow>
     inside s (upd_thread t th p) = inside s p - of_bool (in_stage s (threads p ! t)) + of_bool (in_stage s th)"
  by (simp_all add: inside_def)

lemma tokens_nonneg [simp]: "0 \<le> tokens s p"
  by (simp add: tokens_def)

lemma inside_nonneg [simp]: "0 \<le> inside s p"
  by (simp add: inside_def)

lemma invI:
  "(\<And>s. stage_ok s p) \<Longrightarrow> sleep_ok p \<Longrightarrow> calls_ok p \<Longrightarrow> kill_ok p \<Longrightarrow> pool_ok p"
  by (simp add: pool_ok_def)

lemma invD: "pool_ok p \<Longrightarrow> stage_ok s p" "pool_ok p \<Longrightarrow> sleep_ok p" "pool_ok p \<Longrightarrow> calls_ok p" "pool_ok p \<Longrightarrow> kill_ok p"
  by (simp_all add: pool_ok_def)

lemma stage_okD:
  assumes "stage_ok s p"
  shows "event_ref (stages p s) = tokens s p + inside s p"
    "tokens s p \<le> int (length (event_list (stages p s)))"
    "connected (stages p s) \<or> s = killer \<Longrightarrow> tokens s p = int (length (event_list (stages p s)))"
    "connected (stages p s) \<Longrightarrow> th_pool (stages p s) \<noteq> None" "connected (stages p s) \<Longrightarrow> \<not> disconnecting (stages p s)"
    "waiting (stages p s) \<Longrightarrow> disconnecting (stages p s)" "waiting (stages p s) \<Longrightarrow> 0 < tokens s p + inside s p"
    "\<not> connected (stages p s) \<Longrightarrow> \<not> disconnecting (stages p s) \<Longrightarrow> tokens s p = 0 \<and> inside s p = 0"
proof -
  show "event_ref (stages p s) = tokens s p + inside s p"
    "tokens s p \<le> int (length (event_list (stages p s)))"
    "connected (stages p s) \<or> s = killer \<Longrightarrow> tokens s p = int (length (event_list (stages p s)))"
    "connected (stages p s) \<Longrightarrow> th_pool (stages p s) \<noteq> None" "connected (stages p s) \<Longrightarrow> \<not> disconnecting (stages p s)"
    "waiting (stages p s) \<Longrightarrow> disconnecting (stages p s)" "waiting (stages p s) \<Longrightarrow> 0 < tokens s p + inside s p"
    using assms by (auto simp: stage_ok_def Let_def)
  show "tokens s p = 0 \<and> inside s p = 0" if "\<not> connected (stages p s)" "\<not> disconnecting (stages p s)"
  proof -
    have "tokens s p + inside s p = 0" using assms that by (auto simp: stage_ok_def Let_def)
    with tokens_nonneg[of s p] inside_nonneg[of s p] show ?thesis by linarith
  qed
qed

text \<open>Steps that only change stages and add calls from outside the pool.\<close>

lemma sleep_ok_cong:
  "sleep_ok p \<Longrightarrow> threads p' = threads p \<Longrightarrow> run_queue p' = run_queue p \<Longrightarrow> n_idles p' = n_idles p \<Longrightarrow> sleep_ok p'"
  by (simp add: sleep_ok_def)

lemma calls_ok_outside:
  "calls_ok p \<Longrightarrow> threads p' = threads p \<Longrightarrow> calls p' = calls p @ replicate k (s, None) \<Longrightarrow> calls_ok p'"
  by (auto simp: calls_ok_def)

section \<open>Every step keeps it\<close>

lemma inv_threads: "pool_ok p \<Longrightarrow> pool_ok (add_threads n p)"
proof -
  assume i: "pool_ok p"
  have t: "tokens s (add_threads n p) = tokens s p" "inside s (add_threads n p) = inside s p" for s
    by (simp_all add: tokens_def inside_def add_threads_def)
  have "stage_ok s (add_threads n p)" for s
    using invD(1)[OF i, of s] stage_ok_cong[of "add_threads n p" s p] t by (simp add: add_threads_def)
  moreover have "sleep_ok (add_threads n p)"
    using invD(2)[OF i] by (auto simp: sleep_ok_def add_threads_def)
  moreover have "calls_ok (add_threads n p)"
    using invD(3)[OF i] by (fastforce simp: calls_ok_def add_threads_def nth_append)
  moreover have "kill_ok (add_threads n p)"
    using invD(4)[OF i] by (simp add: kill_ok_def t) (simp add: add_threads_def)
  ultimately show ?thesis by (rule invI)
qed

lemma inv_stage:
  assumes i: "pool_ok p" and st: "stage_ok s ((upd_stage s st p)\<lparr>calls := calls p @ replicate k (s, None)\<rparr>)"
    and s: "s \<noteq> killer \<or> k = 0"
  shows "pool_ok ((upd_stage s st p)\<lparr>calls := calls p @ replicate k (s, None)\<rparr>)"
proof (rule invI)
  let ?p = "(upd_stage s st p)\<lparr>calls := calls p @ replicate k (s, None)\<rparr>"
  show "stage_ok s' ?p" for s'
    using st invD(1)[OF i, of s'] stage_ok_cong[of ?p s' p] by (cases "s' = s") simp_all
  show "sleep_ok ?p" by (rule sleep_ok_cong[OF invD(2)[OF i]]) simp_all
  show "calls_ok ?p" by (rule calls_ok_outside[OF invD(3)[OF i], where k = k and s = s]) simp_all
  show "kill_ok ?p" using invD(4)[OF i] s by (auto simp: kill_ok_def)
qed

lemma inv_stage0:
  assumes "pool_ok p" "stage_ok s (upd_stage s st p)"
  shows "pool_ok (upd_stage s st p)"
  using inv_stage[where k = 0 and s = s and st = st and p = p] assms by (simp add: upd_stage_def)

lemma inv_set_pool: "pool_ok p \<Longrightarrow> set_pool nm (stages p s) = Inr st \<Longrightarrow> pool_ok (upd_stage s st p)"
  using invD(1)[of p s] by (intro inv_stage0) (auto simp: stage_ok_def set_pool_def Let_def split: if_splits)

lemma inv_connect:
  assumes i: "pool_ok p" and c: "connect_stage ok (stages p s) = Inr (st, k, b)" "s \<noteq> killer" "\<not> disconnecting (stages p s)"
  shows "pool_ok ((upd_stage s st p)\<lparr>calls := calls p @ replicate k (s, None)\<rparr>)"
proof (rule inv_stage[OF i])
  have nc: "\<not> connected (stages p s)" using c(1) by (auto simp: connect_stage_def split: if_splits)
  note D = stage_okD[OF invD(1)[OF i, of s]]
  note z = D(8)[OF nc c(3)]
  show "stage_ok s ((upd_stage s st p)\<lparr>calls := calls p @ replicate k (s, None)\<rparr>)"
    using c z D by (auto simp: connect_stage_def stage_ok_def Let_def split: if_splits)
qed (use c(2) in simp)

lemma loop_ok:
  assumes "event_ref st = tokens s p + inside s p" "tokens s p \<le> int (length (event_list st))" "disconnecting st"
    "\<not> connected st" "s = killer \<Longrightarrow> tokens s p = int (length (event_list st))" "\<not> waiting st"
  shows "stage_ok s (upd_stage s (disconnect_loop st) p)"
proof -
  have "tokens s p + inside s p = 0" if "\<not> 0 < event_ref st"
    using that assms(1) tokens_nonneg[of s p] inside_nonneg[of s p] by linarith
  with assms show ?thesis by (cases "0 < event_ref st") (auto simp: stage_ok_def disconnect_loop_def Let_def)
qed

lemma inv_disconnect:
  assumes i: "pool_ok p" and d: "disconnect_start (stages p s) = Inr st"
  shows "pool_ok (upd_stage s st p)"
proof -
  have c: "connected (stages p s)"
    and st: "st = disconnect_loop ((stages p s)\<lparr>connected := False, disconnecting := True\<rparr>)"
    using d by (auto simp: disconnect_start_def split: if_splits)
  note D = stage_okD[OF invD(1)[OF i, of s]]
  have "stage_ok s (upd_stage s st p)" unfolding st by (rule loop_ok) (use c D in auto)
  then show ?thesis by (rule inv_stage0[OF i])
qed

lemma inv_resume:
  assumes i: "pool_ok p" and d: "disconnect_resume (stages p s) = Some st"
  shows "pool_ok (upd_stage s st p)"
proof -
  have c: "disconnecting (stages p s)" "\<not> waiting (stages p s)" and st: "st = disconnect_loop (stages p s)"
    using d by (auto simp: disconnect_resume_def split: if_splits)
  note D = stage_okD[OF invD(1)[OF i, of s]]
  have "stage_ok s (upd_stage s st p)" unfolding st by (rule loop_ok) (use c D in auto)
  then show ?thesis by (rule inv_stage0[OF i])
qed

lemma inv_wake:
  "pool_ok p \<Longrightarrow> waiting (stages p s) \<Longrightarrow> pool_ok (upd_stage s (signal_disconnect (stages p s)) p)"
  using invD(1)[of p s] by (intro inv_stage0) (auto simp: stage_ok_def signal_disconnect_def Let_def)

lemma inv_add_event:
  assumes i: "pool_ok p" and e: "add_event e (stages p s) = (st, b)" "s \<noteq> killer" "may_call a p"
  shows "pool_ok ((upd_stage s st p)\<lparr>calls := calls p @ (if b then [(s, a)] else [])\<rparr>)" (is "pool_ok ?p")
proof (rule invI)
  note D = stage_okD[OF invD(1)[OF i, of s]]
  have st: "b = connected (stages p s)" "event_list st = event_list (stages p s) @ [e]"
      "connected st = connected (stages p s)" "th_pool st = th_pool (stages p s)"
      "disconnecting st = disconnecting (stages p s)" "waiting st = waiting (stages p s)" "event_ref st = event_ref (stages p s) + of_bool b"
    using e(1) by (auto simp: add_event_def Let_def split: if_splits)
  show "stage_ok s' ?p" for s'
  proof (cases "s' = s")
    case True
    then show ?thesis using D e(2) by (auto simp: stage_ok_def Let_def st)
  next
    case False
    then show ?thesis using invD(1)[OF i, of s'] stage_ok_cong[of ?p s' p] by simp
  qed
  show "sleep_ok ?p" by (rule sleep_ok_cong[OF invD(2)[OF i]]) simp_all
  show "calls_ok ?p"
  proof -
    have "t < length (threads p) \<and> handling (threads p ! t)" if "a = Some t" for t
      using e(3) that by (auto simp: may_call_def)
    with invD(3)[OF i] show ?thesis by (auto simp: calls_ok_def)
  qed
  show "kill_ok ?p" using invD(4)[OF i] e(2) by (auto simp: kill_ok_def)
qed

text \<open>The steps of the pool: the run queue, the calls and one thread change.\<close>

lemma calls_ok_thread:
  assumes c: "calls_ok p" "set (calls p') \<subseteq> set (calls p)" and t: "threads p' = (threads p)[t := th]"
    and h: "\<not> handling (threads p ! t) \<or> (\<forall>c \<in> set (calls p'). snd c \<noteq> Some t) \<or> handling th"
  shows "calls_ok p'"
  unfolding calls_ok_def
proof (intro allI impI)
  fix s u
  assume m: "(s, Some u) \<in> set (calls p')"
  then have u: "u < length (threads p)" "handling (threads p ! u)" using c by (auto simp: calls_ok_def)
  then show "u < length (threads p') \<and> handling (threads p' ! u)"
  proof (cases "u = t")
    case True
    then have "handling th" using h u(2) m by auto
    then show ?thesis using True u t by simp
  qed (use u t in simp)
qed

lemma handling_iff: "handling th \<longleftrightarrow> (\<exists>s e. th = Running s e \<and> s \<noteq> killer)"
  by (cases th) auto

lemma handling_awake: "handling th \<Longrightarrow> awake th \<and> \<not> doomed th"
  by (cases th) auto

lemma doomed_awake: "doomed th \<Longrightarrow> awake th"
  by (cases th) auto

lemma asleep_idle: "cnt (\<lambda>th. th = Sleeping) ths \<le> cnt (\<lambda>th. th = Sleeping \<or> th = Woken) ths"
  by (rule cnt_mono) simp

text \<open>When no thread is signalled, none sleeps, or the awake ones are enough for the longer queue.\<close>

lemma unsignalled:
  assumes idle: "int n = cnt (\<lambda>th. th = Sleeping \<or> th = Woken) ths"
    and wake: "cnt (\<lambda>th. th = Sleeping) ths = 0 \<or> int (length q) + cnt doomed ths \<le> cnt awake ths"
    and own: "a \<noteq> None \<Longrightarrow> cnt doomed ths + 1 \<le> cnt awake ths"
    and none: "(q \<noteq> [] \<or> a = None) \<and> n > 0 \<longrightarrow> Sleeping \<notin> set ths"
  shows "cnt (\<lambda>th. th = Sleeping) ths = 0 \<or> int (length q) + 1 + cnt doomed ths \<le> cnt awake ths"
proof (cases "(q \<noteq> [] \<or> a = None) \<and> n > 0")
  case True
  with none show ?thesis by (auto simp: cnt_zero)
next
  case False
  show ?thesis
  proof (cases "n = 0")
    case True
    then show ?thesis using idle asleep_idle[of ths] cnt_nonneg[of "\<lambda>th. th = Sleeping" ths] by linarith
  next
    case ni: False
    with False have "q = []" "a \<noteq> None" by auto
    with own show ?thesis by simp
  qed
qed

lemma inv_schedule:
  assumes i: "pool_ok p" and c: "calls p = xs @ (s, a) # ys"
    and r: "schedule s (a \<noteq> None) w (p\<lparr>calls := xs @ ys\<rparr>) = Inr (Some p')"
  shows "pool_ok p'"
proof -
  let ?q = "p\<lparr>calls := xs @ ys, run_queue := run_queue p @ [s]\<rparr>"
  let ?sig = "(run_queue p \<noteq> [] \<or> a = None) \<and> n_idles p > 0"
  have p': "if ?sig then cond_signal w ?q = Some p' else p' = ?q"
    using r by (auto simp: schedule_def Let_def split: if_splits)
  consider "p' = ?q" "?sig \<longrightarrow> Sleeping \<notin> set (threads p)"
    | n where "?sig" "n < length (threads p)" "threads p ! n = Sleeping" "p' = upd_thread n Woken ?q"
    using p' by (auto simp: cond_signal_def split: if_splits option.splits)
  note C = this
  have tk: "tokens s' ?q = tokens s' p" "inside s' ?q = inside s' p" for s'
    by (simp_all add: tokens_def inside_def c)
  have idle: "int (n_idles p) = cnt (\<lambda>th. th = Sleeping \<or> th = Woken) (threads p)"
    and wake: "cnt (\<lambda>th. th = Sleeping) (threads p) = 0 \<or>
      int (length (run_queue p)) + cnt doomed (threads p) \<le> cnt awake (threads p)"
    using invD(2)[OF i] by (auto simp: sleep_ok_def)
  have own: "cnt doomed (threads p) + 1 \<le> cnt awake (threads p)" if "a = Some t" for t
    using invD(3)[OF i] that handling_awake[of "threads p ! t"] c
    by (intro cnt_less[of doomed awake t]) (auto simp: calls_ok_def doomed_awake)
  have own': "a \<noteq> None \<Longrightarrow> cnt doomed (threads p) + 1 \<le> cnt awake (threads p)" using own by (cases a) auto
  from C show ?thesis
  proof cases
    case 1
    have "cnt (\<lambda>th. th = Sleeping) (threads p) = 0 \<or>
        int (length (run_queue p @ [s])) + cnt doomed (threads p) \<le> cnt awake (threads p)"
      using unsignalled[OF idle wake own' 1(2)] by (simp add: ac_simps)
    then show ?thesis
      using i tk 1(1) idle c by (auto simp: pool_ok_def stage_ok_def sleep_ok_def calls_ok_def kill_ok_def Let_def)
  next
    case 2
    have tk2: "tokens s' p' = tokens s' p" "inside s' p' = inside s' p" for s'
      using 2 tk[of s'] by simp_all
    have "sleep_ok p'"
      using 2 idle wake cnt_pos[of n "threads p" "\<lambda>th. th = Sleeping"] by (auto simp: sleep_ok_def)
    moreover have "calls_ok p'"
      using 2 c by (intro calls_ok_thread[OF invD(3)[OF i], of _ n Woken]) auto
    moreover have "kill_ok p'" using invD(4)[OF i] tk2 2 by (simp add: kill_ok_def)
    moreover have "stage_ok s' p'" for s'
      using invD(1)[OF i, of s'] stage_ok_cong[of p' s' p] tk2 2(4) by simp
    ultimately show ?thesis by (intro invI)
  qed
qed

lemma take_stage_Some:
  assumes "take_stage t p = Some p'"
  shows "\<exists>s q. run_queue p = s # q \<and> (threads p ! t = At_top \<or> threads p ! t = Woken) \<and>
    p' = upd_thread t (Took s)
      (p\<lparr>run_queue := q, n_idles := (if threads p ! t = Woken then n_idles p - 1 else n_idles p)\<rparr>)"
  using assms by (auto simp: take_stage_def split: list.splits if_splits)

lemma fall_asleep_Some:
  assumes "fall_asleep t p = Some p'"
  shows "run_queue p = [] \<and> (threads p ! t = At_top \<or> threads p ! t = Woken) \<and>
    p' = upd_thread t Sleeping (p\<lparr>n_idles := (if threads p ! t = Woken then n_idles p else n_idles p + 1)\<rparr>)"
  using assms by (auto simp: fall_asleep_def split: if_splits)

lemma inv_take:
  assumes i: "pool_ok p" and t: "t < length (threads p)" "take_stage t p = Some p'"
  shows "pool_ok p'"
proof -
  obtain s q n where q: "run_queue p = s # q" and th: "threads p ! t = At_top \<or> threads p ! t = Woken"
    and n_def: "n = (if threads p ! t = Woken then n_idles p - 1 else n_idles p)"
    and p': "p' = upd_thread t (Took s) (p\<lparr>run_queue := q, n_idles := n\<rparr>)"
    using take_stage_Some[OF t(2)] by blast
  have tk: "tokens s' p' = tokens s' p" "inside s' p' = inside s' p" for s'
    using t(1) th by (auto simp: p' q)
  have pos: "threads p ! t = Woken \<Longrightarrow> 0 < cnt (\<lambda>th. th = Sleeping \<or> th = Woken) (threads p)"
    using cnt_pos[OF t(1), of "\<lambda>th. th = Sleeping \<or> th = Woken"] by simp
  have "sleep_ok p'"
    using invD(2)[OF i] t(1) th pos by (auto simp: sleep_ok_def p' q n_def)
  moreover have "calls_ok p'"
    using th by (intro calls_ok_thread[OF invD(3)[OF i], of _ t "Took s"]) (auto simp: p')
  moreover have "kill_ok p'"
    using invD(4)[OF i] t(1) th unfolding kill_ok_def tk by (auto simp: p')
  moreover have "stage_ok s' p'" for s'
    using invD(1)[OF i, of s'] stage_ok_cong[of p' s' p] tk by (simp add: p')
  ultimately show ?thesis by (intro invI)
qed

lemma inv_sleep:
  assumes i: "pool_ok p" and t: "t < length (threads p)" "fall_asleep t p = Some p'"
  shows "pool_ok p'"
proof -
  obtain n where q: "run_queue p = []" and th: "threads p ! t = At_top \<or> threads p ! t = Woken"
    and n_def: "n = (if threads p ! t = Woken then n_idles p else n_idles p + 1)"
    and p': "p' = upd_thread t Sleeping (p\<lparr>n_idles := n\<rparr>)"
    using fall_asleep_Some[OF t(2)] by blast
  have tk: "tokens s' p' = tokens s' p" "inside s' p' = inside s' p" for s'
    using t(1) th by (auto simp: p')
  have less: "cnt doomed (threads p) + 1 \<le> cnt awake (threads p)"
    using th doomed_awake t(1) by (intro cnt_less[of doomed awake t]) auto
  have "sleep_ok p'"
    using invD(2)[OF i] t(1) th less q by (auto simp: sleep_ok_def p' n_def)
  moreover have "calls_ok p'"
    using th by (intro calls_ok_thread[OF invD(3)[OF i], of _ t Sleeping]) (auto simp: p')
  moreover have "kill_ok p'" using invD(4)[OF i] tk t(1) th by (auto simp: kill_ok_def p')
  moreover have "stage_ok s' p'" for s'
    using invD(1)[OF i, of s'] stage_ok_cong[of p' s' p] tk by (simp add: p')
  ultimately show ?thesis by (intro invI)
qed

lemma inv_rouse:
  assumes i: "pool_ok p" and t: "t < length (threads p)" "threads p ! t = Sleeping"
  shows "pool_ok (upd_thread t Woken p)" (is "pool_ok ?p")
proof -
  have tk: "tokens s' ?p = tokens s' p" "inside s' ?p = inside s' p" for s'
    using t by auto
  have "sleep_ok ?p"
    using invD(2)[OF i] t cnt_pos[OF t(1), of "\<lambda>th. th = Sleeping"] by (auto simp: sleep_ok_def)
  moreover have "calls_ok ?p"
    using t by (intro calls_ok_thread[OF invD(3)[OF i], of _ t Woken]) auto
  moreover have "kill_ok ?p" using invD(4)[OF i] tk t by (auto simp: kill_ok_def)
  moreover have "stage_ok s' ?p" for s'
    using invD(1)[OF i, of s'] stage_ok_cong[of ?p s' p] tk by simp
  ultimately show ?thesis by (intro invI)
qed

text \<open>The safety of \<open>remove_event\<close>: a thread that has taken a stage finds an event there.\<close>

lemma took_tokens:
  assumes t: "t < length (threads p)" "threads p ! t = Took s"
  shows "0 < tokens s p"
proof -
  have "0 < cnt (\<lambda>th. th = Took s) (threads p)" using cnt_pos[OF t(1)] t(2) by simp
  then show ?thesis
    using cnt_nonneg[of "\<lambda>x. x = s" "run_queue p"] cnt_nonneg[of "\<lambda>c. fst c = s" "calls p"]
    unfolding tokens_def by linarith
qed

lemma took_nonempty:
  assumes i: "pool_ok p" and t: "t < length (threads p)" "threads p ! t = Took s"
  shows "event_list (stages p s) \<noteq> []"
  using stage_okD(2)[OF invD(1)[OF i, of s]] took_tokens[OF t] by auto

lemma called_nonempty:
  assumes i: "pool_ok p" and c: "(s, a) \<in> set (calls p)"
  shows "event_list (stages p s) \<noteq> []"
proof -
  obtain k where "k < length (calls p)" "calls p ! k = (s, a)" using c by (auto simp: in_set_conv_nth)
  then have "0 < cnt (\<lambda>c. fst c = s) (calls p)" using cnt_pos[of k "calls p" "\<lambda>c. fst c = s"] by simp
  then have "0 < tokens s p"
    using cnt_nonneg[of "\<lambda>x. x = s" "run_queue p"] cnt_nonneg[of "\<lambda>th. th = Took s" "threads p"]
    unfolding tokens_def by linarith
  then show ?thesis using stage_okD(2)[OF invD(1)[OF i, of s]] by auto
qed

lemma inv_remove:
  assumes i: "pool_ok p" and t: "t < length (threads p)" "threads p ! t = Took s" "take_event t s p = Inr (e, p')"
  shows "pool_ok p'"
proof -
  obtain es where es: "event_list (stages p s) = e # es"
      "p' = upd_thread t (Running s e) (upd_stage s ((stages p s)\<lparr>event_list := es\<rparr>) p)"
    using t(3) by (auto simp: take_event_def remove_event_def rbind_eq_Inr split: list.splits)
  have "stage_ok s' p'" for s'
  proof (cases "s' = s")
    case True
    note D = stage_okD[OF invD(1)[OF i, of s]]
    have pos: "0 < tokens s p + inside s p"
      using took_tokens[OF t(1,2)] inside_nonneg[of s p] by linarith
    show ?thesis using D t(1,2) es pos by (auto simp: True stage_ok_def Let_def)
  next
    case False
    then show ?thesis using invD(1)[OF i, of s'] stage_ok_cong[of p' s' p] t es by simp
  qed
  moreover have "sleep_ok p'" using invD(2)[OF i] t(1,2) es by (auto simp: sleep_ok_def)
  moreover have "calls_ok p'"
    using t(2) es by (intro calls_ok_thread[OF invD(3)[OF i], of _ t "Running s e"]) auto
  moreover have "kill_ok p'" using invD(4)[OF i] t(1,2) es by (auto simp: kill_ok_def)
  ultimately show ?thesis by (intro invI)
qed

lemma inv_finish:
  assumes i: "pool_ok p" and t: "t < length (threads p)" "threads p ! t = Running s e" "s \<noteq> killer"
    "\<forall>c \<in> set (calls p). snd c \<noteq> Some t"
  shows "pool_ok (finish_event t s p)" (is "pool_ok ?p")
proof -
  note f = finish_event_def release_event_def signal_disconnect_def
  have "stage_ok s' ?p" for s'
  proof (cases "s' = s")
    case True
    note D = stage_okD[OF invD(1)[OF i, of s]]
    have "0 < inside s p" using cnt_pos[OF t(1), of "in_stage s"] t(2) by (simp add: inside_def)
    then show ?thesis using D t by (auto simp: True stage_ok_def Let_def f)
  next
    case False
    then show ?thesis using invD(1)[OF i, of s'] stage_ok_cong[of ?p s' p] t by (simp add: f)
  qed
  moreover have "sleep_ok ?p" using invD(2)[OF i] t by (auto simp: sleep_ok_def f)
  moreover have "calls_ok ?p"
    using t by (intro calls_ok_thread[OF invD(3)[OF i], of _ t At_top]) (auto simp: f)
  moreover have "kill_ok ?p" using invD(4)[OF i] t by (auto simp: kill_ok_def f)
  ultimately show ?thesis by (intro invI)
qed

lemma inv_kill:
  assumes i: "pool_ok p" and t: "t < length (threads p)" "threads p ! t = Running killer e"
  shows "pool_ok (kill_self t p)" (is "pool_ok ?p")
proof -
  note f = kill_self_def thread_kill_def
  have tk: "tokens s' ?p = tokens s' p" "inside s' ?p = inside s' p" for s'
    using t by (auto simp: f Let_def)
  have pos: "0 < cnt alive (threads p)" "0 < cnt running_kill (threads p)"
    using cnt_pos[OF t(1), of alive] cnt_pos[OF t(1), of running_kill] t(2) by simp_all
  have one: "1 \<le> threads_to_kill p" "1 \<le> nthreads p"
    using invD(4)[OF i] pos tokens_nonneg[of killer p] unfolding kill_ok_def by linarith+
  have "kill_ok ?p"
    using invD(4)[OF i] t one unfolding kill_ok_def tk by (auto simp: f Let_def of_nat_diff)
  moreover have "stage_ok s' ?p" for s'
    using invD(1)[OF i, of s'] stage_ok_cong[of ?p s' p] tk by (simp add: f Let_def)
  moreover have "sleep_ok ?p" using invD(2)[OF i] t by (auto simp: sleep_ok_def f Let_def)
  moreover have "calls_ok ?p"
    using t by (intro calls_ok_thread[OF invD(3)[OF i], of _ t Dying]) (auto simp: f Let_def)
  ultimately show ?thesis by (intro invI)
qed

lemma inv_exit:
  assumes i: "pool_ok p" and t: "t < length (threads p)" "threads p ! t = Dying"
  shows "pool_ok (exit_thread t p)" (is "pool_ok ?p")
proof -
  note f = exit_thread_def release_event_def signal_disconnect_def
  have "stage_ok s' ?p" for s'
  proof (cases "s' = killer")
    case True
    note D = stage_okD[OF invD(1)[OF i, of killer]]
    have "0 < inside killer p" using cnt_pos[OF t(1), of "in_stage killer"] t(2) by (simp add: inside_def)
    then show ?thesis using D t by (auto simp: True stage_ok_def Let_def f)
  next
    case False
    then show ?thesis using invD(1)[OF i, of s'] stage_ok_cong[of ?p s' p] t by (simp add: f)
  qed
  moreover have "sleep_ok ?p" using invD(2)[OF i] t by (auto simp: sleep_ok_def f)
  moreover have "calls_ok ?p"
    using t by (intro calls_ok_thread[OF invD(3)[OF i], of _ t Exited]) (auto simp: f)
  moreover have "kill_ok ?p" using invD(4)[OF i] t by (auto simp: kill_ok_def f)
  ultimately show ?thesis by (intro invI)
qed

lemma fold_add_event:
  "connected st \<Longrightarrow>
   fold (\<lambda>e st. fst (add_event e st)) es st =
     st\<lparr>event_list := event_list st @ es, event_ref := event_ref st + int (length es)\<rparr>"
proof (induction es arbitrary: st)
  case Nil
  then show ?case by simp
next
  case (Cons e es)
  let ?st = "st\<lparr>event_list := event_list st @ [e], event_ref := event_ref st + 1\<rparr>"
  have "fst (add_event e st) = ?st" using Cons.prems by (simp add: add_event_def Let_def)
  then show ?case using Cons.IH[of ?st] Cons.prems by (simp add: algebra_simps)
qed

text \<open>Between two kills nothing is left of the first in the killer stage.\<close>

lemma killer_idle:
  assumes i: "pool_ok p" and z: "threads_to_kill p = 0"
  shows "tokens killer p = 0" "cnt running_kill (threads p) = 0" "event_list (stages p killer) = []"
proof -
  have "tokens killer p + cnt running_kill (threads p) = 0"
    using invD(4)[OF i] z by (simp add: kill_ok_def)
  then show t: "tokens killer p = 0" and "cnt running_kill (threads p) = 0"
    using tokens_nonneg[of killer p] cnt_nonneg[of running_kill "threads p"] by linarith+
  then show "event_list (stages p killer) = []" using stage_okD(3)[OF invD(1)[OF i, of killer]] by simp
qed

lemma kill_threads_Inr:
  assumes i: "pool_ok p" and z: "threads_to_kill p = 0" and d: "\<not> disconnecting (stages p killer)"
    and n: "n \<le> length evs"
  shows "kill_threads evs n p = Inr p' \<longleftrightarrow>
    \<not> connected (stages p killer) \<and>
    (let k = min n (nthreads p)
     in p' = (upd_stage killer ((stages p killer)\<lparr>th_pool := Some (pool_name p), connected := True, event_list := take k evs,
                                  event_ref := int k\<rparr>) p)
               \<lparr>threads_to_kill := k, kill_wait := True, calls := calls p @ replicate k (killer, None)\<rparr>)"
  using killer_idle[OF i z] z n
  by (auto simp: kill_threads_def set_pool_def connect_stage_def rbind_def Let_def fold_add_event min_def split: if_splits)

lemma inv_kill_threads:
  assumes i: "pool_ok p" and k: "kill_threads evs n p = Inr p'" "n \<le> length evs" "\<not> disconnecting (stages p killer)"
  shows "pool_ok p'"
proof (cases "threads_to_kill p = 0")
  case False
  then show ?thesis using k(1) i by (auto simp: kill_threads_def)
next
  case True
  define m where "m = min n (nthreads p)"
  note z = killer_idle[OF i True]
  let ?st = "(stages p killer)\<lparr>th_pool := Some (pool_name p), connected := True, event_list := take m evs, event_ref := int m\<rparr>"
  have nc: "\<not> connected (stages p killer)"
    and p': "p' = (upd_stage killer ?st p)
                \<lparr>threads_to_kill := m, kill_wait := True, calls := calls p @ replicate m (killer, None)\<rparr>"
    using k kill_threads_Inr[OF i True k(3,2)] by (auto simp: m_def Let_def)
  have m: "length (take m evs) = m" using k(2) by (simp add: m_def)
  have ins: "inside killer p = 0" using stage_okD(8)[OF invD(1)[OF i, of killer] nc k(3)] by simp
  have "stage_ok s p'" for s
  proof (cases "s = killer")
    case True
    have "tokens killer p' = int m" "inside killer p' = 0" using z ins by (simp_all add: p')
    then show ?thesis using k(3) m stage_okD(6)[OF invD(1)[OF i, of killer]] by (auto simp: True stage_ok_def p' Let_def)
  next
    case False
    then show ?thesis using invD(1)[OF i, of s] stage_ok_cong[of p' s p] by (simp add: p')
  qed
  moreover have "sleep_ok p'" by (rule sleep_ok_cong[OF invD(2)[OF i]]) (simp_all add: p')
  moreover have "calls_ok p'"
    by (rule calls_ok_outside[OF invD(3)[OF i], where k = m and s = killer]) (simp_all add: p')
  moreover have "kill_ok p'" using invD(4)[OF i] z by (simp add: kill_ok_def p' m_def)
  ultimately show ?thesis by (intro invI)
qed

lemma step_ok: "pool_step p a q \<Longrightarrow> pool_ok p \<Longrightarrow> pool_ok q"
proof (induction rule: pool_step.induct)
  case (add_threads n p)
  then show ?case by (rule inv_threads)
next
  case (set_pool p s st)
  then show ?case by - (rule inv_set_pool; assumption)
next
  case (connect ok p s st k b)
  then show ?case by - (rule inv_connect; assumption)
next
  case (disconnect p s st)
  then show ?case by - (rule inv_disconnect; assumption)
next
  case (resume p s st)
  then show ?case by - (rule inv_resume; assumption)
next
  case (unsignalled_wake p s)
  then show ?case by - (rule inv_wake; assumption)
next
  case (kill_threads evs n p p')
  then show ?case by - (rule inv_kill_threads; assumption)
next
  case (add_event e p s st b a)
  then show ?case by - (rule inv_add_event; assumption)
next
  case (schedule p xs s a ys w p')
  then show ?case by - (rule inv_schedule; assumption)
next
  case (take t p p')
  then show ?case by - (rule inv_take; assumption)
next
  case (sleep t p p')
  then show ?case by - (rule inv_sleep; assumption)
next
  case (rouse t p)
  then show ?case by - (rule inv_rouse; assumption)
next
  case (remove t p s e p')
  then show ?case by - (rule inv_remove; assumption)
next
  case (finish t p s e)
  then show ?case by - (rule inv_finish; assumption)
next
  case (kill t p e)
  then show ?case by - (rule inv_kill; assumption)
next
  case (exit t p)
  then show ?case by - (rule inv_exit; assumption)
qed

lemma run_ok: "pool_run p as q \<Longrightarrow> pool_ok p \<Longrightarrow> pool_ok q"
  by (induction rule: pool_run.induct) (auto dest: step_ok)

lemma reachable_ok: "reachable p \<Longrightarrow> pool_ok p"
  by (auto simp: reachable_def intro: run_ok inv_new)

section \<open>What the stages see: first in, first out\<close>

fun added :: "nat \<Rightarrow> 'e action \<Rightarrow> 'e list" where
  "added s (Added s' e) = (if s' = s then [e] else [])"
| "added s _ = []"

fun removed :: "nat \<Rightarrow> 'e action \<Rightarrow> 'e list" where
  "removed s (Removed s' e) = (if s' = s then [e] else [])"
| "removed s _ = []"

lemma cond_signal_stages: "cond_signal w p = Some q \<Longrightarrow> stages q = stages p \<and> kill_wait q = kill_wait p \<and>
    threads_to_kill q = threads_to_kill p"
  by (auto simp: cond_signal_def split: option.splits if_splits)

lemma schedule_stages: "schedule s b w p = Inr (Some q) \<Longrightarrow> stages q = stages p \<and> kill_wait q = kill_wait p \<and>
    threads_to_kill q = threads_to_kill p"
  by (auto simp: schedule_def Let_def dest: cond_signal_stages split: if_splits)

lemma take_stages:
  "take_stage t p = Some q \<Longrightarrow> stages q = stages p \<and> kill_wait q = kill_wait p \<and> threads_to_kill q = threads_to_kill p"
  by (auto simp: take_stage_def split: list.splits if_splits)

lemma sleep_stages:
  "fall_asleep t p = Some q \<Longrightarrow> stages q = stages p \<and> kill_wait q = kill_wait p \<and> threads_to_kill q = threads_to_kill p"
  by (auto simp: fall_asleep_def split: if_splits)

lemma take_event_Inr:
  "take_event t s p = Inr (e, q) \<longleftrightarrow>
     (\<exists>es. event_list (stages p s) = e # es \<and>
           q = upd_thread t (Running s e) (upd_stage s ((stages p s)\<lparr>event_list := es\<rparr>) p))"
  by (auto simp: take_event_def remove_event_def rbind_eq_Inr split: list.splits)

lemma kill_threads_stages: "kill_threads evs n p = Inr q \<Longrightarrow> s \<noteq> killer \<Longrightarrow> stages q s = stages p s"
  by (auto simp: kill_threads_def rbind_eq_Inr Let_def split: if_splits)

lemma step_queue:
  "pool_step p a q \<Longrightarrow> s \<noteq> killer \<Longrightarrow>
   removed s a @ event_list (stages q s) = event_list (stages p s) @ added s a"
proof (induction rule: pool_step.induct)
  case (kill_threads evs n p p')
  then show ?case using kill_threads_stages[of evs n p p' s] by simp
next
  case (schedule p xs s a ys w p')
  then show ?case using schedule_stages by fastforce
next
  case (take t p p')
  then show ?case using take_stages by fastforce
next
  case (sleep t p p')
  then show ?case using sleep_stages by fastforce
qed (auto simp: add_threads_def set_pool_def connect_stage_def disconnect_start_def disconnect_resume_def disconnect_loop_def signal_disconnect_def add_event_def
      take_event_Inr finish_event_def release_event_def kill_self_def thread_kill_def exit_thread_def Let_def
      split: if_splits)

lemma run_queue_trace:
  "pool_run p as q \<Longrightarrow> s \<noteq> killer \<Longrightarrow>
   concat (map (removed s) as) @ event_list (stages q s) = event_list (stages p s) @ concat (map (added s) as)"
proof (induction rule: pool_run.induct)
  case (run_snoc p as q a r)
  have "concat (map (removed s) (as @ [a])) @ event_list (stages r s) =
      concat (map (removed s) as) @ removed s a @ event_list (stages r s)" by simp
  also have "\<dots> = (concat (map (removed s) as) @ event_list (stages q s)) @ added s a"
    using step_queue[OF run_snoc.hyps(2) run_snoc.prems] by simp
  also have "\<dots> = event_list (stages p s) @ concat (map (added s) (as @ [a]))"
    using run_snoc.IH[OF run_snoc.prems] by simp
  finally show ?case .
qed simp

section \<open>Progress\<close>

text \<open>The steps the pool takes by itself. Spurious wake-ups are left out, and a handler may end when it likes.\<close>

fun internal :: "'e action \<Rightarrow> bool" where
  "internal (Scheduled s) = True"
| "internal (Taken t) = True"
| "internal (Slept t) = True"
| "internal (Removed s e) = True"
| "internal (Finished t) = True"
| "internal (Killed t) = True"
| "internal (Released t) = True"
| "internal _ = False"

fun thread_work :: "'e thread \<Rightarrow> nat" where
  "thread_work At_top = 1"
| "thread_work Woken = 1"
| "thread_work (Took s) = 4"
| "thread_work (Running s e) = 3"
| "thread_work Dying = 2"
| "thread_work _ = 0"

definition work :: "'e pool \<Rightarrow> nat" where
  "work p = 6 * length (calls p) + 4 * length (run_queue p) + sum_list (map thread_work (threads p))"

lemma sum_list_map_update:
  fixes f :: "'a \<Rightarrow> nat"
  assumes "t < length ths"
  shows "sum_list (map f (ths[t := th])) + f (ths ! t) = sum_list (map f ths) + f th"
  using assms
proof (induction ths arbitrary: t)
  case (Cons y ys)
  then show ?case by (cases t) (auto simp: add.assoc add.left_commute)
qed simp

lemma work_thread:
  "t < length (threads p) \<Longrightarrow>
   work (upd_thread t th p) + thread_work (threads p ! t) = work p + thread_work th"
  using sum_list_map_update[of t "threads p" thread_work th] by (simp add: work_def)

lemma work_simps [simp]:
  "work (upd_stage s st p) = work p" "work (p\<lparr>n_idles := n\<rparr>) = work p"
  "work (p\<lparr>nthreads := n, threads_to_kill := k, kill_wait := b\<rparr>) = work p"
  by (simp_all add: work_def)

lemma step_work: "pool_step p a q \<Longrightarrow> internal a \<Longrightarrow> work q < work p"
proof (induction rule: pool_step.induct)
  case (schedule p xs s a ys w p')
  let ?p1 = "p\<lparr>calls := xs @ ys, run_queue := run_queue p @ [s]\<rparr>"
  have w1: "work ?p1 + 2 = work p" using schedule.hyps(1) by (simp add: work_def)
  have "p' = ?p1 \<or> (\<exists>i. i < length (threads ?p1) \<and> threads ?p1 ! i = Sleeping \<and> p' = upd_thread i Woken ?p1)"
    using schedule.hyps(2) by (auto simp: schedule_def cond_signal_def Let_def split: if_splits option.splits)
  then show ?case
  proof
    assume "\<exists>i. i < length (threads ?p1) \<and> threads ?p1 ! i = Sleeping \<and> p' = upd_thread i Woken ?p1"
    then obtain i where i: "i < length (threads ?p1)" "threads ?p1 ! i = Sleeping" "p' = upd_thread i Woken ?p1" by blast
    then show ?thesis using work_thread[OF i(1), of Woken] w1 by simp
  qed (use w1 in simp)
next
  case (take t p p')
  obtain s q n where q: "run_queue p = s # q" and th: "threads p ! t = At_top \<or> threads p ! t = Woken"
    and p': "p' = upd_thread t (Took s) (p\<lparr>run_queue := q, n_idles := n\<rparr>)"
    using take_stage_Some[OF take.hyps(2)] by blast
  have "work (p\<lparr>run_queue := q, n_idles := n\<rparr>) + 4 = work p" using q by (simp add: work_def)
  moreover have "work p' + 1 = work (p\<lparr>run_queue := q, n_idles := n\<rparr>) + 4"
    using work_thread[of t "p\<lparr>run_queue := q, n_idles := n\<rparr>" "Took s"] take.hyps(1) th p' by auto
  ultimately show ?case by linarith
next
  case (sleep t p p')
  obtain n where th: "threads p ! t = At_top \<or> threads p ! t = Woken" and p': "p' = upd_thread t Sleeping (p\<lparr>n_idles := n\<rparr>)"
    using fall_asleep_Some[OF sleep.hyps(2)] by blast
  then show ?case using work_thread[of t "p\<lparr>n_idles := n\<rparr>" Sleeping] sleep.hyps(1) by auto
next
  case (remove t p s e p')
  then obtain es where "p' = upd_thread t (Running s e) (upd_stage s ((stages p s)\<lparr>event_list := es\<rparr>) p)"
    by (auto simp: take_event_Inr)
  then show ?case
    using work_thread[of t "upd_stage s ((stages p s)\<lparr>event_list := es\<rparr>) p" "Running s e"] remove.hyps by simp
next
  case (finish t p s e)
  then show ?case using work_thread[of t "upd_stage s (release_event (stages p s)) p" At_top]
    by (simp add: finish_event_def)
next
  case (kill t p e)
  then show ?case using work_thread[of t "thread_kill p" Dying] by (simp add: kill_self_def thread_kill_def Let_def)
next
  case (exit t p)
  then show ?case using work_thread[of t "upd_stage killer (release_event (stages p killer)) p" Exited]
    by (simp add: exit_thread_def)
qed simp_all

lemma run_work: "pool_run p as q \<Longrightarrow> \<forall>a \<in> set as. internal a \<Longrightarrow> length as + work q \<le> work p"
proof (induction rule: pool_run.induct)
  case (run_snoc p as q a r)
  then show ?case using step_work[OF run_snoc.hyps(2)] by simp
qed simp

text \<open>A step of the pool itself is possible as long as a call is pending or a thread is not idle.\<close>

definition can_move :: "'e pool \<Rightarrow> bool" where
  "can_move p \<longleftrightarrow> (\<exists>a q. pool_step p a q \<and> internal a)"

lemma can_moveI: "pool_step p a q \<Longrightarrow> internal a \<Longrightarrow> can_move p"
  by (auto simp: can_move_def)

lemma can_signal: "\<exists>w q. cond_signal w p = Some q"
proof (cases "Sleeping \<in> set (threads p)")
  case True
  then obtain i where "i < length (threads p)" "threads p ! i = Sleeping" by (auto simp: in_set_conv_nth)
  then show ?thesis by (intro exI[of _ "Some i"]) (simp add: cond_signal_def)
next
  case False
  then show ?thesis by (intro exI[of _ None]) (simp add: cond_signal_def)
qed

lemma schedule_total: "\<not> qempty (stages p s) \<Longrightarrow> \<exists>w q. schedule s b w p = Inr (Some q)"
  using can_signal[of "p\<lparr>run_queue := run_queue p @ [s]\<rparr>"] by (auto simp: schedule_def Let_def)

lemma call_moves:
  assumes i: "pool_ok p" and c: "calls p \<noteq> []"
  shows "can_move p"
proof -
  obtain s a ys where cs: "calls p = [] @ (s, a) # ys" using c by (cases "calls p") auto
  then have "\<not> qempty (stages (p\<lparr>calls := [] @ ys\<rparr>) s)"
    using called_nonempty[OF i, of s a] by (simp add: qempty_def)
  then obtain w q where "schedule s (a \<noteq> None) w (p\<lparr>calls := [] @ ys\<rparr>) = Inr (Some q)"
    using schedule_total by blast
  then show ?thesis using pool_step.schedule[OF cs] by (intro can_moveI[of p "Scheduled s" q]) simp_all
qed

lemma thread_moves:
  assumes i: "pool_ok p" and c: "calls p = []" and t: "t < length (threads p)"
    and th: "threads p ! t \<noteq> Sleeping" "threads p ! t \<noteq> Exited"
  shows "can_move p"
proof (cases "threads p ! t")
  case (Took s)
  then obtain e es where "event_list (stages p s) = e # es" using took_nonempty[OF i t] by (auto simp: neq_Nil_conv)
  then have "\<exists>q. take_event t s p = Inr (e, q)" by (simp add: take_event_Inr)
  then show ?thesis using pool_step.remove[OF t Took] by (auto intro: can_moveI)
next
  case (Running s e)
  then show ?thesis
    using pool_step.finish[OF t Running] pool_step.kill[OF t, of e] c by (cases "s = killer") (auto intro: can_moveI)
next
  case Dying
  then show ?thesis using pool_step.exit[OF t] by (auto intro: can_moveI)
next
  case At_top
  then show ?thesis
    using pool_step.take[OF t] pool_step.sleep[OF t]
    by (cases "run_queue p") (auto simp: take_stage_def fall_asleep_def intro: can_moveI)
next
  case Woken
  then show ?thesis
    using pool_step.take[OF t] pool_step.sleep[OF t]
    by (cases "run_queue p") (auto simp: take_stage_def fall_asleep_def intro: can_moveI)
qed (use th in simp_all)

text \<open>No wake-up is lost: when nothing can move, no work is left, unless there is nobody to do it.\<close>

lemma at_rest:
  assumes i: "pool_ok p" and r: "\<not> can_move p"
  shows "calls p = []" "\<forall>th \<in> set (threads p). th = Sleeping \<or> th = Exited" "threads_to_kill p = 0"
    "Sleeping \<in> set (threads p) \<Longrightarrow> connected (stages p s) \<Longrightarrow> event_list (stages p s) = []"
proof -
  show c: "calls p = []" using call_moves[OF i] r by blast
  have idle: "threads p ! t = Sleeping \<or> threads p ! t = Exited" if "t < length (threads p)" for t
    using thread_moves[OF i c that] r by blast
  show th: "\<forall>th \<in> set (threads p). th = Sleeping \<or> th = Exited"
  proof
    fix th assume "th \<in> set (threads p)"
    then obtain t where "t < length (threads p)" "threads p ! t = th" by (auto simp: in_set_conv_nth)
    then show "th = Sleeping \<or> th = Exited" using idle by blast
  qed
  have none: "cnt P (threads p) = 0" if "\<not> P Sleeping" "\<not> P Exited" for P :: "'a thread \<Rightarrow> bool"
    using th that by (auto simp: cnt_zero)
  have empty: "run_queue p = []" if "Sleeping \<in> set (threads p)"
  proof -
    have "cnt (\<lambda>th. th = Sleeping) (threads p) \<noteq> 0" using that by (auto simp: cnt_zero)
    then have "int (length (run_queue p)) + cnt doomed (threads p) \<le> cnt awake (threads p)"
      using invD(2)[OF i] by (auto simp: sleep_ok_def)
    then show ?thesis using none[of doomed] none[of awake] by simp
  qed
  have tok: "tokens s p = 0" if "Sleeping \<in> set (threads p)" for s
    using empty[OF that] c none[of "\<lambda>th. th = Took s"] by (simp add: tokens_def)
  show "threads_to_kill p = 0"
  proof (cases "Sleeping \<in> set (threads p)")
    case True
    then show ?thesis using invD(4)[OF i] tok[of killer] none[of running_kill] by (simp add: kill_ok_def)
  next
    case False
    then have "cnt alive (threads p) = 0" using th by (auto simp: cnt_zero)
    then show ?thesis using invD(4)[OF i] by (simp add: kill_ok_def)
  qed
  show "event_list (stages p s) = []" if "Sleeping \<in> set (threads p)" "connected (stages p s)"
    using stage_okD(3)[OF invD(1)[OF i, of s]] that tok[of s] by simp
qed

text \<open>What a stage has left in the pool, as the counter of \<open>disconnect\<close> sees it.\<close>

definition left_in_pool :: "nat \<Rightarrow> 'e pool \<Rightarrow> bool" where
  "left_in_pool s p \<longleftrightarrow>
     s \<in> set (run_queue p) \<or> (\<exists>c \<in> set (calls p). fst c = s) \<or> (\<exists>th \<in> set (threads p). th = Took s \<or> in_stage s th)"

lemma left_counted: "left_in_pool s p \<longleftrightarrow> 0 < tokens s p + inside s p"
proof -
  have "tokens s p + inside s p = 0 \<longleftrightarrow> cnt (\<lambda>x. x = s) (run_queue p) = 0 \<and> cnt (\<lambda>c. fst c = s) (calls p) = 0 \<and>
      cnt (\<lambda>th. th = Took s) (threads p) = 0 \<and> cnt (in_stage s) (threads p) = 0"
    using cnt_nonneg[of "\<lambda>x. x = s" "run_queue p"] cnt_nonneg[of "\<lambda>c. fst c = s" "calls p"]
      cnt_nonneg[of "\<lambda>th. th = Took s" "threads p"] cnt_nonneg[of "in_stage s" "threads p"]
    unfolding tokens_def inside_def by linarith
  also have "\<dots> \<longleftrightarrow> \<not> left_in_pool s p" by (auto simp: cnt_zero left_in_pool_def)
  finally show ?thesis using tokens_nonneg[of s p] inside_nonneg[of s p] by linarith
qed

lemma rest_empty:
  assumes i: "pool_ok p" and r: "\<not> can_move p" and th: "th \<in> set (threads p)" "th \<noteq> Exited"
  shows "\<not> left_in_pool s p"
proof -
  note a = at_rest[OF i r]
  have sl: "Sleeping \<in> set (threads p)" using bspec[OF a(2) th(1)] th by auto
  have none: "cnt P (threads p) = 0" if "\<not> P Sleeping" "\<not> P Exited" for P :: "'a thread \<Rightarrow> bool"
    using a(2) that by (auto simp: cnt_zero)
  have "cnt (\<lambda>th. th = Sleeping) (threads p) \<noteq> 0" using sl by (auto simp: cnt_zero)
  then have "int (length (run_queue p)) + cnt doomed (threads p) \<le> cnt awake (threads p)"
    using invD(2)[OF i] by (auto simp: sleep_ok_def)
  then have "run_queue p = []" using none[of doomed] none[of awake] by simp
  with a(1) none[of "\<lambda>th. th = Took s"] none[of "in_stage s"] show ?thesis
    unfolding left_counted by (simp add: tokens_def inside_def)
qed

section \<open>A pool with one thread and one stage\<close>

text \<open>Stage \<open>1\<close> is connected to a pool of one thread, and an event is added and scheduled.\<close>

definition pool_ready :: "'e pool" where
  "pool_ready =
     (let st = \<lparr>event_list = [], connected = True, disconnecting = False, waiting = False, event_ref = 0, th_pool = Some ''p'', next_stages = []\<rparr>
      in (add_threads 1 (new_pool ''p''))\<lparr>stages := (\<lambda>_. new_stage)(1 := st)\<rparr>)"

definition pool_busy :: "nat pool" where
  "pool_busy =
     (let st = \<lparr>event_list = [7], connected = True, disconnecting = False, waiting = False, event_ref = 1, th_pool = Some ''p'', next_stages = []\<rparr>
      in upd_thread 0 (Took 1) (pool_ready\<lparr>stages := (\<lambda>_. new_stage)(1 := st)\<rparr>))"

lemma run_step: "pool_run p as q \<Longrightarrow> pool_step q a r \<Longrightarrow> bs = as @ [a] \<Longrightarrow> pool_run p bs r"
  using run_snoc by blast

lemma ready_run: "pool_run (new_pool ''p'') [Env, Env, Env] pool_ready"
proof -
  let ?p1 = "add_threads 1 (new_pool ''p'') :: 'a pool"
  let ?s1 = "new_stage\<lparr>th_pool := Some ''p''\<rparr> :: 'a stage"
  let ?s2 = "?s1\<lparr>event_ref := 0, connected := True\<rparr>"
  have "pool_run (new_pool ''p'') [Env] ?p1" by (rule run_step[OF run_nil pool_step.add_threads]) simp
  moreover have "pool_step ?p1 Env (upd_stage 1 ?s1 ?p1)"
    by (rule pool_step.set_pool) (simp_all add: set_pool_def new_pool_def add_threads_def new_stage_def killer_def)
  ultimately have "pool_run (new_pool ''p'') [Env, Env] (upd_stage 1 ?s1 ?p1)" by (rule run_step) simp
  moreover have "pool_step (upd_stage 1 ?s1 ?p1) Env ((upd_stage 1 ?s2 (upd_stage 1 ?s1 ?p1))\<lparr>calls := calls (upd_stage 1 ?s1 ?p1) @ replicate 0 (1, None)\<rparr>)"
    by (rule pool_step.connect[where ok = True and b = True])
      (simp_all add: connect_stage_def new_pool_def add_threads_def new_stage_def killer_def)
  ultimately have "pool_run (new_pool ''p'') [Env, Env, Env] ((upd_stage 1 ?s2 (upd_stage 1 ?s1 ?p1))\<lparr>calls := calls (upd_stage 1 ?s1 ?p1) @ replicate 0 (1, None)\<rparr>)"
    by (rule run_step) simp
  then show ?thesis by (simp add: pool_ready_def upd_stage_def add_threads_def new_pool_def new_stage_def)
qed

lemma busy_run: "pool_run (new_pool ''p'') [Env, Env, Env, Added 1 7, Scheduled 1, Taken 0] pool_busy"
proof -
  let ?st = "\<lparr>event_list = [7], connected = True, disconnecting = False, waiting = False, event_ref = 1, th_pool = Some ''p'', next_stages = []\<rparr> :: nat stage"
  let ?p1 = "pool_ready\<lparr>stages := (\<lambda>_. new_stage)(1 := ?st), calls := [(1, None)]\<rparr>"
  let ?p2 = "?p1\<lparr>calls := [], run_queue := [1]\<rparr>"
  note d = pool_ready_def add_threads_def new_pool_def new_stage_def killer_def
  have "pool_step pool_ready (Added 1 7) ((upd_stage 1 ?st pool_ready)\<lparr>calls := calls (pool_ready :: nat pool) @ (if True then [(1, None)] else [])\<rparr>)"
    by (rule pool_step.add_event) (simp_all add: d add_event_def Let_def may_call_def)
  then have "pool_step pool_ready (Added 1 7) ?p1" by (simp add: d upd_stage_def)
  then have "pool_run (new_pool ''p'') [Env, Env, Env, Added 1 7] ?p1" by (rule run_step[OF ready_run]) simp
  moreover have "pool_step ?p1 (Scheduled 1) ?p2"
    by (rule pool_step.schedule[where xs = "[]" and ys = "[]" and a = None and w = None])
      (simp_all add: schedule_def qempty_def Let_def d)
  ultimately have "pool_run (new_pool ''p'') [Env, Env, Env, Added 1 7, Scheduled 1] ?p2" by (rule run_step) simp
  moreover have "pool_step ?p2 (Taken 0) pool_busy"
    by (rule pool_step.take) (simp_all add: take_stage_def pool_busy_def d upd_thread_def)
  ultimately show ?thesis by (rule run_step) simp
qed

lemma reachable_busy: "reachable pool_busy"
  using busy_run by (auto simp: reachable_def)

section \<open>Properties\<close>

text \<open>C7. The assertions of the run loop hold: a service thread that has taken a stage from the run queue finds an
  event in its list (\<open>assert(!event_list_.empty())\<close> in \<open>remove_event\<close>), and a pending \<open>schedule\<close> finds the stage
  non-empty (\<open>assert(!stage->qempty())\<close>), whatever the other threads have done since.\<close>

theorem pool_asserts_hold:
  assumes "reachable p"
  shows "(\<forall>t s. t < length (threads p) \<and> threads p ! t = Took s \<longrightarrow> (\<exists>r. take_event t s p = Inr r)) \<and>
         (\<forall>s a own w. (s, a) \<in> set (calls p) \<longrightarrow> (\<exists>r. schedule s own w p = Inr r))"
proof (intro conjI allI impI)
  note i = reachable_ok[OF assms]
  fix t s assume t: "t < length (threads p) \<and> threads p ! t = Took s"
  then obtain e es where "event_list (stages p s) = e # es"
    using took_nonempty[OF i, of t s] by (auto simp: neq_Nil_conv)
  then show "\<exists>r. take_event t s p = Inr r" by (intro exI[of _ "(e, _)"]) (auto simp: take_event_Inr)
next
  fix s a own w assume "(s, a) \<in> set (calls p)"
  then show "\<exists>r. schedule s own w p = Inr r"
    using called_nonempty[OF reachable_ok[OF assms], of s a] by (simp add: schedule_def qempty_def Let_def)
qed

theorem pool_asserts_hold_witness:
  "threads pool_busy ! 0 = Took 1 \<and> (\<exists>r. take_event 0 1 pool_busy = Inr r)"
  using pool_asserts_hold[OF reachable_busy] by (auto simp: pool_busy_def pool_ready_def Let_def add_threads_def new_pool_def)

text \<open>C21. \<open>disconnect\<close> returns exactly when the stage has nothing left in the pool: no entry in the run queue, no
  \<open>schedule\<close> on its way, and no thread that has taken it or runs its handler. Called on a connected stage it returns
  at once then, and goes to sleep otherwise. A sleeping call is woken: once nothing is left the thread is not
  asleep, so that its next turn makes it return, while a turn before that (a spurious wake-up) puts it back to
  sleep. And it does not wait for ever: in a pool at rest that has a thread, every \<open>disconnect\<close> can return.\<close>

theorem disconnect_waits:
  assumes "reachable p"
  shows "(connected (stages p s) \<longrightarrow>
      (\<exists>st. disconnect_start (stages p s) = Inr st \<and> disconnecting st = left_in_pool s p \<and> waiting st = left_in_pool s p)) \<and>
    (disconnecting (stages p s) \<longrightarrow>
      (left_in_pool s p \<longrightarrow> (\<forall>st. disconnect_resume (stages p s) = Some st \<longrightarrow> disconnecting st \<and> waiting st)) \<and>
      (\<not> left_in_pool s p \<longrightarrow> (\<exists>st. disconnect_resume (stages p s) = Some st \<and> \<not> disconnecting st \<and>
         th_pool st = None \<and> next_stages st = [])) \<and>
      (\<not> can_move p \<and> (\<exists>th \<in> set (threads p). th \<noteq> Exited) \<longrightarrow> \<not> left_in_pool s p))"
proof -
  note i = reachable_ok[OF assms] and D = stage_okD[OF invD(1)[OF reachable_ok[OF assms], of s]]
  have ref: "event_ref (stages p s) > 0 \<longleftrightarrow> left_in_pool s p"
    using D(1) left_counted[of s p] by simp
  have rest: "\<not> left_in_pool s p" if "\<not> can_move p" "\<exists>th \<in> set (threads p). th \<noteq> Exited"
    using rest_empty[OF i that(1)] that(2) by blast
  from ref D(5,6,7) rest show ?thesis
    using left_counted[of s p] by (auto simp: disconnect_start_def disconnect_resume_def disconnect_loop_def)
qed

theorem disconnect_waits_witness:
  "\<exists>st. disconnect_start (stages pool_busy 1) = Inr st \<and> waiting st"
proof -
  have b: "connected (stages pool_busy 1)" "left_in_pool 1 pool_busy"
    by (simp_all add: pool_busy_def pool_ready_def Let_def add_threads_def new_pool_def upd_thread_def left_in_pool_def)
  from disconnect_waits[OF reachable_busy, of 1] b show ?thesis by auto
qed

text \<open>C6. Each stage is a first-in first-out queue to its clients, for any number of threads and any interleaving:
  over a run of the pool from its construction, the events taken from a stage followed by those still in its list
  are the events added to it, in order; none is lost or handled twice.\<close>

theorem stage_fifo:
  assumes "pool_run (new_pool nm) as p" "s \<noteq> killer"
  shows "concat (map (removed s) as) @ event_list (stages p s) = concat (map (added s) as)"
  using run_queue_trace[OF assms] by (simp add: new_pool_def new_stage_def)

theorem stage_fifo_witness: "event_list (stages pool_busy 1) = [7]"
  using stage_fifo[OF busy_run, of 1] by (simp add: killer_def)

text \<open>C5. No wake-up is lost. Left to itself the pool stops after at most \<open>work p\<close> steps, and it goes on as long as
  there is anything to do: where it stops, every call of \<open>schedule\<close> is made, every kill is done, all threads
  wait or are gone, and the list of every connected stage is empty unless no thread is alive. So \<open>schedule\<close>, which
  signals nobody when a thread of the pool puts a stage into an empty run queue, still leaves no event behind.\<close>

theorem pool_drains:
  assumes "reachable p" "pool_run p as q" "\<forall>a \<in> set as. internal a"
  shows "length as \<le> work p \<and>
    (can_move q \<or>
     (calls q = [] \<and> threads_to_kill q = 0 \<and> (\<forall>th \<in> set (threads q). th = Sleeping \<or> th = Exited) \<and>
      ((\<forall>th \<in> set (threads q). th = Exited) \<or> (\<forall>s. connected (stages q s) \<longrightarrow> qempty (stages q s)))))"
proof
  show "length as \<le> work p" using run_work[OF assms(2,3)] by simp
  have i: "pool_ok q" using run_ok[OF assms(2) reachable_ok[OF assms(1)]] .
  show "can_move q \<or>
     (calls q = [] \<and> threads_to_kill q = 0 \<and> (\<forall>th \<in> set (threads q). th = Sleeping \<or> th = Exited) \<and>
      ((\<forall>th \<in> set (threads q). th = Exited) \<or> (\<forall>s. connected (stages q s) \<longrightarrow> qempty (stages q s))))"
  proof (cases "can_move q")
    case False
    note r = at_rest[OF i False]
    show ?thesis
    proof (cases "Sleeping \<in> set (threads q)")
      case True
      with r(1-3) r(4)[OF True] show ?thesis by (simp add: qempty_def)
    next
      case False
      have "th = Exited" if "th \<in> set (threads q)" for th using bspec[OF r(2) that] False that by auto
      with r(1-3) show ?thesis by simp
    qed
  qed simp
qed

theorem pool_drains_witness: "can_move pool_busy"
proof -
  have "threads pool_busy = [Took 1]" by (simp add: pool_busy_def pool_ready_def Let_def add_threads_def new_pool_def upd_thread_def)
  then show ?thesis using pool_drains[OF reachable_busy run_nil] by simp
qed

text \<open>A kill with nothing to kill.\<close>

lemma kill_stuck_step:
  "pool_step p a q \<Longrightarrow> pool_ok p \<Longrightarrow> kill_wait p \<Longrightarrow> threads_to_kill p = 0 \<Longrightarrow> kill_wait q \<and> threads_to_kill q = 0"
proof (induction rule: pool_step.induct)
  case (schedule p xs s a ys w p')
  then show ?case using schedule_stages by fastforce
next
  case (take t p p')
  then show ?case using take_stages by fastforce
next
  case (sleep t p p')
  then show ?case using sleep_stages by fastforce
next
  case (remove t p s e p')
  then show ?case by (auto simp: take_event_Inr)
next
  case (kill t p e)
  then show ?case
    using killer_idle(2)[of p] cnt_pos[of t "threads p" running_kill] by simp
qed (simp_all add: add_threads_def finish_event_def exit_thread_def)

text \<open>\<open>kill_threads\<close> for no thread never returns: it waits for a signal that only the last killed thread sends
  (spurious wake-ups apart), and once it waits with no kill outstanding, it does so after every further run of the pool. So does the
  destructor of a pool without threads, which calls \<open>kill_threads(nthreads_)\<close>.\<close>

theorem kill_none_waits_forever:
  assumes "reachable p" "kill_threads evs n p = Inr q" "n \<le> length evs" "\<not> kill_wait p"
    "\<not> disconnecting (stages p killer)" "threads_to_kill p = 0" "n = 0 \<or> nthreads p = 0" "pool_run q as r"
  shows "kill_wait r"
proof -
  have iq: "pool_ok q" by (rule step_ok[OF pool_step.kill_threads reachable_ok]) (use assms in auto)
  have "kill_wait q \<and> threads_to_kill q = 0"
    using assms(2,6,7) by (auto simp: kill_threads_def rbind_eq_Inr Let_def)
  with assms(8) iq have "kill_wait r \<and> threads_to_kill r = 0"
  proof (induction rule: pool_run.induct)
    case (run_snoc p as q a r)
    then show ?case using kill_stuck_step[of q a r] run_ok[of p as q] by blast
  qed simp
  then show ?thesis by simp
qed

theorem kill_none_waits_forever_witness:
  "\<exists>q. kill_threads [] 3 (new_pool ''p'' :: nat pool) = Inr q \<and> kill_wait q"
proof -
  have "\<exists>q. kill_threads [] 0 (new_pool ''p'' :: nat pool) = Inr q"
    by (simp add: kill_threads_def set_pool_def connect_stage_def rbind_def new_pool_def new_stage_def)
  then obtain q where q: "kill_threads [] 0 (new_pool ''p'' :: nat pool) = Inr q" by blast
  have "reachable (new_pool ''p'' :: nat pool)" using run_nil by (auto simp: reachable_def)
  then have "kill_wait q"
    using kill_none_waits_forever[of "new_pool ''p'' :: nat pool" "[]" 0 q "[]" q] q
    by (simp add: run_nil new_pool_def new_stage_def)
  moreover have "kill_threads [] 3 (new_pool ''p'' :: nat pool) = kill_threads [] 0 (new_pool ''p'')"
    by (simp add: kill_threads_def new_pool_def)
  ultimately show ?thesis using q by simp
qed

end
