(* ===== verification/Ini_Parser.thy ===== *)
theory Ini_Parser
  imports Text_Utils Ordered_Map
begin

text \<open>
  \<open>IniFile\<close> (\<open>src/src/common/ini_parser.cpp\<close>): sections of key-value pairs, looked up with a
  default, added to by \<open>put\<close> and by loading a file line by line (comments, section headers, lines
  continued by a backslash), and dumped by \<open>to_string\<close>. A section pointer is the section's name.
\<close>

section \<open>The object and its operations\<close>

record IniFile =
  sections :: "(string, (string, string) omap) omap"
  file_names :: "string set"

definition init_IniFile :: IniFile where
  "init_IniFile = \<lparr>sections = [], file_names = {}\<rparr>"

definition DEFAULT_SECTION :: string where
  "DEFAULT_SECTION = ''''"

definition MAX_CFG_LINE_LEN :: nat where
  "MAX_CFG_LINE_LEN = 1024"

definition insert_session :: "string \<Rightarrow> IniFile \<Rightarrow> IniFile" where
  "insert_session session_name ini = ini\<lparr>sections := om_insert session_name [] (sections ini)\<rparr>"

definition switch_session :: "string \<Rightarrow> IniFile \<Rightarrow> IniFile" where
  "switch_session session_name ini =
     (case map_of (sections ini) session_name of
        Some _ \<Rightarrow> ini
      | None \<Rightarrow> insert_session session_name ini)"

definition get_section :: "string \<Rightarrow> IniFile \<Rightarrow> (string, string) omap" where
  "get_section section ini = (case map_of (sections ini) section of None \<Rightarrow> [] | Some m \<Rightarrow> m)"

definition get_value :: "string \<Rightarrow> string \<Rightarrow> string \<Rightarrow> IniFile \<Rightarrow> string" where
  "get_value key defaultValue section ini =
     (case map_of (get_section section ini) key of None \<Rightarrow> defaultValue | Some v \<Rightarrow> v)"

definition session_insert :: "string \<Rightarrow> string \<Rightarrow> string \<Rightarrow> IniFile \<Rightarrow> IniFile" where
  "session_insert session key val ini =
     (case map_of (sections ini) session of
        None \<Rightarrow> ini
      | Some m \<Rightarrow> ini\<lparr>sections := om_assign session (om_insert key val m) (sections ini)\<rparr>)"

definition put :: "string \<Rightarrow> string \<Rightarrow> string \<Rightarrow> IniFile \<Rightarrow> int \<times> IniFile" where
  "put key val section ini = (0, session_insert section key val (switch_session section ini))"

definition insert_entry :: "string \<Rightarrow> string \<Rightarrow> IniFile \<Rightarrow> (int \<times> IniFile) res" where
  "insert_entry session line ini =
     (let equal_pos = find_first_of line (CHR ''='')
      in if equal_pos = npos then Inr (-1, ini)
         else rbind (substr line 0 equal_pos) (\<lambda>key0.
              rbind (substr line (equal_pos + 1) npos) (\<lambda>val0.
              rbind (strip_str key0) (\<lambda>key.
              rbind (strip_str val0) (\<lambda>val.
                Inr (0, session_insert session key val ini))))))"

section \<open>Loading\<close>

record loader =
  continue_last_line :: bool
  current_session :: string
  line_entry :: string
  target :: IniFile

text \<open>\<open>ifs.getline (line, n)\<close> on a good stream: the line, the rest, and whether the stream is still
  good; a line that does not fit is cut and the stream fails.\<close>

definition getline_buf :: "nat \<Rightarrow> string \<Rightarrow> string \<times> string \<times> bool" where
  "getline_buf n s =
     (let l = takeWhile (\<lambda>c. c \<noteq> CHR 0x0A) s
      in if length l \<le> n - 1 then
           (if length l = length s then (l, [], False) else (l, drop (length l + 1) s, True))
         else (take (n - 1) s, drop (n - 1) s, False))"

definition load_line :: "string \<Rightarrow> loader \<Rightarrow> loader res" where
  "load_line line st =
     (let read_buf = strip_c (takeWhile (\<lambda>c. c \<noteq> CHR 0x00) line)
      in if length read_buf = 0 then Inr st
         else if hd read_buf = CHR ''#'' then Inr st
         else if hd read_buf = CHR ''['' \<and> last read_buf = CHR '']'' then
           let session_name = tl (butlast read_buf)
           in Inr (st\<lparr>target := switch_session session_name (target st), current_session := session_name\<rparr>)
         else
           let entry = (if continue_last_line st then line_entry st @ read_buf else read_buf)
           in if last read_buf = CHR 0x5C then
                Inr (st\<lparr>continue_last_line := True, line_entry := butlast entry\<rparr>)
              else
                rbind (insert_entry (current_session st) entry (target st)) (\<lambda>(_, ini').
                  Inr (st\<lparr>continue_last_line := False, line_entry := entry, target := ini'\<rparr>)))"

function load_lines :: "loader \<Rightarrow> string \<Rightarrow> loader res" where
  "load_lines st s =
     (let (line, rest, good) = getline_buf MAX_CFG_LINE_LEN s
      in rbind (load_line line st) (\<lambda>st'. if good then load_lines st' rest else Inr st'))"
  by pat_completeness auto

lemma getline_buf_shorter: "(l, r, True) = getline_buf n s \<Longrightarrow> length r < length s"
proof -
  assume a: "(l, r, True) = getline_buf n s"
  let ?l = "takeWhile (\<lambda>c. c \<noteq> CHR 0x0A) s"
  from a have "r = drop (length ?l + 1) s" "length ?l \<noteq> length s"
    by (auto simp: getline_buf_def Let_def split: if_splits)
  moreover have "length ?l \<le> length s" by (rule length_takeWhile_le)
  ultimately show ?thesis by simp
qed

termination load_lines
  by (relation "measure (\<lambda>(_, s). length s)") (auto dest: getline_buf_shorter)

declare load_lines.simps [simp del]

text \<open>A file that cannot be opened leaves the stream not good, so that nothing is read; the name is
  recorded and the result is success all the same.\<close>

definition load :: "string \<Rightarrow> string option \<Rightarrow> IniFile \<Rightarrow> (int \<times> IniFile) res" where
  "load file_name file ini0 =
     (let st0 = \<lparr>continue_last_line = False, current_session = DEFAULT_SECTION, line_entry = '''',
                 target = switch_session DEFAULT_SECTION ini0\<rparr>
      in rbind (case file of None \<Rightarrow> Inr st0 | Some s \<Rightarrow> load_lines st0 s) (\<lambda>st.
           Inr (0, (target st)\<lparr>file_names := insert file_name (file_names (target st))\<rparr>)))"

section \<open>Dumping\<close>

definition dump_section :: "string \<times> (string, string) omap \<Rightarrow> string list" where
  "dump_section sec =
     (''['' @ fst sec @ '']'') # map (\<lambda>(k, v). k @ ''='' @ v) (snd sec) @ ['''']"

definition dump_lines :: "IniFile \<Rightarrow> string list" where
  "dump_lines ini =
     ''Begin dump configuration'' # concat (map dump_section (sections ini)) @ [''Finish dump configuration '']"

definition to_string :: "IniFile \<Rightarrow> string" where
  "to_string ini = concat (map (\<lambda>l. l @ [CHR 0x0A]) (dump_lines ini))"

section \<open>Lookup and update\<close>

definition ini_ok :: "IniFile \<Rightarrow> bool" where
  "ini_ok ini \<longleftrightarrow> om_ok (sections ini) \<and> (\<forall>s m. (s, m) \<in> set (sections ini) \<longrightarrow> om_ok m)"

lemma get_section_switch: "ini_ok ini \<Longrightarrow> get_section s (switch_session s' ini) = get_section s ini"
  by (auto simp: get_section_def switch_session_def insert_session_def ini_ok_def om.find_insert
      split: option.splits)

lemma in_om_assign: "(a, b) \<in> set (om_assign k v m) \<Longrightarrow> b = v \<or> (a, b) \<in> set m"
  by (induction k v m rule: om_assign.induct) (auto split: if_splits)

lemma switch_session_ok: "ini_ok ini \<Longrightarrow> ini_ok (switch_session s ini)"
  by (auto simp: ini_ok_def switch_session_def insert_session_def om.ok_insert om_insert_def om.ok_assign
      split: option.splits dest!: in_om_assign)

lemma session_insert_ok: "ini_ok ini \<Longrightarrow> ini_ok (session_insert s k v ini)"
proof -
  assume ok: "ini_ok ini"
  show ?thesis
  proof (cases "map_of (sections ini) s")
    case (Some m)
    then have "om_ok m" using ok by (auto simp: ini_ok_def dest: map_of_SomeD)
    with ok Some show ?thesis
      by (auto simp: session_insert_def ini_ok_def om.ok_assign om.ok_insert dest!: in_om_assign)
  qed (use ok in \<open>simp add: session_insert_def\<close>)
qed

lemma switch_session_found: "ini_ok ini \<Longrightarrow> \<exists>m. map_of (sections (switch_session s ini)) s = Some m"
  by (cases "map_of (sections ini) s")
     (simp_all add: switch_session_def insert_session_def ini_ok_def om.find_insert)

lemma put_ok: "ini_ok ini \<Longrightarrow> ini_ok (snd (put k v s ini))"
  by (simp add: put_def session_insert_ok switch_session_ok)

lemma get_value_put:
  assumes ok: "ini_ok ini"
  shows "get_value k d s (snd (put k' v s' ini)) =
     (if k = k' \<and> s = s' \<and> map_of (get_section s' ini) k' = None then v else get_value k d s ini)"
proof -
  let ?i = "switch_session s' ini"
  have ok': "ini_ok ?i" using ok by (rule switch_session_ok)
  obtain m where m: "map_of (sections ?i) s' = Some m" using switch_session_found[OF ok] by blast
  then have mok: "om_ok m" using ok' by (auto simp: ini_ok_def dest: map_of_SomeD)
  have gm: "get_section s' ini = m" using get_section_switch[OF ok, of s' s'] m by (simp add: get_section_def)
  have "get_section s (snd (put k' v s' ini)) = (if s = s' then om_insert k' v m else get_section s ini)"
    using m ok' get_section_switch[OF ok, of s s']
    by (auto simp: put_def session_insert_def get_section_def ini_ok_def om.find_assign split: if_splits)
  then show ?thesis using mok gm by (auto simp: get_value_def om.find_insert)
qed

section \<open>Loading a dump\<close>

lemma om_assign_last: "\<forall>k' \<in> fst ` set m. k' < k \<Longrightarrow> om_assign k v m = m @ [(k, v)]"
  by (induction m) auto

lemma last_key_fresh: "\<forall>k' \<in> fst ` set m. k' < (k :: 'k :: linorder) \<Longrightarrow> map_of m k = None"
  by (auto simp: map_of_eq_None_iff)

lemma om_insert_last: "\<forall>k' \<in> fst ` set m. k' < k \<Longrightarrow> om_insert k v m = m @ [(k, v)]"
proof -
  assume a: "\<forall>k' \<in> fst ` set m. k' < k"
  then have "map_of m k = None" by (auto simp: map_of_eq_None_iff)
  with om_assign_last[OF a] show ?thesis by (simp add: om_insert_def)
qed

lemma om_assign_replace_last:
  "\<forall>k' \<in> fst ` set m. k' < k \<Longrightarrow> om_assign k v (m @ [(k, w)]) = m @ [(k, v)]"
  by (induction m) auto

lemma om_ok_snoc: "om_ok (m @ [(k, v)]) \<longleftrightarrow> om_ok m \<and> (\<forall>k' \<in> fst ` set m. k' < k)"
  by (auto simp: om_ok_def sorted_wrt_append)

definition plain_line :: "string \<Rightarrow> bool" where
  "plain_line s \<longleftrightarrow> CHR 0x0A \<notin> set s \<and> CHR 0x00 \<notin> set s \<and> length s < MAX_CFG_LINE_LEN"

definition tight :: "string \<Rightarrow> bool" where
  "tight s \<longleftrightarrow> s \<noteq> [] \<and> \<not> isspace (hd s) \<and> \<not> isspace (last s)"

definition dumpable_entry :: "string \<times> string \<Rightarrow> bool" where
  "dumpable_entry kv \<longleftrightarrow>
     (let (k, v) = kv
      in tight k \<and> tight v \<and> plain_line (k @ ''='' @ v) \<and> CHR ''='' \<notin> set k \<and>
         hd k \<noteq> CHR ''#'' \<and> \<not> (hd k = CHR ''['' \<and> last v = CHR '']'') \<and> last v \<noteq> CHR 0x5C)"

definition dumpable :: "IniFile \<Rightarrow> bool" where
  "dumpable ini \<longleftrightarrow>
     ini_ok ini \<and> map_of (sections ini) DEFAULT_SECTION \<noteq> None \<and>
     list_all (\<lambda>(s, m). plain_line (''['' @ s @ '']'') \<and> list_all dumpable_entry m) (sections ini)"

lemma trimmed_tight: "tight s \<Longrightarrow> trimmed s = s"
proof -
  assume t: "tight s"
  then have "dropWhile isspace s = s" by (cases s) (auto simp: tight_def)
  moreover have "dropWhile isspace (rev s) = rev s"
    using t by (cases s rule: rev_cases) (auto simp: tight_def)
  ultimately show ?thesis by (simp add: trimmed_def)
qed

lemma no_null: "plain_line s \<Longrightarrow> takeWhile (\<lambda>c. c \<noteq> CHR 0x00) s = s"
  by (auto simp: plain_line_def takeWhile_eq_all_conv)

lemma load_line_section:
  assumes "plain_line (''['' @ n @ '']'')"
  shows "load_line (''['' @ n @ '']'') st = Inr (st\<lparr>target := switch_session n (target st), current_session := n\<rparr>)"
proof -
  have "tight (''['' @ n @ '']'')" by (simp add: tight_def isspace_def)
  then have "strip_c (takeWhile (\<lambda>c. c \<noteq> CHR 0x00) (''['' @ n @ '']'')) = ''['' @ n @ '']''"
    unfolding no_null[OF assms] strip_c_eq by (rule trimmed_tight)
  then show ?thesis unfolding load_line_def by (simp add: Let_def butlast_append)
qed

lemma insert_entry_line:
  assumes "tight k" "tight v" "CHR ''='' \<notin> set k" "length (k @ v) < 1024"
  shows "insert_entry cur (k @ ''='' @ v) i = Inr (0, session_insert cur k v i)"
proof -
  have f: "find_first_of (k @ ''='' @ v) (CHR ''='') = int (length k)"
    using find_first_of_split[OF assms(3), of v] by simp
  have k: "substr (k @ ''='' @ v) 0 (int (length k)) = Inr k" by (rule substr_prefix)
  have v: "substr ((k @ ''='') @ v) (int (length k) + 1) npos = Inr v"
    using assms(4) by (intro substr_suffix) (simp_all add: npos_def)
  have ne: "int (length k) \<noteq> npos" using assms(4) by (simp add: npos_def)
  have st: "strip_str k = Inr k" "strip_str v = Inr v"
    using assms(1,2) trimmed_tight by (auto simp: strip_str_eq tight_def)
  show ?thesis using k v ne st unfolding insert_entry_def f Let_def by simp
qed

lemma load_line_plain:
  assumes "strip_c (takeWhile (\<lambda>c. c \<noteq> CHR 0x00) l) = t" "t \<noteq> []" "hd t \<noteq> CHR ''#''"
    "\<not> (hd t = CHR ''['' \<and> last t = CHR '']'')" "last t \<noteq> CHR 0x5C" "\<not> continue_last_line st"
    "insert_entry (current_session st) t (target st) = Inr (r, i)"
  shows "load_line l st = Inr (st\<lparr>continue_last_line := False, line_entry := t, target := i\<rparr>)"
  using assms(2,3,5-) unfolding load_line_def assms(1) Let_def if_not_P[OF assms(4)] by simp

lemma load_line_entry:
  assumes "dumpable_entry (k, v)" "\<not> continue_last_line st"
  shows "load_line (k @ ''='' @ v) st =
     Inr (st\<lparr>continue_last_line := False, line_entry := k @ ''='' @ v,
             target := session_insert (current_session st) k v (target st)\<rparr>)"
proof -
  let ?l = "k @ ''='' @ v"
  from assms(1) have e: "tight k" "tight v" "plain_line ?l" "CHR ''='' \<notin> set k" "hd k \<noteq> CHR ''#''"
      "\<not> (hd k = CHR ''['' \<and> last v = CHR '']'')" "last v \<noteq> CHR 0x5C"
    by (auto simp: dumpable_entry_def)
  have ends: "hd ?l = hd k" "last ?l = last v" "length ?l \<noteq> 0" using e(1,2) by (auto simp: tight_def)
  have "tight ?l" using e(1,2) ends by (simp add: tight_def)
  then have "strip_c (takeWhile (\<lambda>c. c \<noteq> CHR 0x00) ?l) = ?l"
    unfolding no_null[OF e(3)] strip_c_eq by (rule trimmed_tight)
  moreover have "insert_entry (current_session st) ?l (target st) = Inr (0, session_insert (current_session st) k v (target st))"
    using e by (intro insert_entry_line) (simp_all add: plain_line_def MAX_CFG_LINE_LEN_def)
  ultimately show ?thesis
    using ends e(5-7) assms(2) by (intro load_line_plain) auto
qed

lemma load_line_empty: "load_line [] st = Inr st"
  by (simp add: load_line_def strip_c_def)

lemma load_line_banner:
  assumes "l = ''Begin dump configuration'' \<or> l = ''Finish dump configuration ''" "\<not> continue_last_line st"
  shows "\<exists>e. load_line l st = Inr (st\<lparr>continue_last_line := False, line_entry := e\<rparr>)"
proof -
  define t where "t = strip_c (takeWhile (\<lambda>c. c \<noteq> CHR 0x00) l)"
  have "t \<noteq> [] \<and> hd t \<noteq> CHR ''#'' \<and> hd t \<noteq> CHR ''['' \<and> last t \<noteq> CHR 0x5C \<and> find_first_of t (CHR ''='') = npos"
    using assms(1) unfolding t_def by (elim disjE; hypsubst; code_simp)
  then have "load_line l st = Inr (st\<lparr>continue_last_line := False, line_entry := t, target := target st\<rparr>)"
    using assms(2) by (intro load_line_plain[where r = "- 1"]) (auto simp: t_def insert_entry_def Let_def)
  then show ?thesis by (intro exI[of _ t]) simp
qed

lemma load_lines_text:
  assumes "\<And>l. l \<in> set ls \<Longrightarrow> CHR 0x0A \<notin> set l \<and> length l < MAX_CFG_LINE_LEN"
  shows "load_lines st (concat (map (\<lambda>l. l @ [CHR 0x0A]) ls)) = rfold load_line ls st"
  using assms
proof (induction ls arbitrary: st)
  case Nil
  show ?case by (subst load_lines.simps) (simp add: getline_buf_def load_line_empty)
next
  case (Cons l ls)
  let ?r = "concat (map (\<lambda>l. l @ [CHR 0x0A]) ls)"
  have l: "CHR 0x0A \<notin> set l" "length l < MAX_CFG_LINE_LEN" using Cons.prems[of l] by simp_all
  then have "takeWhile (\<lambda>c. c \<noteq> CHR 0x0A) (l @ CHR 0x0A # ?r) = l"
    by (auto simp: takeWhile_append takeWhile_eq_all_conv)
  then have "getline_buf MAX_CFG_LINE_LEN (l @ CHR 0x0A # ?r) = (l, ?r, True)"
    using l(2) by (simp add: getline_buf_def Let_def)
  with Cons show ?case
    by (subst load_lines.simps) (auto simp: rbind_def split: sum.splits)
qed

text \<open>The entries of one section, loaded at the end of the sections read so far.\<close>

lemma session_insert_last:
  assumes "\<forall>n \<in> fst ` set pre. n < s" "\<forall>k' \<in> fst ` set m. k' < k"
  shows "session_insert s k v (i\<lparr>sections := pre @ [(s, m)]\<rparr>) = i\<lparr>sections := pre @ [(s, m @ [(k, v)])]\<rparr>"
proof -
  have "map_of (pre @ [(s, m)]) s = Some m" using last_key_fresh[OF assms(1)] by (simp add: map_add_def)
  with om_assign_replace_last[OF assms(1), of "om_insert k v m" m] om_insert_last[OF assms(2), of v]
  show ?thesis by (simp add: session_insert_def)
qed

lemma load_entries:
  assumes "\<forall>n \<in> fst ` set pre. n < s" "om_ok (m @ kvs)" "list_all dumpable_entry kvs"
    "\<not> continue_last_line st" "current_session st = s" "target st = i\<lparr>sections := pre @ [(s, m)]\<rparr>"
  shows "\<exists>st'. rfold load_line (map (\<lambda>(k, v). k @ ''='' @ v) kvs) st = Inr st' \<and> \<not> continue_last_line st' \<and>
     target st' = i\<lparr>sections := pre @ [(s, m @ kvs)]\<rparr>"
  using assms(2-)
proof (induction kvs arbitrary: m st)
  case Nil
  then show ?case by auto
next
  case (Cons kv kvs)
  obtain k v where kv: "kv = (k, v)" by (cases kv)
  have lt: "\<forall>k' \<in> fst ` set m. k' < k" using Cons.prems(1) kv by (auto simp: om_ok_def sorted_wrt_append)
  let ?st = "st\<lparr>continue_last_line := False, line_entry := k @ ''='' @ v,
             target := session_insert s k v (target st)\<rparr>"
  have "load_line (k @ ''='' @ v) st = Inr ?st"
    using Cons.prems kv by (subst load_line_entry) simp_all
  moreover have "\<exists>st'. rfold load_line (map (\<lambda>(k, v). k @ ''='' @ v) kvs) ?st = Inr st' \<and> \<not> continue_last_line st' \<and>
     target st' = i\<lparr>sections := pre @ [(s, (m @ [(k, v)]) @ kvs)]\<rparr>"
    using Cons.prems kv session_insert_last[OF assms(1) lt]
    by (intro Cons.IH) (simp_all)
  ultimately show ?case using kv by simp
qed

lemma load_section:
  assumes "\<forall>n \<in> fst ` set pre. n < s" "om_ok m" "list_all dumpable_entry m" "plain_line (''['' @ s @ '']'')"
    "\<not> continue_last_line st" "switch_session s (target st) = i\<lparr>sections := pre @ [(s, [])]\<rparr>"
  shows "\<exists>st'. rfold load_line (dump_section (s, m)) st = Inr st' \<and> \<not> continue_last_line st' \<and>
     target st' = i\<lparr>sections := pre @ [(s, m)]\<rparr>"
proof -
  let ?st = "st\<lparr>target := switch_session s (target st), current_session := s\<rparr>"
  have "\<exists>st'. rfold load_line (map (\<lambda>(k, v). k @ ''='' @ v) m) ?st = Inr st' \<and> \<not> continue_last_line st' \<and>
     target st' = i\<lparr>sections := pre @ [(s, [] @ m)]\<rparr>"
    using assms by (intro load_entries) simp_all
  then show ?thesis
    by (auto simp: dump_section_def load_line_section[OF assms(4), simplified] rfold_append load_line_empty)
qed

lemma load_sections:
  assumes "om_ok (pre @ secs)" "\<forall>(s, m) \<in> set secs. om_ok m"
    "list_all (\<lambda>(s, m). plain_line (''['' @ s @ '']'') \<and> list_all dumpable_entry m) secs"
    "\<not> continue_last_line st" "target st = i\<lparr>sections := pre\<rparr>"
  shows "\<exists>st'. rfold load_line (concat (map dump_section secs)) st = Inr st' \<and> \<not> continue_last_line st' \<and>
     target st' = i\<lparr>sections := pre @ secs\<rparr>"
  using assms
proof (induction secs arbitrary: pre st)
  case Nil
  then show ?case by simp
next
  case (Cons sm secs)
  obtain s m where sm: "sm = (s, m)" by (cases sm)
  have lt: "\<forall>n \<in> fst ` set pre. n < s" using Cons.prems(1) sm by (auto simp: om_ok_def sorted_wrt_append)
  then have "switch_session s (target st) = i\<lparr>sections := pre @ [(s, [])]\<rparr>"
    using Cons.prems(5) om_insert_last[OF lt, of "[]"]
      last_key_fresh[OF lt] by (simp add: switch_session_def insert_session_def)
  then obtain st' where st': "rfold load_line (dump_section (s, m)) st = Inr st'" "\<not> continue_last_line st'"
      "target st' = i\<lparr>sections := pre @ [(s, m)]\<rparr>"
    using load_section[OF lt, of m st i] Cons.prems sm by auto
  with Cons.IH[of "pre @ [(s, m)]" st'] Cons.prems sm show ?case by (simp add: rfold_append)
qed

lemma default_section_first:
  assumes "om_ok secs" "map_of secs DEFAULT_SECTION \<noteq> None"
  obtains m r where "secs = (DEFAULT_SECTION, m) # r"
proof -
  obtain s m r where secs: "secs = (s, m) # r" using assms(2) by (cases secs) auto
  have "s = []"
  proof (rule ccontr)
    assume "s \<noteq> []"
    with assms(2) secs have "[] \<in> fst ` set r" by (auto simp: DEFAULT_SECTION_def map_of_eq_None_iff split: if_splits)
    with assms(1) secs have "s < []" by (auto simp: om_ok_def)
    then show False by simp
  qed
  with secs that show ?thesis by (simp add: DEFAULT_SECTION_def)
qed

lemma dump_lines_short:
  assumes "dumpable i" "l \<in> set (dump_lines i)"
  shows "CHR 0x0A \<notin> set l \<and> length l < MAX_CFG_LINE_LEN"
proof -
  have e: "plain_line (k @ ''='' @ v)" if "(s, m) \<in> set (sections i)" "(k, v) \<in> set m" for s m k v
    using assms(1) that by (auto simp: dumpable_def list_all_iff dumpable_entry_def)
  have s: "plain_line (''['' @ s @ '']'')" if "(s, m) \<in> set (sections i)" for s m
    using assms(1) that by (auto simp: dumpable_def list_all_iff)
  have "l = ''Begin dump configuration'' \<or> l = ''Finish dump configuration '' \<or> l = [] \<or> plain_line l"
    using assms(2) e s by (auto simp: dump_lines_def dump_section_def)
  then show ?thesis by (auto simp: plain_line_def MAX_CFG_LINE_LEN_def)
qed

lemma load_dump_lines:
  assumes "dumpable i" "\<not> continue_last_line st" "target st = j\<lparr>sections := [(DEFAULT_SECTION, [])]\<rparr>"
  shows "\<exists>st'. rfold load_line (dump_lines i) st = Inr st' \<and> target st' = j\<lparr>sections := sections i\<rparr>"
proof -
  have ok: "om_ok (sections i)" using assms(1) by (simp add: dumpable_def ini_ok_def)
  obtain m r where secs: "sections i = (DEFAULT_SECTION, m) # r"
    using default_section_first[OF ok] assms(1) by (auto simp: dumpable_def)
  obtain e where st1: "load_line ''Begin dump configuration'' st = Inr (st\<lparr>continue_last_line := False, line_entry := e\<rparr>)"
    using load_line_banner[OF _ assms(2)] by blast
  let ?st1 = "st\<lparr>continue_last_line := False, line_entry := e\<rparr>"
  have d: "om_ok m" "list_all dumpable_entry m" "plain_line (''['' @ DEFAULT_SECTION @ '']'')"
      "\<forall>(s, m) \<in> set r. om_ok m"
      "list_all (\<lambda>(s, m). plain_line (''['' @ s @ '']'') \<and> list_all dumpable_entry m) r"
    using assms(1) secs by (auto simp: dumpable_def ini_ok_def)
  have "\<exists>st2. rfold load_line (dump_section (DEFAULT_SECTION, m)) ?st1 = Inr st2 \<and> \<not> continue_last_line st2 \<and>
     target st2 = j\<lparr>sections := [] @ [(DEFAULT_SECTION, m)]\<rparr>"
    using assms(3) d by (intro load_section) (simp_all add: switch_session_def)
  then obtain st2 where st2: "rfold load_line (dump_section (DEFAULT_SECTION, m)) ?st1 = Inr st2"
      "\<not> continue_last_line st2" "target st2 = j\<lparr>sections := [(DEFAULT_SECTION, m)]\<rparr>" by auto
  obtain st3 where st3: "rfold load_line (concat (map dump_section r)) st2 = Inr st3" "\<not> continue_last_line st3"
      "target st3 = j\<lparr>sections := (DEFAULT_SECTION, m) # r\<rparr>"
    using load_sections[of "[(DEFAULT_SECTION, m)]" r st2 j] ok secs d st2 by auto
  obtain e' where "load_line ''Finish dump configuration '' st3 = Inr (st3\<lparr>continue_last_line := False, line_entry := e'\<rparr>)"
    using load_line_banner[OF _ st3(2)] by blast
  with st1 st2(1) st3(1,3) secs show ?thesis by (simp add: dump_lines_def rfold_append)
qed

section \<open>Theorems\<close>

text \<open>C30. A dumpable configuration loads back: reading the output of \<open>to_string\<close> into an empty object
  restores every section and every pair. Dumpable is a configuration with a default section whose names, keys and
  values survive as lines of text: keys and values are not empty and have no blanks at their ends, no key has an equals
  sign or starts with \<open>#\<close>, no value ends in a backslash, no pair looks like a section header (a key starting with an
  opening, its value ending in a closing bracket), and no line has a newline or a null character or is too long for
  the line buffer. The dump's first and last lines are not comments, but they hold no equals sign and are dropped.\<close>

theorem ini_load_dump:
  assumes "dumpable ini"
  shows "load name (Some (to_string ini)) init_IniFile = Inr (0, ini\<lparr>file_names := {name}\<rparr>)"
proof -
  let ?i0 = "init_IniFile\<lparr>sections := [(DEFAULT_SECTION, [])]\<rparr>"
  let ?st = "\<lparr>continue_last_line = False, current_session = DEFAULT_SECTION, line_entry = '''', target = ?i0\<rparr>"
  have st: "switch_session DEFAULT_SECTION init_IniFile = ?i0"
    by (simp add: switch_session_def insert_session_def init_IniFile_def om_insert_def)
  have "load_lines ?st (to_string ini) = rfold load_line (dump_lines ini) ?st"
    unfolding to_string_def by (rule load_lines_text) (rule dump_lines_short[OF assms])
  moreover obtain st' where "rfold load_line (dump_lines ini) ?st = Inr st'"
      "target st' = init_IniFile\<lparr>sections := sections ini\<rparr>"
    using load_dump_lines[OF assms, of ?st init_IniFile] by auto
  ultimately show ?thesis by (simp add: load_def st) (simp add: init_IniFile_def)
qed

theorem ini_load_dump_witness:
  "\<exists>ini. sections ini = [('''', [(''PORT'', ''6688'')]), (''LOG'', [(''LEVEL'', ''3'')])] \<and>
     load ''x'' (Some (to_string ini)) init_IniFile = Inr (0, ini\<lparr>file_names := {''x''}\<rparr>)"
proof -
  let ?ini = "\<lparr>sections = [('''', [(''PORT'', ''6688'')]), (''LOG'', [(''LEVEL'', ''3'')])], file_names = {}\<rparr>"
  have "dumpable ?ini"
    by (simp add: dumpable_def ini_ok_def om_ok_def DEFAULT_SECTION_def dumpable_entry_def tight_def
        plain_line_def MAX_CFG_LINE_LEN_def isspace_def)
  from ini_load_dump[OF this, of "''x''"] show ?thesis by (intro exI[of _ ?ini]) simp
qed

text \<open>\<open>put\<close> adds a pair only where the key is new, in a section it creates when needed; every
  other lookup is unchanged. An existing value is not replaced, although the header says so.\<close>

theorem ini_get_put:
  assumes "ini_ok ini"
  shows "ini_ok (snd (put k' v s' ini)) \<and>
     get_value k d s (snd (put k' v s' ini)) =
       (if k = k' \<and> s = s' \<and> map_of (get_section s' ini) k' = None then v else get_value k d s ini)"
  using put_ok[OF assms] get_value_put[OF assms] by simp

theorem ini_get_put_witness:
  "get_value ''a'' '''' ''s'' (snd (put ''a'' ''2'' ''s'' (snd (put ''a'' ''1'' ''s'' init_IniFile)))) = ''1''"
proof -
  have "ini_ok init_IniFile" by (simp add: ini_ok_def init_IniFile_def)
  note P = ini_get_put[OF this]
  show ?thesis
    unfolding conjunct2[OF ini_get_put[OF conjunct1[OF P]]] conjunct2[OF P] by code_simp
qed

text \<open>\<open>load\<close> reports success for a file that does not exist, and runs off the front of the
  string on a pair with an empty value.\<close>

theorem ini_load_edges:
  "load name None ini = Inr (0, (switch_session DEFAULT_SECTION ini)
      \<lparr>file_names := insert name (file_names (switch_session DEFAULT_SECTION ini))\<rparr>) \<and>
   load name (Some ''KEY='') ini = Inl Undefined"
proof
  have b: "getline_buf MAX_CFG_LINE_LEN ''KEY='' = (''KEY='', [], False)"
    by (simp add: getline_buf_def MAX_CFG_LINE_LEN_def)
  have "strip_c (takeWhile (\<lambda>c. c \<noteq> CHR 0x00) ''KEY='') = ''KEY=''" by code_simp
  moreover have "insert_entry s ''KEY='' i = Inl Undefined" for s i
    by (simp add: insert_entry_def find_first_of_def find_pos_def npos_def substr_def strip_str_eq isspace_def)
  ultimately have "load_line ''KEY='' st = Inl Undefined" if "\<not> continue_last_line st" for st
    using that by (simp add: load_line_def Let_def)
  then show "load name (Some ''KEY='') ini = Inl Undefined"
    by (simp add: load_def load_lines.simps b)
qed (simp add: load_def)

end
