(* ===== verification/Vulcan_Param.thy ===== *)
theory Vulcan_Param
  imports Ini_Parser
begin

text \<open>
  The server's parameters (\<open>src/src/backend/vulcan_param.cpp\<close>) and how the process gets them
  (\<open>main.cpp\<close>, \<open>pidfile.cpp\<close>, \<open>common/os.cpp\<close>): defaults overridden by the \<open>BASE\<close> section of a
  configuration file and by command line options, the directories that are resolved and created,
  the numbers that are read from the strings, and the pid file. The file system and the
  environment are an argument; the options are given as the list \<open>getopt_long\<close> returns.
\<close>

section \<open>Numbers in strings\<close>

text \<open>\<open>std::stoi\<close>.\<close>

definition stoi :: "string \<Rightarrow> int res" where
  "stoi s =
     (let t = dropWhile isspace s;
          neg = (t \<noteq> [] \<and> hd t = CHR ''-'');
          u = (if t \<noteq> [] \<and> (hd t = CHR ''-'' \<or> hd t = CHR ''+'') then tl t else t);
          ds = takeWhile isdigit u;
          v = (if neg then - digits_val ds else digits_val ds)
      in if ds = [] then Inl Invalid_argument
         else if v < - 2147483648 \<or> 2147483647 < v then Inl Out_of_range
         else Inr v)"

text \<open>\<open>str_to_val\<close> for a 64-bit integer: success and value, zero on failure.\<close>

definition str_to_val :: "string \<Rightarrow> bool \<times> int" where
  "str_to_val s =
     (let t = dropWhile isspace s;
          neg = (t \<noteq> [] \<and> hd t = CHR ''-'');
          u = (if t \<noteq> [] \<and> (hd t = CHR ''-'' \<or> hd t = CHR ''+'') then tl t else t);
          ds = takeWhile isdigit u;
          v = (if neg then - digits_val ds else digits_val ds)
      in if ds = [] \<or> v < - 9223372036854775808 \<or> 9223372036854775807 < v then (False, 0)
         else (True, v))"

lemma stoi_show_int:
  assumes "- 2147483648 \<le> i" "i < 2147483648"
  shows "stoi (show_int i) = Inr i"
proof -
  have sgn: "hd (show_dec n) \<noteq> CHR ''-''" "hd (show_dec n) \<noteq> CHR ''+''" for n
    using hd_show_dec[of n] by auto
  show ?thesis
  proof (cases "i < 0")
    case True
    with assms show ?thesis by (simp add: stoi_def show_int_def Let_def)
  next
    case False
    with assms sgn[of i] show ?thesis by (simp add: stoi_def show_int_def Let_def)
  qed
qed

section \<open>The parameter object\<close>

definition MAX_CONNECTION_NUM :: string where "MAX_CONNECTION_NUM = ''max_connection_num''"
definition VULCAN_HOME :: string where "VULCAN_HOME = ''VULCAN_HOME''"
definition VULCAN_DATA_DIR :: string where "VULCAN_DATA_DIR = ''VULCAN_DATA_DIR''"
definition VULCAN_LOG_DIR :: string where "VULCAN_LOG_DIR = ''VULCAN_LOG_DIR''"
definition VULCAN_PORT :: string where "VULCAN_PORT = ''VULCAN_PORT''"
definition VULCAN_UNIX_SOCKET_PATH :: string where "VULCAN_UNIX_SOCKET_PATH = ''UNIX_SOCKET_PATH''"
definition VULCAN_LOG_LEVEL :: string where "VULCAN_LOG_LEVEL = ''LOG_LEVEL''"
definition VULCAN_CONSOLE_LOG_LEVEL :: string where "VULCAN_CONSOLE_LOG_LEVEL = ''LOG_CONSOLE_LOG_LEVEL''"

lemmas param_keys =
  MAX_CONNECTION_NUM_def VULCAN_HOME_def VULCAN_DATA_DIR_def VULCAN_LOG_DIR_def VULCAN_PORT_def
  VULCAN_UNIX_SOCKET_PATH_def VULCAN_LOG_LEVEL_def VULCAN_CONSOLE_LOG_LEVEL_def

definition BASE_SECTION_NAME :: string where
  "BASE_SECTION_NAME = ''BASE''"

text \<open>\<open>default_conf_map_\<close>, in key order.\<close>

definition default_conf_map :: "(string \<times> string) list" where
  "default_conf_map =
     [(VULCAN_CONSOLE_LOG_LEVEL, ''3''), (VULCAN_LOG_LEVEL, ''3''),
      (VULCAN_UNIX_SOCKET_PATH, ''/tmp/vulcandb.sock''), (VULCAN_DATA_DIR, ''~/vulcandb/data''),
      (VULCAN_HOME, ''~/vulcandb/''), (VULCAN_LOG_DIR, ''~/vulcandb/log''), (VULCAN_PORT, ''6688''),
      (MAX_CONNECTION_NUM, ''1024'')]"

datatype LOG_LEVEL = PANIC | ERR | WARN | INFO | DEBUG | TRACE

definition log_levels :: "LOG_LEVEL list" where
  "log_levels = [PANIC, ERR, WARN, INFO, INFO, DEBUG, TRACE]"

record VulcanParam =
  proc_name :: string
  conf_file :: string
  conf_map :: "(string, string) omap"

definition init_VulcanParam :: VulcanParam where
  "init_VulcanParam = \<lparr>proc_name = '''', conf_file = ''/etc/vulcandb.conf'', conf_map = []\<rparr>"

definition set_conf_file :: "string \<Rightarrow> VulcanParam \<Rightarrow> VulcanParam" where
  "set_conf_file f vp = vp\<lparr>conf_file := f\<rparr>"

definition param_get :: "string \<Rightarrow> VulcanParam \<Rightarrow> string" where
  "param_get key vp = (case map_of (conf_map vp) key of None \<Rightarrow> '''' | Some v \<Rightarrow> v)"

definition param_set :: "string \<Rightarrow> string \<Rightarrow> VulcanParam \<Rightarrow> VulcanParam" where
  "param_set key val vp = vp\<lparr>conf_map := om_assign key val (conf_map vp)\<rparr>"

text \<open>\<open>conf_map_[key]\<close> inserts an empty string for a missing key.\<close>

definition param_index :: "string \<Rightarrow> VulcanParam \<Rightarrow> string \<times> VulcanParam" where
  "param_index key vp =
     (case map_of (conf_map vp) key of
        Some v \<Rightarrow> (v, vp)
      | None \<Rightarrow> ('''', vp\<lparr>conf_map := om_insert key '''' (conf_map vp)\<rparr>))"

definition get_max_connection_num :: "VulcanParam \<Rightarrow> (int \<times> VulcanParam) res" where
  "get_max_connection_num vp =
     (let (s, vp') = param_index MAX_CONNECTION_NUM vp in rbind (stoi s) (\<lambda>n. Inr (n, vp')))"

definition get_server_port :: "VulcanParam \<Rightarrow> (int \<times> VulcanParam) res" where
  "get_server_port vp =
     (let (s, vp') = param_index VULCAN_PORT vp in rbind (stoi s) (\<lambda>n. Inr (n, vp')))"

text \<open>\<open>log_levels_.at\<close> takes a \<open>size_t\<close>: a negative level is out of range too.\<close>

definition level_at :: "int \<Rightarrow> LOG_LEVEL res" where
  "level_at n =
     (if to_size n < int (length log_levels) then Inr (log_levels ! nat (to_size n)) else Inl Out_of_range)"

definition get_level :: "string \<Rightarrow> VulcanParam \<Rightarrow> (LOG_LEVEL \<times> VulcanParam) res" where
  "get_level key vp =
     (let (s, vp') = param_index key vp
      in rbind (stoi s) (\<lambda>n. rbind (level_at n) (\<lambda>l. Inr (l, vp'))))"

definition get_log_level :: "VulcanParam \<Rightarrow> (LOG_LEVEL \<times> VulcanParam) res" where
  "get_log_level = get_level VULCAN_LOG_LEVEL"

definition get_console_log_level :: "VulcanParam \<Rightarrow> (LOG_LEVEL \<times> VulcanParam) res" where
  "get_console_log_level = get_level VULCAN_CONSOLE_LOG_LEVEL"

section \<open>Loading the configuration\<close>

definition load_conf_file :: "(string \<Rightarrow> string option) \<Rightarrow> VulcanParam \<Rightarrow> VulcanParam res" where
  "load_conf_file files vp =
     rbind (load (conf_file vp) (files (conf_file vp)) init_IniFile) (\<lambda>(rc, ini_file).
       if rc \<noteq> 0 then Inr vp
       else Inr (vp\<lparr>conf_map :=
              fold (\<lambda>(k, d). om_assign k (get_value k d BASE_SECTION_NAME ini_file)) default_conf_map (conf_map vp)\<rparr>))"

lemma load_code: "load n f i = Inr (rc, i') \<Longrightarrow> rc = 0"
  by (auto simp: load_def rbind_eq_Inr Let_def)

lemma fold_assign_map:
  assumes "om_ok m" "distinct (map fst kds)" "(k, d) \<in> set kds"
  shows "map_of (fold (\<lambda>(k, d). om_assign k (g k d)) kds m) k = Some (g k d)"
proof -
  have f: "fold (\<lambda>(k, d). om_assign k (g k d)) kds m = fold (\<lambda>(k, v). om_assign k v) (map (\<lambda>(k, d). (k, g k d)) kds) m"
    by (simp add: fold_map o_def split_def)
  have "distinct (map fst (rev (map (\<lambda>(k, d). (k, g k d)) kds)))"
    using assms(2) by (simp add: rev_map[symmetric] o_def split_def)
  moreover have "(k, g k d) \<in> set (rev (map (\<lambda>(k, d). (k, g k d)) kds))" using assms(3) by force
  ultimately have "map_of (rev (map (\<lambda>(k, d). (k, g k d)) kds)) k = Some (g k d)" by (rule map_of_is_SomeI)
  then show ?thesis unfolding f om.find_assign_all[OF assms(1)] by simp
qed

lemma load_conf_file_values:
  assumes "om_ok (conf_map vp)" "load_conf_file files vp = Inr vp'" "(k, d) \<in> set default_conf_map"
  shows "\<exists>i. load (conf_file vp) (files (conf_file vp)) init_IniFile = Inr (0, i) \<and>
     param_get k vp' = get_value k d BASE_SECTION_NAME i"
proof -
  from assms(2) obtain rc i where i: "load (conf_file vp) (files (conf_file vp)) init_IniFile = Inr (rc, i)"
    by (auto simp: load_conf_file_def rbind_eq_Inr)
  have rc: "rc = 0" using i by (rule load_code)
  have "distinct (map fst default_conf_map)" by (simp add: default_conf_map_def param_keys)
  from fold_assign_map[OF assms(1) this assms(3), of "\<lambda>k d. get_value k d BASE_SECTION_NAME i"] i rc assms(2)
  show ?thesis by (auto simp: load_conf_file_def param_get_def)
qed

section \<open>Process name, paths and directories\<close>

definition process_name :: "string \<Rightarrow> string res" where
  "process_name prog_name =
     (let pos = find_last_of prog_name (CHR ''/'')
      in if pos \<noteq> npos then substr prog_name (pos + 1) npos else Inr prog_name)"

record environment =
  HOME :: "string option"
  path_exists :: "string \<Rightarrow> bool"
  mkdir_ok :: "string list \<Rightarrow> string \<Rightarrow> bool"

definition get_definite_path :: "environment \<Rightarrow> string \<Rightarrow> string res" where
  "get_definite_path env path =
     (if find_sub ''~/'' path = Some 0 then
        (case HOME env of
           None \<Rightarrow> Inl Undefined
         | Some h \<Rightarrow> rbind (substr path 2 npos) (\<lambda>r. Inr (path_join h r)))
      else Inr path)"

text \<open>The directories created so far are part of the state.\<close>

definition check_and_create_dir ::
    "environment \<Rightarrow> string \<Rightarrow> string \<Rightarrow> VulcanParam \<times> string list \<Rightarrow> (VulcanParam \<times> string list) res" where
  "check_and_create_dir env var_name path st =
     (let (vp, created) = st
      in rbind (get_definite_path env path) (\<lambda>definite_path.
           let vp' = param_set var_name definite_path vp
           in if path_exists env definite_path \<or> definite_path \<in> set created then Inr (vp', created)
              else if mkdir_ok env created definite_path then Inr (vp', created @ [definite_path])
              else Inl (Exit_called 1)))"

definition init_params ::
    "environment \<Rightarrow> string \<Rightarrow> VulcanParam \<Rightarrow> (VulcanParam \<times> string list) res" where
  "init_params env prog_name vp0 =
     rbind (process_name prog_name) (\<lambda>pn.
       let vp = vp0\<lparr>proc_name := pn\<rparr>
       in rbind (check_and_create_dir env VULCAN_HOME (param_get VULCAN_HOME vp) (vp, [])) (\<lambda>st.
          rbind (check_and_create_dir env VULCAN_DATA_DIR (param_get VULCAN_DATA_DIR (fst st)) st) (\<lambda>st.
          check_and_create_dir env VULCAN_LOG_DIR (param_get VULCAN_LOG_DIR (fst st)) st)))"

section \<open>The command line\<close>

text \<open>What \<open>getopt_long\<close> returns: the option's character and \<open>optarg\<close>.\<close>

type_synonym option_arg = "char \<times> string option"

text \<open>The first loop fetches one more option after \<open>-c\<close> before it looks at its flag.\<close>

fun find_config :: "option_arg list \<Rightarrow> VulcanParam \<Rightarrow> VulcanParam \<times> option_arg list" where
  "find_config [] vp = (vp, [])"
| "find_config ((c, arg) # opts) vp =
     (if c = CHR ''c'' then (set_conf_file (case arg of None \<Rightarrow> '''' | Some f \<Rightarrow> f) vp, drop 1 opts)
      else find_config opts vp)"

definition apply_option :: "option_arg \<Rightarrow> VulcanParam \<Rightarrow> VulcanParam res" where
  "apply_option opt vp =
     (let (c, arg) = opt
      in if c = CHR ''c'' then Inr vp
         else if c = CHR ''p'' then
           (case arg of None \<Rightarrow> Inl Undefined | Some a \<Rightarrow> Inr (param_set VULCAN_PORT a vp))
         else if c = CHR ''s'' then
           (case arg of None \<Rightarrow> Inl Undefined | Some a \<Rightarrow> Inr (param_set VULCAN_UNIX_SOCKET_PATH a vp))
         else Inl (Exit_called 0))"

definition init_parameter ::
    "environment \<Rightarrow> (string \<Rightarrow> string option) \<Rightarrow> string \<Rightarrow> option_arg list \<Rightarrow> (VulcanParam \<times> string list) res" where
  "init_parameter env files prog opts =
     (let (vp, rest) = find_config opts init_VulcanParam
      in rbind (load_conf_file files vp) (\<lambda>vp.
         rbind (rfold apply_option rest vp) (\<lambda>vp.
         init_params env prog vp)))"

lemma find_config_none: "list_all (\<lambda>(c, _). c \<noteq> CHR ''c'') opts \<Longrightarrow> find_config opts vp = (vp, [])"
  by (induction opts) auto

lemma find_config_some:
  "list_all (\<lambda>(c, _). c \<noteq> CHR ''c'') opts \<Longrightarrow>
   find_config (opts @ (CHR ''c'', Some f) # rest) vp = (set_conf_file f vp, drop 1 rest)"
  by (induction opts) auto

section \<open>The server's parameters and the pid file\<close>

record ServerParam =
  listen_addr :: int
  max_connection_num :: int
  port :: int
  use_unix_socket :: bool
  unix_socket_path :: string

text \<open>\<open>max_connection_num\<close> stays uninitialised when the setting is empty.\<close>

definition init_server :: "VulcanParam \<Rightarrow> ServerParam res" where
  "init_server vp =
     rbind (get_server_port vp) (\<lambda>(p, vp).
       let conf_value = param_get MAX_CONNECTION_NUM vp
       in if conf_value = '''' then Inl Undefined
          else Inr \<lparr>listen_addr = 0, max_connection_num = snd (str_to_val conf_value), port = p,
                    use_unix_socket = True, unix_socket_path = param_get VULCAN_UNIX_SOCKET_PATH vp\<rparr>)"

definition setPidPath :: "string option \<Rightarrow> string" where
  "setPidPath progName = (case progName of None \<Rightarrow> '''' | Some n \<Rightarrow> ''/tmp/'' @ n @ ''.pid'')"

text \<open>The path remembered, the return value, and the file written; \<open>errno\<close> is what opening gives.\<close>

definition writePidFile :: "string option \<Rightarrow> int \<Rightarrow> int option \<Rightarrow> (string \<times> int \<times> (string \<times> string) option) res" where
  "writePidFile progName pid errno =
     (case progName of
        None \<Rightarrow> Inl Assert_failed
      | Some n \<Rightarrow>
          let path = setPidPath (Some n)
          in case errno of
               None \<Rightarrow> Inr (path, 0, Some (path, show_int pid @ [CHR 0x0A]))
             | Some e \<Rightarrow> Inr (path, e, None))"

definition removePidFile :: "string \<Rightarrow> string \<times> string option" where
  "removePidFile path = (if path = '''' then (path, None) else (setPidPath None, Some path))"

section \<open>Theorems\<close>

text \<open>After \<open>load_conf_file\<close> every setting has a value: that of the \<open>BASE\<close> section of the
  configuration file where it sets the key, and the default otherwise (also when the file does
  not exist).\<close>

theorem param_from_file_or_default:
  assumes "om_ok (conf_map vp)" "load_conf_file files vp = Inr vp'" "(k, d) \<in> set default_conf_map"
  shows "\<exists>i. load (conf_file vp) (files (conf_file vp)) init_IniFile = Inr (0, i) \<and>
     param_get k vp' = get_value k d BASE_SECTION_NAME i"
  using assms by (rule load_conf_file_values)

theorem param_from_file_or_default_witness:
  "\<exists>vp' i. load_conf_file (\<lambda>_. None) init_VulcanParam = Inr vp' \<and>
     param_get VULCAN_PORT vp' = get_value VULCAN_PORT ''6688'' BASE_SECTION_NAME i"
proof -
  have l: "load f None init_IniFile = Inr (0, (switch_session DEFAULT_SECTION init_IniFile)\<lparr>file_names := {f}\<rparr>)" for f
    by (simp add: load_def switch_session_def insert_session_def init_IniFile_def om_insert_def)
  then obtain vp' where vp': "load_conf_file (\<lambda>_. None) init_VulcanParam = Inr vp'"
    by (auto simp: load_conf_file_def)
  have "om_ok (conf_map init_VulcanParam)" "(VULCAN_PORT, ''6688'') \<in> set default_conf_map"
    by (simp_all add: init_VulcanParam_def default_conf_map_def)
  from param_from_file_or_default[OF this(1) vp' this(2)] vp' show ?thesis by blast
qed

text \<open>The search for \<open>-c\<close> eats the other options: without \<open>-c\<close> no option has any effect (not even
  \<open>-h\<close>), and the option that follows \<open>-c\<close> is lost.\<close>

theorem init_parameter_loses_options:
  assumes "list_all (\<lambda>(c, _). c \<noteq> CHR ''c'') opts"
  shows "init_parameter env files prog opts = init_parameter env files prog [] \<and>
     init_parameter env files prog (opts @ [(CHR ''c'', Some f), opt]) =
       init_parameter env files prog [(CHR ''c'', Some f)]"
  using find_config_none[OF assms] find_config_some[OF assms, of f "[opt]"]
  by (simp add: init_parameter_def)

theorem init_parameter_loses_options_witness:
  "\<forall>env files. init_parameter env files ''vulcan'' [(CHR ''p'', Some ''7000'')] = init_parameter env files ''vulcan'' []"
  using init_parameter_loses_options[of "[(CHR ''p'', Some ''7000'')]"] by simp

text \<open>The settings that are numbers read back what was written: a port or a level that is printed
  into the map is returned, a level outside zero to six is out of range, and a string without
  digits is an invalid argument.\<close>

theorem param_numbers:
  assumes "om_ok (conf_map vp)" "- 2147483648 \<le> n" "n < 2147483648"
  shows "get_server_port (param_set VULCAN_PORT (show_int n) vp) = Inr (n, param_set VULCAN_PORT (show_int n) vp) \<and>
     get_log_level (param_set VULCAN_LOG_LEVEL (show_int n) vp) =
       (if 0 \<le> n \<and> n < 7 then Inr (log_levels ! nat n, param_set VULCAN_LOG_LEVEL (show_int n) vp)
        else Inl Out_of_range)"
proof -
  have i: "param_index k (param_set k v vp) = (v, param_set k v vp)" for k v
    using assms(1) by (simp add: param_index_def param_set_def om.find_assign)
  have neg: "to_size n \<ge> 7" if "n < 0"
  proof -
    have "(n + 18446744073709551616) mod 18446744073709551616 = n + 18446744073709551616"
      using that assms(2) by (intro mod_pos_pos_trivial) simp_all
    then have "n mod 18446744073709551616 = n + 18446744073709551616" by simp
    then show ?thesis using that assms(2) by (simp add: to_size_def)
  qed
  have "level_at n = (if 0 \<le> n \<and> n < 7 then Inr (log_levels ! nat n) else Inl Out_of_range)"
    using neg by (cases "0 \<le> n") (auto simp: level_at_def log_levels_def)
  with i stoi_show_int[OF assms(2,3)] show ?thesis
    by (simp add: get_server_port_def get_log_level_def get_level_def)
qed

theorem param_numbers_witness:
  "get_server_port (param_set VULCAN_PORT (show_int 6688) init_VulcanParam) =
     Inr (6688, param_set VULCAN_PORT (show_int 6688) init_VulcanParam)"
proof -
  have "om_ok (conf_map init_VulcanParam)" by (simp add: init_VulcanParam_def)
  from param_numbers[OF this, of 6688] show ?thesis by simp
qed

end
