(* ===== verification/Seda_Config.thy ===== *)
theory Seda_Config
  imports Seda_Pool Ordered_Map Vulcan_Param
begin

text \<open>
  The configuration of the stages and pools (\<open>backend/seda/seda_config.cpp\<close>, \<open>seda_config.h\<close>,
  \<open>seda_defs.h\<close>, \<open>common/class_factory.h\<close>): which pools and stages \<open>SedaConfig::init\<close> creates from a
  configuration, how it connects them, and how \<open>cleanup\<close> takes them down. Stages are the stages of
  \<open>Seda_Pool\<close>; of a pool only its number of threads is kept. Arguments are the number of processors, the
  registered factories, what the \<open>initialize\<close> of a stage returns, and what is still queued in a stage when its
  last running event is released.
\<close>

section \<open>The settings\<close>

definition SEDA_BASE_NAME :: string where "SEDA_BASE_NAME = ''SEDA_BASE''"
definition THREAD_POOLS_NAME :: string where "THREAD_POOLS_NAME = ''ThreadPools''"
definition STAGES :: string where "STAGES = ''STAGES''"
definition SESSION_STAGE_NAME :: string where "SESSION_STAGE_NAME = ''SessionStage''"
definition COUNT :: string where "COUNT = ''count''"
definition THREAD_POOL_ID :: string where "THREAD_POOL_ID = ''ThreadId''"
definition NEXT_STAGES :: string where "NEXT_STAGES = ''NextStages''"
definition DEFAULT_THREAD_POOL :: string where "DEFAULT_THREAD_POOL = ''DefaultThreads''"

lemmas seda_names = SEDA_BASE_NAME_def THREAD_POOLS_NAME_def STAGES_def SESSION_STAGE_NAME_def COUNT_def
  THREAD_POOL_ID_def NEXT_STAGES_def DEFAULT_THREAD_POOL_def

type_synonym seda = "(string, (string, string) omap) omap"

definition omap_of :: "('k::linorder \<times> 'v) list \<Rightarrow> ('k, 'v) omap" where
  "omap_of kvs = fold (\<lambda>(k, v). om_insert k v) kvs []"

definition default_seda :: seda where
  "default_seda = omap_of
     [(SEDA_BASE_NAME, omap_of [(''EventHistory'', ''false''), (''MaxEventHistoryNum'', ''100''),
        (THREAD_POOLS_NAME, ''SQLThreads,IOThreads,DefaultThreads''), (''STAGES'', ''SessionStage'')]),
      (''SQLThreads'', omap_of [(''count'', ''3'')]),
      (''IOThreads'', omap_of [(''count'', ''3'')]),
      (DEFAULT_THREAD_POOL, omap_of [(COUNT, ''3'')]),
      (SESSION_STAGE_NAME, omap_of [(THREAD_POOL_ID, ''SQLThreads'')])]"

definition seda_section :: "string \<Rightarrow> seda \<Rightarrow> (string, string) omap" where
  "seda_section section cfg = (case map_of cfg section of None \<Rightarrow> [] | Some m \<Rightarrow> m)"

text \<open>\<open>Seda::get\<close> of one key: a missing section gives the default, a missing key is entered with no text.\<close>

definition seda_get :: "string \<Rightarrow> string \<Rightarrow> string \<Rightarrow> seda \<Rightarrow> string \<times> seda" where
  "seda_get key defaultValue section cfg =
     (case map_of cfg section of
        None \<Rightarrow> (defaultValue, cfg)
      | Some m \<Rightarrow>
          (case map_of m key of
             None \<Rightarrow> ('''', om_assign section (om_assign key '''' m) cfg)
           | Some v \<Rightarrow> (v, cfg)))"

text \<open>\<open>str_to_val\<close> for an \<open>int\<close>.\<close>

definition str_to_int :: "string \<Rightarrow> int" where
  "str_to_int s = (let (ok, v) = str_to_val s in if ok \<and> - 2147483648 \<le> v \<and> v \<le> 2147483647 then v else 0)"

section \<open>Factories\<close>

type_synonym 'a factories = "(string \<times> (string \<Rightarrow> 'a option)) list"

definition register_factory :: "string \<Rightarrow> (string \<Rightarrow> 'a option) \<Rightarrow> 'a factories \<Rightarrow> 'a factories" where
  "register_factory tag func facs = (tag, func) # facs"

definition make_instance :: "'a factories \<Rightarrow> string \<Rightarrow> 'a res" where
  "make_instance facs tag =
     (case map_of facs tag of
        None \<Rightarrow> Inl Assert_failed
      | Some func \<Rightarrow> (case func tag of None \<Rightarrow> Inl Assert_failed | Some x \<Rightarrow> Inr x))"

section \<open>The configuration object\<close>

datatype status = SUCCESS | INITFAIL | PARSEFAIL

record 'e seda_config =
  thread_pools :: "(string, nat) omap"
  stage_map :: "(string, 'e stage option) omap"
  stage_names :: "string list"
  seda_cfg :: seda

definition new_config :: "'e seda_config" where
  "new_config = \<lparr>thread_pools = [], stage_map = [], stage_names = [], seda_cfg = default_seda\<rparr>"

definition clear_config :: "'e seda_config \<Rightarrow> 'e seda_config res" where
  "clear_config c =
     (if list_all (\<lambda>(_, so). case so of None \<Rightarrow> True | Some st \<Rightarrow> \<not> connected st) (stage_map c)
      then Inr (c\<lparr>stage_map := [], thread_pools := []\<rparr>) else Inl Assert_failed)"

text \<open>\<open>Stage::disconnect\<close> as one operation: the call, and when it had to wait, its last turn, with the counter at
  zero and \<open>left\<close> the list at that time.\<close>

definition disconnect :: "'e list \<Rightarrow> 'e stage \<Rightarrow> 'e stage res" where
  "disconnect left st =
     rbind (disconnect_start st) (\<lambda>st1.
       let st2 = signal_disconnect (st1\<lparr>event_list := left, event_ref := 0\<rparr>)
       in case disconnect_resume st2 of None \<Rightarrow> Inr st2 | Some st3 \<Rightarrow> Inr st3)"

definition cleanup :: "(string \<Rightarrow> 'e list) \<Rightarrow> 'e seda_config \<Rightarrow> 'e seda_config res" where
  "cleanup left c =
     rbind (rmap (\<lambda>(n, so).
              case so of
                None \<Rightarrow> Inr (n, None)
              | Some st \<Rightarrow>
                  if connected st then rbind (disconnect (left n) st) (\<lambda>st1. Inr (n, Some st1)) else Inr (n, Some st))
            (stage_map c))
       (\<lambda>m. clear_config (c\<lparr>stage_map := m\<rparr>))"

text \<open>One pool for each name; a count below one is replaced by the number of processors.\<close>

fun add_pools :: "nat \<Rightarrow> string list \<Rightarrow> 'e seda_config \<Rightarrow> status \<times> 'e seda_config" where
  "add_pools cpu_num [] c = (SUCCESS, c)"
| "add_pools cpu_num (thread_name # ns) c =
     (let (count_str, cfg) = seda_get COUNT (show_int (int cpu_num)) thread_name (seda_cfg c);
          thread_count = str_to_int count_str;
          thread_count = (if thread_count < 1 then int cpu_num else thread_count)
      in if thread_count \<ge> 1000000 then (INITFAIL, c\<lparr>seda_cfg := cfg\<rparr>)
         else add_pools cpu_num ns
                (c\<lparr>seda_cfg := cfg, thread_pools := om_assign thread_name (nat thread_count) (thread_pools c)\<rparr>))"

definition init_thread_pool :: "nat \<Rightarrow> 'e seda_config \<Rightarrow> (status \<times> 'e seda_config) res" where
  "init_thread_pool cpu_num c =
     (case map_of (seda_section SEDA_BASE_NAME (seda_cfg c)) THREAD_POOLS_NAME of
        None \<Rightarrow> Inr (INITFAIL, c)
      | Some pool_names \<Rightarrow>
          (let (status, c1) = add_pools cpu_num (split_string pool_names '','') c
           in if status \<noteq> SUCCESS then Inr (status, c1)
              else if map_of (thread_pools c1) DEFAULT_THREAD_POOL = None then Inr (INITFAIL, c1)
              else if length (thread_pools c1) < 1 then rbind (clear_config c1) (\<lambda>c2. Inr (INITFAIL, c2))
              else Inr (SUCCESS, c1)))"

definition get_thread_pool :: "string \<Rightarrow> 'e seda_config \<Rightarrow> string" where
  "get_thread_pool stage_name c =
     (case map_of (seda_section stage_name (seda_cfg c)) THREAD_POOL_ID of
        None \<Rightarrow> DEFAULT_THREAD_POOL
      | Some thread_name \<Rightarrow>
          if thread_name = [] then DEFAULT_THREAD_POOL
          else if map_of (thread_pools c) thread_name = None then DEFAULT_THREAD_POOL
          else thread_name)"

definition put_stage :: "string \<Rightarrow> 'e stage \<Rightarrow> 'e seda_config \<Rightarrow> 'e seda_config" where
  "put_stage n st c = c\<lparr>stage_map := om_assign n (Some st) (stage_map c)\<rparr>"

text \<open>One stage for each name; \<open>thread_pools_[thread_name]\<close> is null if there is no such pool, and \<open>set_pool\<close>
  asserts that it is not.\<close>

fun make_stages :: "'e stage factories \<Rightarrow> string list \<Rightarrow> 'e seda_config \<Rightarrow> 'e seda_config res" where
  "make_stages facs [] c = Inr c"
| "make_stages facs (stage_name # ns) c =
     (let thread_name = get_thread_pool stage_name c
      in rbind (make_instance facs stage_name) (\<lambda>st.
           if map_of (thread_pools c) thread_name = None then Inl Assert_failed
           else rbind (set_pool thread_name st) (\<lambda>st1. make_stages facs ns (put_stage stage_name st1 c))))"

definition init_stages :: "'e stage factories \<Rightarrow> 'e seda_config \<Rightarrow> (status \<times> 'e seda_config) res" where
  "init_stages facs c =
     (case map_of (seda_section SEDA_BASE_NAME (seda_cfg c)) STAGES of
        None \<Rightarrow> rbind (clear_config c) (\<lambda>c1. Inr (INITFAIL, c1))
      | Some names \<Rightarrow>
          (let c1 = c\<lparr>stage_names := stage_names c @ split_string names '',''\<rparr>
           in rbind (make_stages facs (stage_names c1) c1) (\<lambda>c2.
                if length (stage_map c2) < 1 then rbind (clear_config c2) (\<lambda>c3. Inr (INITFAIL, c3))
                else Inr (SUCCESS, c2))))"

fun push_nexts :: "string \<Rightarrow> string list \<Rightarrow> 'e seda_config \<Rightarrow> 'e seda_config res" where
  "push_nexts stage_name [] c = Inr c"
| "push_nexts stage_name (next_stage_name # ns) c =
     (case map_of (stage_map c) next_stage_name of
        Some (Some next_stage) \<Rightarrow>
          (case map_of (stage_map c) stage_name of
             Some (Some st) \<Rightarrow>
               rbind (push_stage next_stage_name st) (\<lambda>st1. push_nexts stage_name ns (put_stage stage_name st1 c))
           | _ \<Rightarrow> Inl Undefined)
      | _ \<Rightarrow> Inl Assert_failed)"

fun gen_nexts :: "string list \<Rightarrow> 'e seda_config \<Rightarrow> 'e seda_config res" where
  "gen_nexts [] c = Inr c"
| "gen_nexts (stage_name # ns) c =
     (case map_of (seda_section stage_name (seda_cfg c)) NEXT_STAGES of
        None \<Rightarrow> gen_nexts ns c
      | Some names \<Rightarrow> rbind (push_nexts stage_name (split_string names '','') c) (gen_nexts ns))"

definition gen_next_stages :: "'e seda_config \<Rightarrow> (status \<times> 'e seda_config) res" where
  "gen_next_stages c = rbind (gen_nexts (stage_names c) c) (\<lambda>c1. Inr (SUCCESS, c1))"

text \<open>\<open>and_then\<close>: go on as long as the status is \<open>SUCCESS\<close>.\<close>

definition and_then :: "(status \<times> 'c) res \<Rightarrow> ('c \<Rightarrow> (status \<times> 'c) res) \<Rightarrow> (status \<times> 'c) res" where
  "and_then r f = rbind r (\<lambda>(s, c). if s = SUCCESS then f c else Inr (s, c))"

definition instantiate :: "nat \<Rightarrow> 'e stage factories \<Rightarrow> 'e seda_config \<Rightarrow> (status \<times> 'e seda_config) res" where
  "instantiate cpu_num facs c = and_then (and_then (init_thread_pool cpu_num c) (init_stages facs)) gen_next_stages"

text \<open>\<open>connect\<close> calls \<open>initialize\<close> of the stage's class, which may fail, after its assertions.\<close>

definition connect_initialized :: "(string \<Rightarrow> 'e stage \<Rightarrow> bool res) \<Rightarrow> string \<Rightarrow> 'e stage \<Rightarrow> ('e stage \<times> nat \<times> bool) res" where
  "connect_initialized initialize n st =
     (if connected st \<or> th_pool st = None then Inl Assert_failed
      else rbind (initialize n st) (\<lambda>ok. connect_stage ok st))"

fun start_stages :: "(string \<Rightarrow> 'e stage \<Rightarrow> bool res) \<Rightarrow> (string \<Rightarrow> 'e list) \<Rightarrow> (string \<times> 'e stage option) list \<Rightarrow> 'e seda_config \<Rightarrow>
    (status \<times> 'e seda_config) res" where
  "start_stages initialize left [] c = Inr (SUCCESS, c)"
| "start_stages initialize left ((n, so) # m) c =
     (case so of
        None \<Rightarrow> start_stages initialize left m c
      | Some st \<Rightarrow>
          rbind (connect_initialized initialize n st) (\<lambda>(st1, backlog, ret).
            if ret then start_stages initialize left m (put_stage n st1 c)
            else rbind (cleanup left (put_stage n st1 c)) (\<lambda>c1. Inr (INITFAIL, c1))))"

definition start :: "(string \<Rightarrow> 'e stage \<Rightarrow> bool res) \<Rightarrow> (string \<Rightarrow> 'e list) \<Rightarrow> 'e seda_config \<Rightarrow> (status \<times> 'e seda_config) res" where
  "start initialize left c =
     (if thread_pools c = [] then Inl Assert_failed else start_stages initialize left (stage_map c) c)"

definition init :: "nat \<Rightarrow> 'e stage factories \<Rightarrow> (string \<Rightarrow> 'e stage \<Rightarrow> bool res) \<Rightarrow> (string \<Rightarrow> 'e list) \<Rightarrow> 'e seda_config \<Rightarrow>
    (status \<times> 'e seda_config) res" where
  "init cpu_num facs initialize left c =
     (if stage_map c \<noteq> [] \<or> thread_pools c \<noteq> [] then Inl Assert_failed
      else and_then (instantiate cpu_num facs c) (start initialize left))"

text \<open>\<open>get_stage\<close> looks up with \<open>operator[]\<close>, which enters a null pointer for an unknown name.\<close>

definition get_stage :: "string option \<Rightarrow> 'e seda_config \<Rightarrow> 'e stage option \<times> 'e seda_config" where
  "get_stage stagename c =
     (case stagename of
        None \<Rightarrow> (None, c)
      | Some n \<Rightarrow>
          (case map_of (stage_map c) n of
             None \<Rightarrow> (None, c\<lparr>stage_map := om_assign n None (stage_map c)\<rparr>)
           | Some so \<Rightarrow> (so, c)))"

definition get_stage_queue_status :: "'e seda_config \<Rightarrow> int list res" where
  "get_stage_queue_status c =
     rmap (\<lambda>(_, so). case so of None \<Rightarrow> Inl Undefined | Some st \<Rightarrow> Inr (int (qlen st))) (stage_map c)"

text \<open>The factory \<open>init_seda\<close> registers.\<close>

definition session_factories :: "'e stage factories" where
  "session_factories = register_factory ''SessionStage'' (\<lambda>tag. Some new_stage) []"

section \<open>What each phase does to the maps\<close>

definition same_but_stages :: "'e seda_config \<Rightarrow> 'e seda_config \<Rightarrow> bool" where
  "same_but_stages c c' \<longleftrightarrow>
     thread_pools c' = thread_pools c \<and> stage_names c' = stage_names c \<and> seda_cfg c' = seda_cfg c"

lemma put_stage_simps [simp]:
  "thread_pools (put_stage n st c) = thread_pools c" "stage_names (put_stage n st c) = stage_names c"
  "seda_cfg (put_stage n st c) = seda_cfg c" "stage_map (put_stage n st c) = om_assign n (Some st) (stage_map c)"
  by (simp_all add: put_stage_def)

lemma get_thread_pool_cong:
  "thread_pools c' = thread_pools c \<Longrightarrow> seda_cfg c' = seda_cfg c \<Longrightarrow> get_thread_pool n c' = get_thread_pool n c"
  by (simp only: get_thread_pool_def)

lemma get_thread_pool_put [simp]: "get_thread_pool m (put_stage n st c) = get_thread_pool m c"
  by (rule get_thread_pool_cong) simp_all

lemma add_pools_ok:
  "add_pools cpu ns c = (SUCCESS, c') \<Longrightarrow> om_ok (thread_pools c) \<Longrightarrow> 0 < cpu \<Longrightarrow>
   (\<forall>n k. map_of (thread_pools c) n = Some k \<longrightarrow> 1 \<le> k \<and> k < 1000000) \<Longrightarrow>
   om_ok (thread_pools c') \<and> (\<forall>n k. map_of (thread_pools c') n = Some k \<longrightarrow> 1 \<le> k \<and> k < 1000000) \<and>
   stage_map c' = stage_map c \<and> stage_names c' = stage_names c"
proof (induction cpu ns c rule: add_pools.induct)
  case (2 cpu n ns c)
  obtain s cfg where g: "seda_get COUNT (show_int (int cpu)) n (seda_cfg c) = (s, cfg)"
    by (cases "seda_get COUNT (show_int (int cpu)) n (seda_cfg c)")
  define k where "k = (if str_to_int s < 1 then int cpu else str_to_int s)"
  let ?c1 = "c\<lparr>seda_cfg := cfg, thread_pools := om_assign n (nat k) (thread_pools c)\<rparr>"
  have k: "k < 1000000" and r: "add_pools cpu ns ?c1 = (SUCCESS, c')"
    using "2.prems"(1) g by (auto simp: Let_def k_def split: if_splits)
  have "1 \<le> k" using "2.prems"(3) by (simp add: k_def)
  then have "\<forall>m j. map_of (thread_pools ?c1) m = Some j \<longrightarrow> 1 \<le> j \<and> j < 1000000"
    using k "2.prems"(2,4) by (auto simp: map_of_om_assign)
  moreover have "om_ok (thread_pools ?c1)" using "2.prems"(2) by (simp add: om_ok_assign)
  ultimately have "om_ok (thread_pools c') \<and> (\<forall>n k. map_of (thread_pools c') n = Some k \<longrightarrow> 1 \<le> k \<and> k < 1000000) \<and>
      stage_map c' = stage_map ?c1 \<and> stage_names c' = stage_names ?c1"
    using "2.IH"[OF g[symmetric] refl refl] k r "2.prems"(3) by (simp add: k_def)
  then show ?case by simp
qed simp

lemma make_stages_ok:
  "make_stages facs ns c = Inr c' \<Longrightarrow> om_ok (stage_map c) \<Longrightarrow>
   same_but_stages c c' \<and> om_ok (stage_map c') \<and>
   (\<forall>n. n \<notin> set ns \<longrightarrow> map_of (stage_map c') n = map_of (stage_map c) n) \<and>
   (\<forall>n \<in> set ns. \<exists>st. make_instance facs n = Inr st \<and> \<not> connected st \<and>
      map_of (stage_map c') n = Some (Some (st\<lparr>th_pool := Some (get_thread_pool n c)\<rparr>)))"
proof (induction facs ns c rule: make_stages.induct)
  case (2 facs n ns c)
  let ?t = "get_thread_pool n c"
  obtain st st1 where st: "make_instance facs n = Inr st" "set_pool ?t st = Inr st1"
    and p: "map_of (thread_pools c) ?t \<noteq> None"
    and r: "make_stages facs ns (put_stage n st1 c) = Inr c'"
    using "2.prems"(1) by (auto simp: Let_def rbind_eq_Inr split: if_splits)
  have st1: "st1 = st\<lparr>th_pool := Some ?t\<rparr>" "\<not> connected st"
    using st(2) by (auto simp: set_pool_def split: if_splits)
  have ok: "om_ok (stage_map (put_stage n st1 c))" using "2.prems"(2) by (simp add: om_ok_assign)
  note I = "2.IH"[OF refl st(1) p st(2) r ok]
  have "map_of (stage_map c') m = map_of (stage_map c) m" if "m \<notin> set (n # ns)" for m
    using I that "2.prems"(2) by (simp add: map_of_om_assign)
  moreover have "\<exists>st. make_instance facs m = Inr st \<and> \<not> connected st \<and>
      map_of (stage_map c') m = Some (Some (st\<lparr>th_pool := Some (get_thread_pool m c)\<rparr>))"
    if "m \<in> set (n # ns)" for m
  proof (cases "m \<in> set ns")
    case True
    then show ?thesis using I by simp
  next
    case False
    with that have "m = n" by simp
    then show ?thesis using I False "2.prems"(2) st st1 by (auto simp: map_of_om_assign)
  qed
  ultimately show ?case using I by (simp add: same_but_stages_def)
qed (simp add: same_but_stages_def)

lemma push_nexts_ok:
  "push_nexts n ms c = Inr c' \<Longrightarrow> om_ok (stage_map c) \<Longrightarrow> map_of (stage_map c) n = Some (Some st) \<Longrightarrow>
   same_but_stages c c' \<and> om_ok (stage_map c') \<and>
   map_of (stage_map c') = (map_of (stage_map c))(n \<mapsto> Some (st\<lparr>next_stages := next_stages st @ ms\<rparr>)) \<and>
   (\<forall>m \<in> set ms. map_of (stage_map c) m \<noteq> None)"
proof (induction n ms c arbitrary: st rule: push_nexts.induct)
  case (2 n m ms c)
  obtain nx st1 where nx: "map_of (stage_map c) m = Some (Some nx)" and st1: "push_stage m st = Inr st1"
    and r: "push_nexts n ms (put_stage n st1 c) = Inr c'"
    using "2.prems"(1,3) by (auto simp: rbind_eq_Inr split: option.splits)
  have e: "st1 = st\<lparr>next_stages := next_stages st @ [m]\<rparr>" using st1 by (auto simp: push_stage_def split: if_splits)
  have ok: "om_ok (stage_map (put_stage n st1 c))" using "2.prems"(2) by (simp add: om_ok_assign)
  have "map_of (stage_map (put_stage n st1 c)) n = Some (Some st1)"
    using "2.prems"(2) by (simp add: map_of_om_assign)
  note I = "2.IH"[OF nx refl "2.prems"(3) refl st1 r ok this]
  have "map_of (stage_map c) k \<noteq> None" if "k \<in> set (m # ms)" for k
    using that I nx "2.prems"(2,3) by (cases "k = n") (auto simp: map_of_om_assign)
  moreover have "map_of (stage_map c') = (map_of (stage_map c))(n \<mapsto> Some (st\<lparr>next_stages := next_stages st @ m # ms\<rparr>))"
    using I e "2.prems"(2) by (auto simp: map_of_om_assign fun_eq_iff)
  ultimately show ?case using I by (simp add: same_but_stages_def)
qed (auto simp: same_but_stages_def fun_eq_iff)

definition next_names :: "string \<Rightarrow> 'e seda_config \<Rightarrow> string list" where
  "next_names n c =
     (case map_of (seda_section n (seda_cfg c)) NEXT_STAGES of None \<Rightarrow> [] | Some s \<Rightarrow> split_string s '','')"

lemma gen_nexts_ok:
  "gen_nexts ns c = Inr c' \<Longrightarrow> om_ok (stage_map c) \<Longrightarrow> distinct ns \<Longrightarrow>
   (\<forall>n \<in> set ns. \<exists>st. map_of (stage_map c) n = Some (Some st)) \<Longrightarrow>
   same_but_stages c c' \<and> om_ok (stage_map c') \<and> dom (map_of (stage_map c')) = dom (map_of (stage_map c)) \<and>
   (\<forall>n. n \<notin> set ns \<longrightarrow> map_of (stage_map c') n = map_of (stage_map c) n) \<and>
   (\<forall>n \<in> set ns. set (next_names n c) \<subseteq> dom (map_of (stage_map c)) \<and>
      (\<forall>st. map_of (stage_map c) n = Some (Some st) \<longrightarrow>
         map_of (stage_map c') n = Some (Some (st\<lparr>next_stages := next_stages st @ next_names n c\<rparr>))))"
proof (induction ns arbitrary: c)
  case (Cons n ns)
  obtain st where st: "map_of (stage_map c) n = Some (Some st)" using Cons.prems(4) by auto
  obtain c1 where c1: "push_nexts n (next_names n c) c = Inr c1" and r: "gen_nexts ns c1 = Inr c'"
    using Cons.prems(1) by (auto simp: next_names_def rbind_eq_Inr split: option.splits)
  note P = push_nexts_ok[OF c1 Cons.prems(2) st]
  have nn: "next_names m c1 = next_names m c" for m using P by (simp add: next_names_def same_but_stages_def)
  have ex: "\<forall>m \<in> set ns. \<exists>st. map_of (stage_map c1) m = Some (Some st)" using Cons.prems(3,4) P by auto
  have d: "dom (map_of (stage_map c1)) = dom (map_of (stage_map c))" using P st by (auto simp: dom_def fun_eq_iff)
  have "distinct ns" "om_ok (stage_map c1)" using Cons.prems(3) P by simp_all
  note I = Cons.IH[OF r this(2,1) ex, unfolded nn d]
  have "n \<notin> set ns" using Cons.prems(3) by simp
  have "set (next_names k c) \<subseteq> dom (map_of (stage_map c)) \<and>
      (\<forall>st. map_of (stage_map c) k = Some (Some st) \<longrightarrow>
         map_of (stage_map c') k = Some (Some (st\<lparr>next_stages := next_stages st @ next_names k c\<rparr>)))"
    if k: "k \<in> set (n # ns)" for k
  proof (cases "k = n")
    case True
    then show ?thesis using I P st \<open>n \<notin> set ns\<close> by auto
  next
    case False
    with k have "k \<in> set ns" by simp
    then show ?thesis using bspec[OF I[THEN conjunct2, THEN conjunct2, THEN conjunct2, THEN conjunct2]] P False by simp
  qed
  moreover have "map_of (stage_map c') k = map_of (stage_map c) k" if "k \<notin> set (n # ns)" for k
    using that I P by simp
  ultimately show ?case using I P by (simp add: same_but_stages_def)
qed (simp add: same_but_stages_def)

lemma start_stages_ok:
  "start_stages ini left m c = Inr (SUCCESS, c') \<Longrightarrow> om_ok (stage_map c) \<Longrightarrow> distinct (map fst m) \<Longrightarrow>
   same_but_stages c c' \<and> om_ok (stage_map c') \<and>
   (\<forall>n. map_of (stage_map c') n =
      (case map_of m n of
         Some (Some st) \<Rightarrow> Some (Some (st\<lparr>event_ref := int (length (event_list st)), connected := True\<rparr>))
       | _ \<Rightarrow> map_of (stage_map c) n))"
proof (induction ini left m c rule: start_stages.induct)
  case (2 ini left n so m c)
  show ?case
  proof (cases so)
    case None
    then show ?thesis using 2 by (auto split: option.splits simp: map_of_eq_None_iff)
  next
    case (Some st)
    obtain st1 backlog ret where ci: "connect_initialized ini n st = Inr (st1, backlog, ret)"
      using "2.prems"(1) Some by (auto simp: rbind_eq_Inr)
    then obtain ok where k: "connect_stage ok st = Inr (st1, backlog, ret)"
      by (auto simp: connect_initialized_def rbind_eq_Inr split: if_splits)
    have ret: "ret" using ci "2.prems"(1) Some by (auto simp: rbind_eq_Inr split: if_splits)
    then have st1: "st1 = st\<lparr>event_ref := int (length (event_list st)), connected := True\<rparr>"
      using k by (auto simp: connect_stage_def Let_def split: if_splits)
    have r: "start_stages ini left m (put_stage n st1 c) = Inr (SUCCESS, c')"
      using "2.prems"(1) Some ci ret by simp
    have ok: "om_ok (stage_map (put_stage n st1 c))" using "2.prems"(2) by (simp add: om_ok_assign)
    have "distinct (map fst m)" using "2.prems"(3) by simp
    note I = "2.IH"(2)[OF Some ci refl refl ret r ok this]
    have "map_of m n = None" using "2.prems"(3) by (auto simp: map_of_eq_None_iff)
    then show ?thesis
      using I "2.prems"(2) Some st1 by (auto simp: same_but_stages_def map_of_om_assign split: option.splits)
  qed
qed (simp add: same_but_stages_def)

section \<open>Initialisation as a whole\<close>

lemma and_then_success:
  "and_then r f = Inr (SUCCESS, c') \<longleftrightarrow> (\<exists>c. r = Inr (SUCCESS, c) \<and> f c = Inr (SUCCESS, c'))"
  by (auto simp: and_then_def rbind_eq_Inr split: if_splits)

lemma init_thread_pool_ok:
  assumes "init_thread_pool cpu c = Inr (SUCCESS, c')" "thread_pools c = []" "0 < cpu"
  shows "map_of (thread_pools c') DEFAULT_THREAD_POOL \<noteq> None"
    "\<forall>n k. map_of (thread_pools c') n = Some k \<longrightarrow> 1 \<le> k \<and> k < 1000000"
    "stage_map c' = stage_map c" "stage_names c' = stage_names c"
proof -
  obtain names where a: "add_pools cpu (split_string names '','') c = (SUCCESS, c')"
    and d: "map_of (thread_pools c') DEFAULT_THREAD_POOL \<noteq> None"
    using assms(1)
    by (auto simp: init_thread_pool_def Let_def rbind_eq_Inr split: option.splits prod.splits if_splits)
  show "map_of (thread_pools c') DEFAULT_THREAD_POOL \<noteq> None" by (rule d)
  show "\<forall>n k. map_of (thread_pools c') n = Some k \<longrightarrow> 1 \<le> k \<and> k < 1000000"
    "stage_map c' = stage_map c" "stage_names c' = stage_names c"
    using add_pools_ok[OF a] assms(2,3) by simp_all
qed

lemma pool_exists:
  "map_of (thread_pools c) DEFAULT_THREAD_POOL \<noteq> None \<Longrightarrow> map_of (thread_pools c) (get_thread_pool n c) \<noteq> None"
  by (auto simp: get_thread_pool_def split: option.splits)

lemma push_nexts_names: "push_nexts n ms c = Inr c' \<Longrightarrow> stage_names c' = stage_names c"
  by (induction n ms c rule: push_nexts.induct) (auto simp: rbind_eq_Inr split: option.splits)

lemma gen_nexts_names: "gen_nexts ns c = Inr c' \<Longrightarrow> stage_names c' = stage_names c"
  by (induction ns arbitrary: c) (auto simp: rbind_eq_Inr split: option.splits dest: push_nexts_names)

lemma start_stages_names: "start_stages ini left m c = Inr (SUCCESS, c') \<Longrightarrow> stage_names c' = stage_names c"
  by (induction ini left m c rule: start_stages.induct) (auto simp: rbind_eq_Inr split: option.splits if_splits)

definition stage_ready :: "'e stage factories \<Rightarrow> 'e seda_config \<Rightarrow> string \<Rightarrow> bool" where
  "stage_ready facs c n \<longleftrightarrow>
     (\<exists>st0. make_instance facs n = Inr st0 \<and>
        map_of (stage_map c) n =
          Some (Some (st0\<lparr>th_pool := Some (get_thread_pool n c), next_stages := next_stages st0 @ next_names n c,
                         event_ref := int (length (event_list st0)), connected := True\<rparr>))) \<and>
     set (next_names n c) \<subseteq> set (stage_names c)"

text \<open>After \<open>init_stages\<close>: a fresh instance for every name, with its pool.\<close>

definition stages_made :: "'e stage factories \<Rightarrow> 'e seda_config \<Rightarrow> bool" where
  "stages_made facs c \<longleftrightarrow> om_ok (stage_map c) \<and> (\<forall>n. map_of (stage_map c) n \<noteq> None \<longleftrightarrow> n \<in> set (stage_names c)) \<and>
     (\<forall>n \<in> set (stage_names c). \<exists>st0. make_instance facs n = Inr st0 \<and>
        map_of (stage_map c) n = Some (Some (st0\<lparr>th_pool := Some (get_thread_pool n c)\<rparr>)))"

lemma init_stages_ok:
  assumes c2: "init_stages facs c1 = Inr (SUCCESS, c2)" and e: "stage_map c1 = []"
  shows "stages_made facs c2 \<and> thread_pools c2 = thread_pools c1"
proof -
  obtain names where m: "make_stages facs (stage_names c1 @ names) (c1\<lparr>stage_names := stage_names c1 @ names\<rparr>) = Inr c2"
    using c2 by (auto simp: init_stages_def Let_def rbind_eq_Inr split: option.splits if_splits)
  note M = make_stages_ok[OF m]
  have s2: "stage_names c2 = stage_names c1 @ names" "om_ok (stage_map c2)" "thread_pools c2 = thread_pools c1"
    "seda_cfg c2 = seda_cfg c1"
    using M e by (simp_all add: same_but_stages_def)
  have t2: "get_thread_pool n c2 = get_thread_pool n (c1\<lparr>stage_names := stage_names c1 @ names\<rparr>)" for n
    by (rule get_thread_pool_cong) (simp_all add: s2)
  have in2: "\<exists>st0. make_instance facs n = Inr st0 \<and> map_of (stage_map c2) n = Some (Some (st0\<lparr>th_pool := Some (get_thread_pool n c2)\<rparr>))"
    if "n \<in> set (stage_names c2)" for n
    using M that e s2(1) t2 by fastforce
  have "map_of (stage_map c2) n = None" if "n \<notin> set (stage_names c2)" for n
    using M that e s2(1) by simp
  then have "map_of (stage_map c2) n \<noteq> None \<longleftrightarrow> n \<in> set (stage_names c2)" for n
    using in2[of n] by (cases "n \<in> set (stage_names c2)") auto
  then show ?thesis using s2 in2 by (simp add: stages_made_def)
qed

text \<open>After \<open>gen_next_stages\<close> and \<open>start\<close>.\<close>

lemma started_ok:
  assumes c2: "stages_made facs c2" and c3: "gen_next_stages c2 = Inr (SUCCESS, c3)"
    and c4: "start ini left c3 = Inr (SUCCESS, c')" and d: "distinct (stage_names c')"
  shows "om_ok (stage_map c')" "thread_pools c' = thread_pools c2"
    "\<forall>n. map_of (stage_map c') n \<noteq> None \<longleftrightarrow> n \<in> set (stage_names c')" "\<forall>n \<in> set (stage_names c'). stage_ready facs c' n"
proof -
  note m = c2[unfolded stages_made_def]
  have g: "gen_nexts (stage_names c2) c2 = Inr c3" using c3 by (auto simp: gen_next_stages_def rbind_eq_Inr)
  have st: "start_stages ini left (stage_map c3) c3 = Inr (SUCCESS, c')" using c4 by (auto simp: start_def split: if_splits)
  have d2: "distinct (stage_names c2)" using d gen_nexts_names[OF g] start_stages_names[OF st] by simp
  have "\<forall>n \<in> set (stage_names c2). \<exists>st. map_of (stage_map c2) n = Some (Some st)" using m by blast
  note G = gen_nexts_ok[OF g conjunct1[OF m] d2 this]
  have "om_ok (stage_map c3)" using G by simp
  note S = start_stages_ok[OF st this om_ok_distinct[OF this]]
  have same: "stage_names c' = stage_names c2" "thread_pools c' = thread_pools c2" "seda_cfg c' = seda_cfg c2"
    using G S by (simp_all add: same_but_stages_def)
  have t': "get_thread_pool n c' = get_thread_pool n c2" "next_names n c' = next_names n c2" for n
    by (rule get_thread_pool_cong) (simp_all add: same next_names_def)
  show "om_ok (stage_map c')" "thread_pools c' = thread_pools c2" using S same(2) by simp_all
  have "map_of (stage_map c3) n \<noteq> None \<longleftrightarrow> n \<in> dom (map_of (stage_map c2))" for n using G by auto
  then have dom3: "map_of (stage_map c3) n \<noteq> None \<longleftrightarrow> n \<in> set (stage_names c2)" for n using m by auto
  have "map_of (stage_map c') n = None \<longleftrightarrow> map_of (stage_map c3) n = None" for n using S by (auto split: option.splits)
  then show "\<forall>n. map_of (stage_map c') n \<noteq> None \<longleftrightarrow> n \<in> set (stage_names c')" using dom3 by (simp add: same(1))
  show "\<forall>n \<in> set (stage_names c'). stage_ready facs c' n"
  proof
    fix n assume "n \<in> set (stage_names c')"
    then have n: "n \<in> set (stage_names c2)" by (simp add: same(1))
    then obtain st0 where st0: "make_instance facs n = Inr st0"
      and m2: "map_of (stage_map c2) n = Some (Some (st0\<lparr>th_pool := Some (get_thread_pool n c2)\<rparr>))"
      using m by blast
    note g = bspec[OF G[THEN conjunct2, THEN conjunct2, THEN conjunct2, THEN conjunct2] n]
    have m3: "map_of (stage_map c3) n =
        Some (Some (st0\<lparr>th_pool := Some (get_thread_pool n c2), next_stages := next_stages st0 @ next_names n c2\<rparr>))"
      using g m2 by simp
    have "set (next_names n c2) \<subseteq> set (stage_names c2)" using g m by auto
    then show "stage_ready facs c' n" using S st0 m3 unfolding stage_ready_def t' same(1) by simp
  qed
qed

lemma init_ok:
  assumes i: "init cpu facs ini left c = Inr (SUCCESS, c')" and cpu: "0 < cpu" and d: "distinct (stage_names c')"
  shows "map_of (thread_pools c') DEFAULT_THREAD_POOL \<noteq> None"
    "\<forall>n k. map_of (thread_pools c') n = Some k \<longrightarrow> 1 \<le> k \<and> k < 1000000"
    "om_ok (stage_map c')" "\<forall>n. map_of (stage_map c') n \<noteq> None \<longleftrightarrow> n \<in> set (stage_names c')"
    "\<forall>n \<in> set (stage_names c'). stage_ready facs c' n"
proof -
  obtain c1 c2 c3 where e: "stage_map c = []" "thread_pools c = []"
    and c1: "init_thread_pool cpu c = Inr (SUCCESS, c1)" and c2: "init_stages facs c1 = Inr (SUCCESS, c2)"
    and c3: "gen_next_stages c2 = Inr (SUCCESS, c3)" and c4: "start ini left c3 = Inr (SUCCESS, c')"
    using i by (auto simp: init_def instantiate_def and_then_success split: if_splits)
  note T = init_thread_pool_ok[OF c1 e(2) cpu]
  have M: "stages_made facs c2" "thread_pools c2 = thread_pools c1" using init_stages_ok[OF c2] T(3) e(1) by simp_all
  note S = started_ok[OF M(1) c3 c4 d]
  show "map_of (thread_pools c') DEFAULT_THREAD_POOL \<noteq> None"
    "\<forall>n k. map_of (thread_pools c') n = Some k \<longrightarrow> 1 \<le> k \<and> k < 1000000"
    using T(1,2) by (simp_all add: S(2) M(2))
  show "om_ok (stage_map c')" "\<forall>n. map_of (stage_map c') n \<noteq> None \<longleftrightarrow> n \<in> set (stage_names c')"
    "\<forall>n \<in> set (stage_names c'). stage_ready facs c' n" by (rule S)+
qed

text \<open>The configuration the server starts with.\<close>

lemma str_to_int_3 [simp]: "str_to_int ''3'' = 3"
  by code_simp

lemma default_seda_lookup:
  "map_of default_seda ''SEDA_BASE'' = Some [(''EventHistory'', ''false''), (''MaxEventHistoryNum'', ''100''),
     (''STAGES'', ''SessionStage''), (''ThreadPools'', ''SQLThreads,IOThreads,DefaultThreads'')]"
  "map_of default_seda ''SQLThreads'' = Some [(''count'', ''3'')]"
  "map_of default_seda ''IOThreads'' = Some [(''count'', ''3'')]"
  "map_of default_seda ''DefaultThreads'' = Some [(''count'', ''3'')]"
  "map_of default_seda ''SessionStage'' = Some [(''ThreadId'', ''SQLThreads'')]"
  by code_simp+

text \<open>\<open>split_string\<close> on the names of the default configuration.\<close>

lemma default_split:
  "split_string ''SQLThreads,IOThreads,DefaultThreads'' '','' = [''SQLThreads'', ''IOThreads'', ''DefaultThreads'']"
  "split_string ''SessionStage'' '','' = [''SessionStage'']"
  by code_simp+

definition session_stage :: "'e stage" where
  "session_stage = new_stage\<lparr>th_pool := Some ''SQLThreads'', event_ref := 0, connected := True\<rparr>"

text \<open>\<open>SessionStage::initialize\<close>: the first of the next stages becomes \<open>plan_cache_stage_\<close>, and the return value is true.
  Of an empty list the C++ standard leaves the read undefined; \<open>front\<close> is what it gives in the implementation at hand, if
  the program goes on after it.\<close>

definition session_initialize :: "string option \<Rightarrow> 'e stage \<Rightarrow> (string \<times> bool) res" where
  "session_initialize front st =
     (case next_stages st of
        [] \<Rightarrow> (case front of None \<Rightarrow> Inl Undefined | Some n \<Rightarrow> Inr (n, True))
      | n # _ \<Rightarrow> Inr (n, True))"

definition initialize_stage :: "string option \<Rightarrow> string \<Rightarrow> 'e stage \<Rightarrow> bool res" where
  "initialize_stage front _ st = rbind (session_initialize front st) (\<lambda>(_, ok). Inr ok)"

text \<open>The pool phase and the stage phase, with stage names left over or not.\<close>

lemma default_pools:
  "init_thread_pool cpu \<lparr>thread_pools = [], stage_map = [], stage_names = ns, seda_cfg = default_seda\<rparr> =
     Inr (SUCCESS, \<lparr>thread_pools = [(''DefaultThreads'', 3), (''IOThreads'', 3), (''SQLThreads'', 3)], stage_map = [],
        stage_names = ns, seda_cfg = default_seda\<rparr>)"
proof -
  have less: "''IOThreads'' < ''SQLThreads''" "''DefaultThreads'' < ''IOThreads''" "''DefaultThreads'' < ''SQLThreads''"
    by code_simp+
  then show ?thesis
    by (simp add: init_thread_pool_def new_config_def seda_section_def seda_names default_seda_lookup default_split
        seda_get_def Let_def)
qed

lemmas default_stage_simps = init_stages_def seda_section_def seda_names default_seda_lookup default_split
  session_factories_def register_factory_def make_instance_def get_thread_pool_def set_pool_def put_stage_def
  new_stage_def init_def instantiate_def and_then_def gen_next_stages_def start_def connect_stage_def
  connect_initialized_def session_stage_def

lemma default_init:
  assumes "ini ''SessionStage'' (new_stage\<lparr>th_pool := Some ''SQLThreads''\<rparr>) = Inr True"
  shows "init cpu session_factories ini left new_config =
     Inr (SUCCESS, \<lparr>thread_pools = [(''DefaultThreads'', 3), (''IOThreads'', 3), (''SQLThreads'', 3)],
        stage_map = [(''SessionStage'', Some session_stage)], stage_names = [''SessionStage''], seda_cfg = default_seda\<rparr>)"
  using assms by (simp add: new_config_def default_pools default_stage_simps Let_def)

lemma default_init_fails:
  assumes "ini ''SessionStage'' (new_stage\<lparr>th_pool := Some ''SQLThreads''\<rparr>) = Inl e"
  shows "init cpu session_factories ini left new_config = Inl e"
  using assms by (simp add: new_config_def default_pools default_stage_simps Let_def)

lemma default_session_initialize:
  "initialize_stage front ''SessionStage'' (new_stage\<lparr>th_pool := Some ''SQLThreads''\<rparr>) =
     (case front of None \<Rightarrow> Inl Undefined | Some _ \<Rightarrow> Inr True)"
  by (simp add: initialize_stage_def session_initialize_def new_stage_def split: option.split)

lemma default_init_again:
  "\<exists>c. init cpu session_factories (\<lambda>_ _. Inr True) left (new_config\<lparr>stage_names := [''SessionStage'']\<rparr>) = Inr (SUCCESS, c)"
  by (simp add: new_config_def default_pools default_stage_simps Let_def)

section \<open>Taking it down\<close>

lemma disconnect_total:
  "connected st \<Longrightarrow> \<exists>st'. disconnect left st = Inr st' \<and> \<not> connected st'"
  by (simp add: disconnect_def disconnect_start_def disconnect_resume_def disconnect_loop_def signal_disconnect_def Let_def)

lemma rmap_total:
  "(\<forall>x \<in> set xs. \<exists>y. f x = Inr y \<and> P y) \<Longrightarrow> \<exists>ys. rmap f xs = Inr ys \<and> list_all P ys"
  by (induction xs) auto

lemma cleanup_total:
  "\<exists>c'. cleanup left c = Inr c' \<and> stage_map c' = [] \<and> thread_pools c' = [] \<and> stage_names c' = stage_names c"
proof -
  let ?P = "\<lambda>(_, so). case so of None \<Rightarrow> True | Some st \<Rightarrow> \<not> connected st"
  let ?f = "\<lambda>(n, so).
      case so of
        None \<Rightarrow> Inr (n, None)
      | Some st \<Rightarrow> if connected st then rbind (disconnect (left n) st) (\<lambda>st1. Inr (n, Some st1)) else Inr (n, Some st)"
  have "\<exists>y. ?f x = Inr y \<and> ?P y" for x
  proof (cases x)
    case (Pair n so)
    show ?thesis
    proof (cases so)
      case (Some st)
      then show ?thesis using disconnect_total[of st "left n"] Pair by (cases "connected st") auto
    qed (simp add: Pair)
  qed
  then obtain m where "rmap ?f (stage_map c) = Inr m" "list_all ?P m"
    using rmap_total[of "stage_map c" ?f ?P] by blast
  then show ?thesis by (simp add: cleanup_def clear_config_def)
qed

lemma add_pools_names: "add_pools cpu ns c = (s, c') \<Longrightarrow> stage_names c' = stage_names c"
  by (induction cpu ns c rule: add_pools.induct) (auto simp: Let_def split: prod.splits if_splits)

lemma init_names:
  assumes "init cpu facs ini left c = Inr (SUCCESS, c')"
  shows "\<exists>names. stage_names c' = stage_names c @ names"
proof -
  obtain c1 c2 c3 where c1: "init_thread_pool cpu c = Inr (SUCCESS, c1)"
    and c2: "init_stages facs c1 = Inr (SUCCESS, c2)" and e: "stage_map c = []"
    and c3: "gen_next_stages c2 = Inr (SUCCESS, c3)" and c4: "start ini left c3 = Inr (SUCCESS, c')"
    using assms by (auto simp: init_def instantiate_def and_then_success split: if_splits)
  have "stage_names c1 = stage_names c"
    using c1 by (auto simp: init_thread_pool_def Let_def rbind_eq_Inr clear_config_def dest: add_pools_names
        split: option.splits prod.splits if_splits)
  moreover have "stage_names c3 = stage_names c2"
    using c3 by (auto simp: gen_next_stages_def rbind_eq_Inr dest: gen_nexts_names)
  moreover have "stage_names c' = stage_names c3"
    using c4 by (auto simp: start_def dest: start_stages_names split: if_splits)
  moreover have "\<exists>names. stage_names c2 = stage_names c1 @ names"
  proof -
    have k: "make_stages facs ns d = Inr d' \<Longrightarrow> stage_names d' = stage_names d" for ns and d d' :: "'a seda_config"
      by (induction facs ns d rule: make_stages.induct) (auto simp: rbind_eq_Inr Let_def split: if_splits)
    show ?thesis using c2
      by (auto simp: init_stages_def Let_def rbind_eq_Inr dest!: k split: option.splits if_splits)
  qed
  ultimately show ?thesis by simp
qed

section \<open>What the configuration says\<close>

text \<open>The entry of a stage's section.\<close>

definition setting :: "string \<Rightarrow> string \<Rightarrow> 'e seda_config \<Rightarrow> string option" where
  "setting n key c = Option.bind (map_of (seda_cfg c) n) (\<lambda>m. map_of m key)"

lemma pool_named:
  "(\<forall>id. setting n ''ThreadId'' c = Some id \<and> id \<noteq> [] \<and> map_of (thread_pools c) id \<noteq> None \<longrightarrow> get_thread_pool n c = id) \<and>
   (\<not> (\<exists>id. setting n ''ThreadId'' c = Some id \<and> id \<noteq> [] \<and> map_of (thread_pools c) id \<noteq> None) \<longrightarrow>
     get_thread_pool n c = ''DefaultThreads'')"
  by (auto simp: setting_def get_thread_pool_def seda_section_def seda_names split: option.splits bind_splits)

lemma nexts_named:
  "(\<forall>v. setting n ''NextStages'' c = Some v \<longrightarrow> next_names n c = split_string v '','') \<and>
   (setting n ''NextStages'' c = None \<longrightarrow> next_names n c = [])"
  by (auto simp: setting_def next_names_def seda_section_def seda_names split: option.splits bind_splits)

section \<open>Properties\<close>

text \<open>C24. If \<open>SedaConfig::init\<close> succeeds and no stage is named twice, then the default pool exists and every pool has
  between one and 999999 threads; the stages are exactly the configured ones; and each of them is an instance of its
  factory, connected to the pool that the entry \<open>ThreadId\<close> of its section names, if there is such an entry and a pool by
  that name, and to the default pool otherwise; and its next stages are those of the entry \<open>NextStages\<close> of its section, in
  order, all of them configured.\<close>

theorem seda_init_ready:
  assumes "init cpu facs ini left c = Inr (SUCCESS, c')" "0 < cpu" "distinct (stage_names c')"
  shows "map_of (thread_pools c') ''DefaultThreads'' \<noteq> None \<and>
    (\<forall>n k. map_of (thread_pools c') n = Some k \<longrightarrow> 1 \<le> k \<and> k < 1000000) \<and>
    (\<forall>n. map_of (stage_map c') n \<noteq> None \<longleftrightarrow> n \<in> set (stage_names c')) \<and>
    (\<forall>n \<in> set (stage_names c'). \<exists>st st0 pl nexts. map_of (stage_map c') n = Some (Some st) \<and> connected st \<and>
       th_pool st = Some pl \<and> map_of (thread_pools c') pl \<noteq> None \<and>
       (\<forall>id. setting n ''ThreadId'' c' = Some id \<and> id \<noteq> [] \<and> map_of (thread_pools c') id \<noteq> None \<longrightarrow> pl = id) \<and>
       (\<not> (\<exists>id. setting n ''ThreadId'' c' = Some id \<and> id \<noteq> [] \<and> map_of (thread_pools c') id \<noteq> None) \<longrightarrow>
          pl = ''DefaultThreads'') \<and>
       make_instance facs n = Inr st0 \<and> next_stages st = next_stages st0 @ nexts \<and>
       (\<forall>v. setting n ''NextStages'' c' = Some v \<longrightarrow> nexts = split_string v '','') \<and>
       (setting n ''NextStages'' c' = None \<longrightarrow> nexts = []) \<and> set nexts \<subseteq> set (stage_names c'))"
proof (intro conjI ballI)
  note I = init_ok[OF assms]
  show "map_of (thread_pools c') ''DefaultThreads'' \<noteq> None" using I(1) by (simp add: seda_names)
  show "\<forall>n k. map_of (thread_pools c') n = Some k \<longrightarrow> 1 \<le> k \<and> k < 1000000"
    "\<forall>n. map_of (stage_map c') n \<noteq> None \<longleftrightarrow> n \<in> set (stage_names c')"
    using I by blast+
  fix n assume "n \<in> set (stage_names c')"
  then have "stage_ready facs c' n" using I(5) by blast
  then obtain st0 where s: "make_instance facs n = Inr st0" "map_of (stage_map c') n =
        Some (Some (st0\<lparr>th_pool := Some (get_thread_pool n c'), next_stages := next_stages st0 @ next_names n c',
                         event_ref := int (length (event_list st0)), connected := True\<rparr>))"
      "set (next_names n c') \<subseteq> set (stage_names c')"
    by (auto simp: stage_ready_def)
  show "\<exists>st st0 pl nexts. map_of (stage_map c') n = Some (Some st) \<and> connected st \<and>
       th_pool st = Some pl \<and> map_of (thread_pools c') pl \<noteq> None \<and>
       (\<forall>id. setting n ''ThreadId'' c' = Some id \<and> id \<noteq> [] \<and> map_of (thread_pools c') id \<noteq> None \<longrightarrow> pl = id) \<and>
       (\<not> (\<exists>id. setting n ''ThreadId'' c' = Some id \<and> id \<noteq> [] \<and> map_of (thread_pools c') id \<noteq> None) \<longrightarrow>
          pl = ''DefaultThreads'') \<and>
       make_instance facs n = Inr st0 \<and> next_stages st = next_stages st0 @ nexts \<and>
       (\<forall>v. setting n ''NextStages'' c' = Some v \<longrightarrow> nexts = split_string v '','') \<and>
       (setting n ''NextStages'' c' = None \<longrightarrow> nexts = []) \<and> set nexts \<subseteq> set (stage_names c')"
    by (rule exI[of _ "st0\<lparr>th_pool := Some (get_thread_pool n c'), next_stages := next_stages st0 @ next_names n c',
          event_ref := int (length (event_list st0)), connected := True\<rparr>"], rule exI[of _ st0],
         rule exI[of _ "get_thread_pool n c'"], rule exI[of _ "next_names n c'"])
      (use s pool_exists[OF I(1), of n] pool_named[of n c'] nexts_named[of n c'] in simp)
qed

theorem seda_init_ready_witness:
  "\<exists>c' :: nat seda_config. init 8 session_factories (\<lambda>_ _. Inr True) (\<lambda>_. []) new_config = Inr (SUCCESS, c') \<and>
     map_of (thread_pools c') ''DefaultThreads'' \<noteq> None"
proof -
  let ?c = "\<lparr>thread_pools = [(''DefaultThreads'', 3), (''IOThreads'', 3), (''SQLThreads'', 3)],
        stage_map = [(''SessionStage'', Some session_stage)], stage_names = [''SessionStage''],
        seda_cfg = default_seda\<rparr> :: nat seda_config"
  have i: "init 8 session_factories (\<lambda>_ _. Inr True) (\<lambda>_. []) new_config = Inr (SUCCESS, ?c)" by (rule default_init) simp
  have "map_of (thread_pools ?c) ''DefaultThreads'' \<noteq> None"
    by (rule conjunct1[OF seda_init_ready[OF i]]) simp_all
  with i show ?thesis by blast
qed

text \<open>The server's own configuration: three pools of three threads, and the session stage, connected to \<open>SQLThreads\<close>, which
  \<open>get_stage\<close> finds; if, that is, the program survives that the session stage reads the first of its next stages, which are
  none.\<close>

theorem seda_default_start:
  "init cpu session_factories (initialize_stage None) left new_config = Inl Undefined \<and>
   (\<exists>c'. init cpu session_factories (initialize_stage (Some x)) left new_config = Inr (SUCCESS, c') \<and>
     thread_pools c' = [(''DefaultThreads'', 3), (''IOThreads'', 3), (''SQLThreads'', 3)] \<and>
     get_stage (Some SESSION_STAGE_NAME) c' = (Some session_stage, c') \<and> get_stage_queue_status c' = Inr [0])"
  by (simp add: default_init default_init_fails default_session_initialize get_stage_def SESSION_STAGE_NAME_def
      get_stage_queue_status_def qlen_def session_stage_def)
    (simp add: new_stage_def)

text \<open>After any initialisation \<open>cleanup\<close> disconnects and deletes every stage and pool, so that \<open>init\<close> may run
  again; but the list of stage names stays, and the next \<open>init\<close> appends to it, so that every stage of the first
  configuration is made a second time (and lost, if the name is the same).\<close>

theorem seda_cleanup_then_init:
  "\<exists>c1. cleanup left c = Inr c1 \<and> stage_map c1 = [] \<and> thread_pools c1 = [] \<and> stage_names c1 = stage_names c \<and>
     init_thread_pool cpu c1 \<noteq> Inl Assert_failed \<and>
     (\<forall>c2. init cpu facs ini left c1 = Inr (SUCCESS, c2) \<longrightarrow> (\<exists>names. stage_names c2 = stage_names c @ names))"
proof -
  obtain c1 where c1: "cleanup left c = Inr c1" "stage_map c1 = []" "thread_pools c1 = []" "stage_names c1 = stage_names c"
    using cleanup_total by blast
  have "stage_map c2 = []" if "add_pools cpu ns c1 = (s, c2)" for ns s c2
  proof -
    have "add_pools cpu ns d = (s, c2) \<Longrightarrow> stage_map c2 = stage_map d" for d
      by (induction cpu ns d rule: add_pools.induct) (auto simp: Let_def split: prod.splits if_splits)
    then show ?thesis using that c1(2) by simp
  qed
  then have "init_thread_pool cpu c1 \<noteq> Inl Assert_failed"
    by (auto simp: init_thread_pool_def clear_config_def Let_def rbind_def split: option.splits prod.splits if_splits)
  then show ?thesis using c1 init_names[of cpu facs ini left c1] by (intro exI[of _ c1]) simp
qed


theorem seda_cleanup_then_init_witness:
  "\<exists>c1 c2 :: nat seda_config.
     cleanup (\<lambda>_. []) (new_config\<lparr>stage_names := [''SessionStage'']\<rparr>) = Inr c1 \<and>
     init 8 session_factories (\<lambda>_ _. Inr True) (\<lambda>_. []) c1 = Inr (SUCCESS, c2) \<and>
     (\<exists>names. stage_names c2 = ''SessionStage'' # names)"
proof -
  let ?c = "new_config\<lparr>stage_names := [''SessionStage'']\<rparr> :: nat seda_config"
  obtain c1 where c1: "cleanup (\<lambda>_. []) ?c = Inr c1" "stage_map c1 = []" "thread_pools c1 = []" "stage_names c1 = [''SessionStage'']"
    and n: "\<forall>c2. init 8 session_factories (\<lambda>_ _. Inr True) (\<lambda>_. []) c1 = Inr (SUCCESS, c2) \<longrightarrow>
        (\<exists>names. stage_names c2 = stage_names ?c @ names)"
    using seda_cleanup_then_init[of "\<lambda>_. []" ?c 8 session_factories "\<lambda>_ _. Inr True"] by auto
  have "c1 = ?c" using c1(1) by (simp add: cleanup_def clear_config_def new_config_def)
  then obtain c2 where "init 8 session_factories (\<lambda>_ _. Inr True) (\<lambda>_. []) c1 = Inr (SUCCESS, c2)"
    using default_init_again[of 8 "\<lambda>_. []"] by blast
  then show ?thesis using c1 n by auto
qed

lemma make_stages_unknown:
  "n \<in> set ns \<Longrightarrow> map_of facs n = None \<Longrightarrow> make_stages facs ns c = Inl Assert_failed"
proof (induction facs ns c rule: make_stages.induct)
  case (2 facs m ns c)
  show ?case
  proof (cases "make_instance facs m")
    case (Inl e)
    then show ?thesis by (auto simp: make_instance_def Let_def split: option.splits)
  next
    case (Inr st)
    then have "n \<noteq> m" using 2 by (auto simp: make_instance_def)
    with 2 have n: "n \<in> set ns" by simp
    show ?thesis
    proof (cases "map_of (thread_pools c) (get_thread_pool m c)")
      case (Some k)
      then show ?thesis
        using 2(1)[OF refl Inr _ _ n 2(3)] Inr
        by (cases "set_pool (get_thread_pool m c) st") (auto simp: Let_def set_pool_def split: if_splits)
    qed (simp add: Inr Let_def)
  qed
qed simp

text \<open>Configurations that are refused: without a list of pools \<open>init\<close> returns \<open>INITFAIL\<close> and changes nothing; where
  the pool phase fails, \<open>init\<close> returns \<open>INITFAIL\<close> but keeps the pools made so far (unlike the later phases, which
  clear), so that the next \<open>init\<close> fails its precondition; a stage without a registered factory fails an assertion.\<close>

theorem seda_init_errors:
  assumes "stage_map c = []" "thread_pools c = []"
  shows "(map_of (seda_section SEDA_BASE_NAME (seda_cfg c)) THREAD_POOLS_NAME = None \<longrightarrow>
       init cpu facs ini left c = Inr (INITFAIL, c)) \<and>
    (\<forall>c1. init_thread_pool cpu c = Inr (INITFAIL, c1) \<longrightarrow>
       init cpu facs ini left c = Inr (INITFAIL, c1) \<and>
       (thread_pools c1 \<noteq> [] \<longrightarrow> init cpu facs ini left c1 = Inl Assert_failed)) \<and>
    (\<forall>c1 s n. init_thread_pool cpu c = Inr (SUCCESS, c1) \<and>
       map_of (seda_section SEDA_BASE_NAME (seda_cfg c1)) STAGES = Some s \<and> n \<in> set (split_string s '','') \<and>
       map_of facs n = None \<longrightarrow> init cpu facs ini left c = Inl Assert_failed)"
proof (intro conjI allI impI)
  have e: "init cpu facs ini left c = Inr (INITFAIL, c1)" if "init_thread_pool cpu c = Inr (INITFAIL, c1)" for c1
    using assms that by (simp add: init_def instantiate_def and_then_def)
  show "init cpu facs ini left c = Inr (INITFAIL, c)"
    if "map_of (seda_section SEDA_BASE_NAME (seda_cfg c)) THREAD_POOLS_NAME = None"
    using that by (intro e) (simp add: init_thread_pool_def)
  fix c1
  assume f: "init_thread_pool cpu c = Inr (INITFAIL, c1)"
  show "init cpu facs ini left c = Inr (INITFAIL, c1)" by (rule e[OF f])
  show "init cpu facs ini left c1 = Inl Assert_failed" if "thread_pools c1 \<noteq> []"
    using that by (simp add: init_def)
next
  fix c1 s n
  assume a: "init_thread_pool cpu c = Inr (SUCCESS, c1) \<and>
       map_of (seda_section SEDA_BASE_NAME (seda_cfg c1)) STAGES = Some s \<and> n \<in> set (split_string s '','') \<and>
       map_of facs n = None"
  then have "init_stages facs c1 = Inl Assert_failed"
    using make_stages_unknown[of n "stage_names c1 @ split_string s '',''" facs]
    by (simp add: init_stages_def Let_def)
  then show "init cpu facs ini left c = Inl Assert_failed"
    using assms a by (simp add: init_def instantiate_def and_then_def)
qed

theorem seda_init_errors_witness:
  "\<exists>c1 :: nat seda_config.
     init 4 session_factories (\<lambda>_ _. Inr True) (\<lambda>_. [])
       (new_config\<lparr>seda_cfg := [(''A'', [(''count'', ''2'')]), (''SEDA_BASE'', [(''ThreadPools'', ''A'')])]\<rparr>) =
         Inr (INITFAIL, c1) \<and>
     thread_pools c1 = [(''A'', 2)] \<and> init 4 session_factories (\<lambda>_ _. Inr True) (\<lambda>_. []) c1 = Inl Assert_failed"
proof -
  let ?c = "new_config\<lparr>seda_cfg := [(''A'', [(''count'', ''2'')]), (''SEDA_BASE'', [(''ThreadPools'', ''A'')])]\<rparr> :: nat seda_config"
  have v: "str_to_int ''2'' = 2" "split_string ''A'' '','' = [''A'']" by code_simp+
  have i: "init_thread_pool 4 ?c = Inr (INITFAIL, ?c\<lparr>thread_pools := [(''A'', 2)]\<rparr>)"
    by (simp add: init_thread_pool_def new_config_def seda_section_def seda_names seda_get_def v Let_def)
  have e: "stage_map ?c = []" "thread_pools ?c = []" by (simp_all add: new_config_def)
  note E = seda_init_errors[OF e, of 4 session_factories "\<lambda>_ _. Inr True" "\<lambda>_. []", THEN conjunct2, THEN conjunct1, rule_format, OF i]
  show ?thesis using E by (intro exI[of _ "?c\<lparr>thread_pools := [(''A'', 2)]\<rparr>"]) simp
qed

end
