(* ===== verification/Server.thy ===== *)
theory Server
  imports Net_IO Seda_Event Seda_Config
begin

text \<open>
  The server (\<open>backend/server.cpp\<close>), the connections it keeps, the events it hands to the session stage, and
  what that stage does with them (\<open>seda/session_stage.cpp\<close>, \<open>session_event.cpp\<close>); and how the client connects
  (\<open>client/vulcan_client.cpp\<close>). System calls and libevent are arguments: each operation gets what its calls
  return. The state lists the open descriptors of the process, so that leaks and wrong closes show. A connection
  is named by its descriptor's context, numbered in order of creation.
\<close>

section \<open>State\<close>

record connection =
  ctx_name :: nat
  ctx_fd :: int
  ctx_addr :: string

text \<open>\<open>SessionEvent\<close>: a stage event with the connection it came from and the response.\<close>

record session_event =
  sev_event :: stage_event
  sev_client :: nat
  sev_response :: string

definition new_session_event :: "nat \<Rightarrow> session_event" where
  "new_session_event client = \<lparr>sev_event = new_event, sev_client = client, sev_response = ''''\<rparr>"

definition set_response :: "string \<Rightarrow> nat \<Rightarrow> session_event \<Rightarrow> session_event" where
  "set_response resp len sev = sev\<lparr>sev_response := take len resp\<rparr>"

definition get_response_len :: "session_event \<Rightarrow> nat" where
  "get_response_len sev = length (sev_response sev)"

record server =
  server_param :: ServerParam
  started :: bool
  server_socket :: int
  event_base :: bool
  listen_ev :: bool
  open_fds :: "int list"
  contexts :: "connection list"
  next_context :: nat
  session_stage_of :: "session_event stage"

definition new_server :: "ServerParam \<Rightarrow> session_event stage \<Rightarrow> server" where
  "new_server input_server_param st =
     \<lparr>server_param = input_server_param, started = False, server_socket = 0, event_base = False, listen_ev = False,
      open_fds = [], contexts = [], next_context = 0, session_stage_of = st\<rparr>"

definition close_fd :: "int \<Rightarrow> server \<Rightarrow> server" where
  "close_fd fd s = s\<lparr>open_fds := removeAll fd (open_fds s)\<rparr>"

section \<open>Connections\<close>

text \<open>\<open>set_non_block\<close>: what the two calls of \<open>fcntl\<close> return.\<close>

definition set_non_block :: "int \<Rightarrow> int \<Rightarrow> int" where
  "set_non_block getfl setfl = (if getfl = -1 then -1 else if setfl = -1 then -1 else 0)"

definition close_connection :: "connection \<Rightarrow> server \<Rightarrow> server" where
  "close_connection ctx s =
     (close_fd (ctx_fd ctx) s)\<lparr>contexts := filter (\<lambda>c. ctx_name c \<noteq> ctx_name ctx) (contexts s)\<rparr>"

text \<open>What the calls of \<open>accept\<close> return, in their order.\<close>

record accept_calls =
  acc_fd :: int
  acc_ntop :: "string option"
  acc_port :: nat
  acc_getfl :: int
  acc_setfl :: int
  acc_nodelay :: int
  acc_base_set :: int
  acc_event_add :: int

definition accept_conn :: "accept_calls \<Rightarrow> server \<Rightarrow> server" where
  "accept_conn k s =
     (let client_fd = acc_fd k
      in if client_fd < 0 then s
         else
           let s1 = s\<lparr>open_fds := client_fd # open_fds s\<rparr>
           in case acc_ntop k of
                None \<Rightarrow> close_fd client_fd s1
              | Some ip_addr \<Rightarrow>
                  (let addr_str = ip_addr @ '':'' @ show_int (int (acc_port k))
                   in if set_non_block (acc_getfl k) (acc_setfl k) < 0 then close_fd client_fd s1
                      else if \<not> use_unix_socket (server_param s1) \<and> acc_nodelay k < 0 then close_fd client_fd s1
                      else
                        let ctx = \<lparr>ctx_name = next_context s1, ctx_fd = client_fd, ctx_addr = take 23 addr_str\<rparr>
                        in if acc_base_set k < 0 then close_fd (server_socket s1) s1
                           else if acc_event_add k < 0 then close_fd (server_socket s1) s1
                           else s1\<lparr>contexts := ctx # contexts s1, next_context := next_context s1 + 1\<rparr>))"

text \<open>\<open>Server::recv\<close> after its loop: the outcome is that of \<open>Net_IO.recv\<close>.\<close>

definition on_read :: "connection \<Rightarrow> recv_outcome \<Rightarrow> server \<Rightarrow> server" where
  "on_read ctx r s =
     (case r of
        Request _ _ \<Rightarrow>
          s\<lparr>session_stage_of := fst (add_event (new_session_event (ctx_name ctx)) (session_stage_of s))\<rparr>
      | _ \<Rightarrow> close_connection ctx s)"

section \<open>Start, service and shutdown\<close>

record start_calls =
  st_socket :: int
  st_reuseaddr :: int
  st_getfl :: int
  st_setfl :: int
  st_bind :: int
  st_listen :: int
  st_event_new :: bool
  st_event_add :: int

text \<open>The part the two kinds of socket share: \<open>bind\<close>, \<open>listen\<close> and the listen event.\<close>

definition start_listening :: "start_calls \<Rightarrow> server \<Rightarrow> int \<times> server" where
  "start_listening k s =
     (if st_bind k < 0 then (-1, close_fd (server_socket s) s)
      else if st_listen k < 0 then (-1, close_fd (server_socket s) s)
      else if \<not> st_event_new k then (-1, (close_fd (server_socket s) s)\<lparr>listen_ev := False\<rparr>)
      else if st_event_add k < 0 then (-1, (close_fd (server_socket s) s)\<lparr>listen_ev := True\<rparr>)
      else (0, s\<lparr>listen_ev := True, started := True\<rparr>))"

definition open_socket :: "int \<Rightarrow> server \<Rightarrow> server" where
  "open_socket fd s = s\<lparr>server_socket := fd, open_fds := (if fd < 0 then open_fds s else fd # open_fds s)\<rparr>"

definition start_tcp_server :: "start_calls \<Rightarrow> server \<Rightarrow> int \<times> server" where
  "start_tcp_server k s =
     (let s1 = open_socket (st_socket k) s
      in if server_socket s1 < 0 then (-1, s1)
         else if st_reuseaddr k < 0 then (-1, close_fd (server_socket s1) s1)
         else if set_non_block (st_getfl k) (st_setfl k) < 0 then (-1, close_fd (server_socket s1) s1)
         else start_listening k s1)"

definition start_unix_socket_server :: "start_calls \<Rightarrow> server \<Rightarrow> int \<times> server" where
  "start_unix_socket_server k s =
     (let s1 = open_socket (st_socket k) s
      in if server_socket s1 < 0 then (-1, s1)
         else if set_non_block (st_getfl k) (st_setfl k) < 0 then (-1, close_fd (server_socket s1) s1)
         else start_listening k s1)"

definition start_server :: "start_calls \<Rightarrow> server \<Rightarrow> int \<times> server" where
  "start_server k s = (if use_unix_socket (server_param s) then start_unix_socket_server k s else start_tcp_server k s)"

definition shutdown :: "server \<Rightarrow> server" where
  "shutdown s = (if event_base s \<and> started s then s\<lparr>started := False\<rparr> else s)"

text \<open>\<open>serve\<close>: what runs while the loop dispatches is an argument.\<close>

definition serve :: "bool \<Rightarrow> start_calls \<Rightarrow> (server \<Rightarrow> server) \<Rightarrow> server \<Rightarrow> (int \<times> server) res" where
  "serve base k dispatch s =
     (if \<not> base then Inl (Exit_called (-1))
      else
        let (retval, s1) = start_server k (s\<lparr>event_base := True\<rparr>)
        in if retval = -1 then Inl (Exit_called (-1))
           else
             let s2 = dispatch s1
             in Inr (0, s2\<lparr>listen_ev := False, event_base := False, started := False\<rparr>))"

section \<open>The session stage\<close>

text \<open>\<open>handle_request\<close>: the response is set and the stage's own callback runs at once; \<open>alloc\<close> says whether the
  callback could be allocated.\<close>

definition hello :: string where
  "hello = ''Hello, world!'' @ [CHR 0x0A]"

definition handle_request :: "nat \<Rightarrow> bool \<Rightarrow> bool \<Rightarrow> session_event \<Rightarrow> (session_event \<times> next_step) res" where
  "handle_request hops hist alloc sev =
     (let sev1 = set_response (hello @ [CHR 0x00]) (length hello + 1) sev
      in if \<not> alloc then rbind (done_immediate hops (sev_event sev1)) (\<lambda>nx. Inr (sev1, nx))
         else
           let ev = push_callback (new_callback hist SESSION_STAGE_NAME None) (sev_event sev1)
           in rbind (done_immediate hops ev) (\<lambda>nx. Inr (sev1\<lparr>sev_event := ev\<rparr>, nx)))"

text \<open>\<open>callback_event\<close> sends its buffers to the client; the connection must still be there.\<close>

definition callback_event :: "session_event \<Rightarrow> server \<Rightarrow> (int \<times> string list) res" where
  "callback_event sev s =
     (case find (\<lambda>c. ctx_name c = sev_client sev) (contexts s) of
        None \<Rightarrow> Inl Undefined
      | Some c \<Rightarrow> Inr (ctx_fd c, reply_buffers (sev_response sev)))"

section \<open>The client's connection\<close>

text \<open>The descriptor returned, and whether it was opened and closed again.\<close>

definition connect_unix_sock :: "int \<Rightarrow> int \<Rightarrow> int \<times> int list" where
  "connect_unix_sock sock conn =
     (if sock < 0 then (-1, []) else if conn < 0 then (-1, removeAll sock [sock]) else (sock, [sock]))"

definition connect_tcp_sock :: "bool \<Rightarrow> int \<Rightarrow> int \<Rightarrow> int \<times> int list" where
  "connect_tcp_sock host sock conn =
     (if \<not> host then (-1, [])
      else if sock = -1 then (-1, [])
      else if conn = -1 then (-1, removeAll sock [sock]) else (sock, [sock]))"

text \<open>\<open>VulcanClient::init\<close> after the options: a unix socket for a local server, TCP otherwise.\<close>

definition client_init :: "string \<Rightarrow> bool \<Rightarrow> int \<Rightarrow> int \<Rightarrow> (bool \<times> int) res" where
  "client_init server_host host sock conn =
     (let unix = (server_host = '''' \<or> server_host = ''localhost'' \<or> server_host = ''127.0.0.1'');
          fd = fst (if unix then connect_unix_sock sock conn else connect_tcp_sock host sock conn)
      in if fd < 0 then Inl (Exit_called 1) else Inr (unix, fd))"

section \<open>The descriptors\<close>

text \<open>The open descriptors are the listening socket and those of the connections, which all differ.\<close>

definition conns_ok :: "server \<Rightarrow> bool" where
  "conns_ok s \<longleftrightarrow>
     distinct (open_fds s) \<and> distinct (server_socket s # map ctx_fd (contexts s)) \<and>
     set (open_fds s) = set (server_socket s # map ctx_fd (contexts s)) \<and>
     distinct (map ctx_name (contexts s)) \<and> (\<forall>c \<in> set (contexts s). ctx_name c < next_context s)"

lemma close_fd_simps [simp]:
  "open_fds (close_fd fd s) = removeAll fd (open_fds s)" "contexts (close_fd fd s) = contexts s"
  "server_socket (close_fd fd s) = server_socket s" "next_context (close_fd fd s) = next_context s"
  "started (close_fd fd s) = started s" "session_stage_of (close_fd fd s) = session_stage_of s"
  by (simp_all add: close_fd_def)

lemma distinct_map_filter_key:
  "distinct (map f xs) \<Longrightarrow> x \<in> set xs \<Longrightarrow> {y \<in> set xs. f y \<noteq> f x} = set xs - {x}"
  by (auto simp: distinct_map inj_on_eq_iff)

lemma close_connection_ok:
  assumes "conns_ok s" "c \<in> set (contexts s)"
  shows "conns_ok (close_connection c s)"
proof -
  let ?cs = "filter (\<lambda>d. ctx_name d \<noteq> ctx_name c) (contexts s)"
  have n: "distinct (map ctx_name (contexts s))" and f: "distinct (server_socket s # map ctx_fd (contexts s))"
    and o: "distinct (open_fds s)" "set (open_fds s) = set (server_socket s # map ctx_fd (contexts s))"
    using assms(1) by (simp_all add: conns_ok_def)
  have cs: "set ?cs = set (contexts s) - {c}" using distinct_map_filter_key[OF n assms(2)] by auto
  have "inj_on ctx_fd (set (contexts s))" "server_socket s \<noteq> ctx_fd c" using f assms(2) by (auto simp: distinct_map)
  then have "set (removeAll (ctx_fd c) (open_fds s)) = set (server_socket s # map ctx_fd ?cs)"
    using o(2) cs assms(2) by (auto simp: inj_on_def)
  moreover have "distinct (map ctx_name ?cs)" "distinct (map ctx_fd ?cs)"
    using n f by (simp_all add: distinct_map inj_on_def)
  ultimately show ?thesis
    using assms(1) f by (auto simp: conns_ok_def close_connection_def distinct_removeAll)
qed

text \<open>How far \<open>accept\<close> gets: to the registration of the read event.\<close>

definition registers :: "accept_calls \<Rightarrow> server \<Rightarrow> bool" where
  "registers k s \<longleftrightarrow>
     0 \<le> acc_fd k \<and> acc_ntop k \<noteq> None \<and> acc_getfl k \<noteq> -1 \<and> acc_setfl k \<noteq> -1 \<and>
     (use_unix_socket (server_param s) \<or> 0 \<le> acc_nodelay k)"

lemma accept_refused:
  "\<not> registers k s \<Longrightarrow> acc_fd k \<notin> set (open_fds s) \<Longrightarrow> accept_conn k s = s"
  by (auto simp: accept_conn_def registers_def set_non_block_def Let_def close_fd_def split: option.splits)

lemma accept_registered:
  assumes "registers k s"
  shows "\<exists>ip. accept_conn k s =
    (let s1 = s\<lparr>open_fds := acc_fd k # open_fds s\<rparr>
     in if acc_base_set k < 0 \<or> acc_event_add k < 0 then close_fd (server_socket s) s1
        else s1\<lparr>contexts := \<lparr>ctx_name = next_context s, ctx_fd = acc_fd k, ctx_addr = ip\<rparr> # contexts s,
                next_context := next_context s + 1\<rparr>)"
  using assms by (auto simp: accept_conn_def registers_def set_non_block_def Let_def split: option.splits)

section \<open>Properties\<close>

text \<open>C25. Descriptors are neither leaked nor closed twice: with the listening socket and one descriptor for each
  connection open, closing a connection and accepting one (whatever call of \<open>accept\<close> fails before the registration)
  keep it so. But if the registration with libevent fails, \<open>accept\<close> closes the listening socket in place of the
  new connection's descriptor: the server hears no more and the descriptor stays open.\<close>

theorem accept_descriptors:
  assumes "conns_ok s" "acc_fd k \<notin> set (open_fds s)"
  shows "(\<forall>c \<in> set (contexts s). conns_ok (close_connection c s)) \<and>
    (registers k s \<and> (acc_base_set k < 0 \<or> acc_event_add k < 0) \<longrightarrow>
       server_socket s \<notin> set (open_fds (accept_conn k s)) \<and> acc_fd k \<in> set (open_fds (accept_conn k s)) \<and>
       contexts (accept_conn k s) = contexts s) \<and>
    (\<not> (registers k s \<and> (acc_base_set k < 0 \<or> acc_event_add k < 0)) \<longrightarrow> conns_ok (accept_conn k s))"
proof (intro conjI impI ballI)
  fix c assume "c \<in> set (contexts s)"
  then show "conns_ok (close_connection c s)" by (rule close_connection_ok[OF assms(1)])
next
  have sock: "server_socket s \<in> set (open_fds s)" using assms(1) by (simp add: conns_ok_def)
  assume f: "registers k s \<and> (acc_base_set k < 0 \<or> acc_event_add k < 0)"
  then obtain e: "accept_conn k s = close_fd (server_socket s) (s\<lparr>open_fds := acc_fd k # open_fds s\<rparr>)"
    using accept_registered[of k s] by (auto simp: Let_def)
  show "server_socket s \<notin> set (open_fds (accept_conn k s))" "acc_fd k \<in> set (open_fds (accept_conn k s))"
    "contexts (accept_conn k s) = contexts s"
    using assms(2) sock by (auto simp: e)
next
  assume f: "\<not> (registers k s \<and> (acc_base_set k < 0 \<or> acc_event_add k < 0))"
  show "conns_ok (accept_conn k s)"
  proof (cases "registers k s")
    case True
    then obtain ip where "accept_conn k s = s\<lparr>open_fds := acc_fd k # open_fds s,
        contexts := \<lparr>ctx_name = next_context s, ctx_fd = acc_fd k, ctx_addr = ip\<rparr> # contexts s,
        next_context := next_context s + 1\<rparr>"
      using accept_registered[OF True] f by (auto simp: Let_def)
    then show ?thesis using assms by (auto simp: conns_ok_def less_SucI)
  next
    case False
    then show ?thesis using accept_refused[OF False assms(2)] assms(1) by simp
  qed
qed

definition running_server :: server where
  "running_server =
     \<lparr>server_param = \<lparr>listen_addr = 0, max_connection_num = 8, port = 6789, use_unix_socket = True, unix_socket_path = ''s''\<rparr>,
      started = True, server_socket = 5, event_base = True, listen_ev = True, open_fds = [7, 5],
      contexts = [\<lparr>ctx_name = 0, ctx_fd = 7, ctx_addr = ''a''\<rparr>], next_context = 1, session_stage_of = session_stage\<rparr>"

lemma running_server_ok: "conns_ok running_server"
  by (auto simp: conns_ok_def running_server_def)

theorem accept_descriptors_witness:
  "server_socket running_server \<notin> set (open_fds (accept_conn
     \<lparr>acc_fd = 9, acc_ntop = Some ''b'', acc_port = 1, acc_getfl = 2, acc_setfl = 0, acc_nodelay = 0, acc_base_set = 0,
      acc_event_add = -1\<rparr> running_server))"
proof -
  let ?k = "\<lparr>acc_fd = 9, acc_ntop = Some ''b'', acc_port = 1, acc_getfl = 2, acc_setfl = 0, acc_nodelay = 0,
      acc_base_set = 0, acc_event_add = -1\<rparr>"
  have "acc_fd ?k \<notin> set (open_fds running_server)" by (simp add: running_server_def)
  from accept_descriptors[OF running_server_ok this] show ?thesis by (simp add: registers_def running_server_def)
qed

text \<open>\<open>start\<close>, for TCP and for unix sockets, returns zero exactly when every call succeeds; then the server is
  started and its socket is open. Otherwise it returns -1, the server is not started, and no descriptor is left
  open.\<close>

theorem start_all_or_nothing:
  assumes "start_server k s = (r, s')" "st_socket k \<notin> set (open_fds s)" "\<not> started s"
  shows "(r = 0 \<longleftrightarrow> 0 \<le> st_socket k \<and> (use_unix_socket (server_param s) \<or> 0 \<le> st_reuseaddr k) \<and> st_getfl k \<noteq> -1 \<and>
            st_setfl k \<noteq> -1 \<and> 0 \<le> st_bind k \<and> 0 \<le> st_listen k \<and> st_event_new k \<and> 0 \<le> st_event_add k) \<and>
    (r = 0 \<longrightarrow> started s' \<and> open_fds s' = st_socket k # open_fds s \<and> server_socket s' = st_socket k) \<and>
    (r \<noteq> 0 \<longrightarrow> r = -1 \<and> \<not> started s' \<and> open_fds s' = open_fds s)"
proof -
  have rem: "removeAll (st_socket k) (open_fds s) = open_fds s" using assms(2) by (simp add: removeAll_id)
  have l: "start_listening k s1 = (r, s') \<Longrightarrow> server_socket s1 = st_socket k \<Longrightarrow> open_fds s1 = st_socket k # open_fds s \<Longrightarrow>
      \<not> started s1 \<Longrightarrow> (r = 0 \<longleftrightarrow> 0 \<le> st_bind k \<and> 0 \<le> st_listen k \<and> st_event_new k \<and> 0 \<le> st_event_add k) \<and>
      (r = 0 \<longrightarrow> started s' \<and> open_fds s' = st_socket k # open_fds s \<and> server_socket s' = st_socket k) \<and>
      (r \<noteq> 0 \<longrightarrow> r = -1 \<and> \<not> started s' \<and> open_fds s' = open_fds s)" for s1
    using rem by (auto simp: start_listening_def split: if_splits)
  show ?thesis
  proof (cases "st_socket k < 0")
    case True
    then show ?thesis
      using assms(1,3) by (auto simp: start_server_def start_tcp_server_def start_unix_socket_server_def open_socket_def
          Let_def split: if_splits)
  next
    case False
    then show ?thesis
      using assms(1,3) rem l[of "open_socket (st_socket k) s"]
      by (auto simp: start_server_def start_tcp_server_def start_unix_socket_server_def open_socket_def set_non_block_def
          Let_def split: if_splits)
  qed
qed

theorem start_all_or_nothing_witness:
  "\<exists>s'. start_server \<lparr>st_socket = 3, st_reuseaddr = 0, st_getfl = 2, st_setfl = 0, st_bind = -1, st_listen = 0,
     st_event_new = True, st_event_add = 0\<rparr> (running_server\<lparr>started := False\<rparr>) = (-1, s') \<and> open_fds s' = [7, 5]"
proof -
  let ?k = "\<lparr>st_socket = 3, st_reuseaddr = 0, st_getfl = 2, st_setfl = 0, st_bind = -1, st_listen = 0,
     st_event_new = True, st_event_add = 0\<rparr>"
  obtain r s' where r: "start_server ?k (running_server\<lparr>started := False\<rparr>) = (r, s')" by fastforce
  show ?thesis using start_all_or_nothing[OF r] r by (simp add: running_server_def)
qed

text \<open>C26. A request end to end. \<open>recv\<close> appends one event of the connection to the session stage; handling it runs the
  stage's callback at once, which sends the greeting and its terminator, in one piece and whatever the request was,
  to that connection, and the client prints it. The event is not deleted. If the client closes the connection while
  its event is still queued, however, the callback uses the freed connection.\<close>

theorem request_reply:
  assumes "conns_ok s" "c \<in> set (contexts s)" "list_all arriving qs" "\<forall>e. Read_err e \<notin> set qs"
    "data qs = hello @ [CHR 0x00]" "0 < n"
  shows "event_list (session_stage_of (on_read c (Request m k) s)) =
      event_list (session_stage_of s) @ [new_session_event (ctx_name c)] \<and>
    (\<exists>sev ev. handle_request hops False True (new_session_event (ctx_name c)) =
        Inr (sev, Callback_event SESSION_STAGE_NAME ev None) \<and>
       callback_event sev (on_read c (Request m k) s) = Inr (ctx_fd c, [hello @ [CHR 0x00]]) \<and>
       callback_event sev (on_read c Peer_closed (on_read c (Request m k) s)) = Inl Undefined) \<and>
    (\<exists>qs'. print_msg n qs = Some (hello @ [CHR 0x0A], 0, qs'))"
proof (intro conjI)
  show "event_list (session_stage_of (on_read c (Request m k) s)) =
      event_list (session_stage_of s) @ [new_session_event (ctx_name c)]"
    by (simp add: on_read_def add_event_def Let_def)
  show "\<exists>qs'. print_msg n qs = Some (hello @ [CHR 0x0A], 0, qs')"
    by (rule print_msg_message[OF assms(3,4) _ _ assms(6), where t = "[]"]) (simp_all add: assms(5) hello_def)
  let ?sev = "set_response (hello @ [CHR 0x00]) (length hello + 1) (new_session_event (ctx_name c))"
  have n: "distinct (map ctx_name (contexts s))" using assms(1) by (simp add: conns_ok_def)
  have "find (\<lambda>d. ctx_name d = ctx_name c) (contexts s) = Some c"
    using n assms(2)
  proof (induction "contexts s" arbitrary: s)
    case (Cons d ds)
    from Cons.hyps(1)[of "s\<lparr>contexts := ds\<rparr>"] Cons.prems Cons.hyps(2)[symmetric] show ?case by (auto simp: image_iff)
  qed simp
  moreover have "find (\<lambda>d. ctx_name d = ctx_name c) (filter (\<lambda>d. ctx_name d \<noteq> ctx_name c) (contexts s)) = None"
    by (simp add: find_None_iff)
  moreover have "reply_buffers (hello @ [CHR 0x00]) = [hello @ [CHR 0x00]]"
    by (simp add: reply_buffers_def hello_def)
  ultimately show "\<exists>sev ev. handle_request hops False True (new_session_event (ctx_name c)) =
        Inr (sev, Callback_event SESSION_STAGE_NAME ev None) \<and>
       callback_event sev (on_read c (Request m k) s) = Inr (ctx_fd c, [hello @ [CHR 0x00]]) \<and>
       callback_event sev (on_read c Peer_closed (on_read c (Request m k) s)) = Inl Undefined"
    by (simp add: handle_request_def new_session_event_def set_response_def done_immediate_def event_done_def
        push_callback_def new_callback_def new_event_def callback_event_def on_read_def close_connection_def Let_def)
qed

theorem request_reply_witness:
  "(\<exists>qs'. print_msg 3 [Arrived (hello @ [CHR 0x00])] = Some (hello @ [CHR 0x0A], 0, qs'))"
proof -
  have c: "\<lparr>ctx_name = 0, ctx_fd = 7, ctx_addr = ''a''\<rparr> \<in> set (contexts running_server)" by (simp add: running_server_def)
  show ?thesis
    by (rule request_reply[OF running_server_ok c, THEN conjunct2, THEN conjunct2])
      (simp_all add: data_def hello_def)
qed

end
