(* ===== verification/Startup.thy ===== *)
theory Startup
  imports Server
begin

text \<open>
  The life of the server process (\<open>main\<close>, \<open>init_process\<close>, \<open>init_seda\<close>, \<open>cleanup_process\<close> in \<open>backend/main.cpp\<close>,
  \<open>Server::init\<close>): the parameters, the pid file, the SEDA configuration and the server put together. The files that
  are written and removed are a list of events, also when the process ends early; what the calls of the operating
  system return, and what happens while libevent dispatches, are arguments.
\<close>

section \<open>Starting\<close>

datatype file_event = Pid_written string string | File_removed string

record process_calls =
  pc_pid :: int
  pc_pid_errno :: "int option"
  pc_cpu_num :: nat
  pc_front :: "string option"
  pc_base :: bool
  pc_start :: start_calls
  pc_dispatch :: "server \<Rightarrow> server"

text \<open>\<open>init_seda\<close>: no stage has events left over; \<open>front\<close> is what reading the first element of an empty list gives, if the
  program goes on after it.\<close>

definition init_seda :: "nat \<Rightarrow> string option \<Rightarrow> session_event seda_config res" where
  "init_seda cpu_num front =
     rbind (init cpu_num session_factories (initialize_stage front) (\<lambda>_. []) new_config) (\<lambda>(st, c).
       if st \<noteq> SUCCESS then Inl (Exit_called 1) else Inr c)"

text \<open>\<open>Server::init\<close>. A null session stage would be dereferenced by the first request.\<close>

definition server_init :: "ServerParam \<Rightarrow> session_event seda_config \<Rightarrow> server res" where
  "server_init sp c =
     (case fst (get_stage (Some SESSION_STAGE_NAME) c) of None \<Rightarrow> Inl Undefined | Some st \<Rightarrow> Inr (new_server sp st))"

text \<open>\<open>catch (const std::exception &)\<close>.\<close>

definition catch_exit :: "'a res \<Rightarrow> 'a res" where
  "catch_exit r =
     (case r of
        Inl e \<Rightarrow> Inl (if e \<in> {Out_of_range, Invalid_argument, Length_error, Runtime_error} then Exit_called 1 else e)
      | Inr x \<Rightarrow> Inr x)"

text \<open>The result of \<open>writePidFile\<close> is ignored. The logger reads the two levels.\<close>

definition init_process :: "process_calls \<Rightarrow> VulcanParam \<Rightarrow> file_event list \<times> string \<times> server res" where
  "init_process k vp =
     (case writePidFile (Some (proc_name vp)) (pc_pid k) (pc_pid_errno k) of
        Inl e \<Rightarrow> ([], '''', Inl e)
      | Inr (path, _, file) \<Rightarrow>
          (case file of None \<Rightarrow> [] | Some (p, text) \<Rightarrow> [Pid_written p text], path,
           catch_exit
             (rbind (get_log_level vp) (\<lambda>(_, vp).
              rbind (get_console_log_level vp) (\<lambda>(_, vp).
              rbind (init_seda (pc_cpu_num k) (pc_front k)) (\<lambda>c.
              rbind (init_server vp) (\<lambda>sp. server_init sp c)))))))"

definition cleanup_process :: "VulcanParam \<Rightarrow> string \<Rightarrow> file_event list" where
  "cleanup_process vp path =
     (case snd (removePidFile path) of None \<Rightarrow> [] | Some p \<Rightarrow> [File_removed p]) @ [File_removed (param_get VULCAN_UNIX_SOCKET_PATH vp)]"

section \<open>The process\<close>

definition process_main ::
    "environment \<Rightarrow> (string \<Rightarrow> string option) \<Rightarrow> string \<Rightarrow> option_arg list \<Rightarrow> process_calls \<Rightarrow> file_event list \<times> int res" where
  "process_main env files prog opts k =
     (case init_parameter env files prog opts of
        Inl e \<Rightarrow> ([], Inl e)
      | Inr (vp, _) \<Rightarrow>
          (let (written, path, r) = init_process k vp
           in case r of
                Inl e \<Rightarrow> (written, Inl e)
              | Inr s \<Rightarrow>
                  (case rbind (get_server_port vp) (\<lambda>_. serve (pc_base k) (pc_start k) (pc_dispatch k) s) of
                     Inl e \<Rightarrow> (written, Inl e)
                   | Inr _ \<Rightarrow> (written @ cleanup_process vp path, Inr 0))))"

section \<open>The default configuration\<close>

lemma load_missing:
  "load f None init_IniFile = Inr (0, (switch_session DEFAULT_SECTION init_IniFile)\<lparr>file_names := {f}\<rparr>)"
  by (simp add: load_def switch_session_def insert_session_def init_IniFile_def om_insert_def)


lemma default_conf_sorted: "fold (\<lambda>(k, d). om_assign k d) default_conf_map [] = default_conf_map"
  by (simp add: default_conf_map_def param_keys)

lemma load_defaults:
  assumes "files (conf_file vp) = None" "conf_map vp = []"
  shows "load_conf_file files vp = Inr (vp\<lparr>conf_map := default_conf_map\<rparr>)"
proof -
  have "get_value k d BASE_SECTION_NAME ((switch_session DEFAULT_SECTION init_IniFile)\<lparr>file_names := {f}\<rparr>) = d" for k d f
    by (simp add: get_value_def get_section_def BASE_SECTION_NAME_def switch_session_def insert_session_def init_IniFile_def
        om_insert_def DEFAULT_SECTION_def)
  then show ?thesis
    using assms by (simp add: load_conf_file_def load_missing default_conf_sorted)
qed


definition dirs_ok :: "environment \<Rightarrow> bool" where
  "dirs_ok env \<longleftrightarrow> HOME env \<noteq> None \<and> (\<forall>created p. path_exists env p \<or> mkdir_ok env created p)"

lemma definite_path_ok: "HOME env \<noteq> None \<Longrightarrow> \<exists>p. get_definite_path env path = Inr p"
  by (auto simp: get_definite_path_def substr_def to_size_def dest!: find_sub_SomeD split: option.splits)

lemma create_dir_ok:
  assumes "dirs_ok env"
  shows "\<exists>p created'. check_and_create_dir env key path (vp, created) = Inr (param_set key p vp, created')"
proof -
  have "HOME env \<noteq> None" using assms by (simp add: dirs_ok_def)
  then obtain p where "get_definite_path env path = Inr p" using definite_path_ok by blast
  then show ?thesis using assms by (auto simp: check_and_create_dir_def Let_def dirs_ok_def)
qed

lemma init_params_ok:
  assumes "dirs_ok env" "process_name prog = Inr pn"
  shows "\<exists>a b c created. init_params env prog vp =
    Inr (param_set VULCAN_LOG_DIR c (param_set VULCAN_DATA_DIR b (param_set VULCAN_HOME a (vp\<lparr>proc_name := pn\<rparr>))), created)"
proof -
  let ?vp = "vp\<lparr>proc_name := pn\<rparr>"
  obtain a c1 where a: "check_and_create_dir env VULCAN_HOME (param_get VULCAN_HOME ?vp) (?vp, []) = Inr (param_set VULCAN_HOME a ?vp, c1)"
    using create_dir_ok[OF assms(1)] by blast
  let ?vp1 = "param_set VULCAN_HOME a ?vp"
  obtain b c2 where b: "check_and_create_dir env VULCAN_DATA_DIR (param_get VULCAN_DATA_DIR ?vp1) (?vp1, c1) =
      Inr (param_set VULCAN_DATA_DIR b ?vp1, c2)"
    using create_dir_ok[OF assms(1)] by blast
  let ?vp2 = "param_set VULCAN_DATA_DIR b ?vp1"
  obtain c c3 where c: "check_and_create_dir env VULCAN_LOG_DIR (param_get VULCAN_LOG_DIR ?vp2) (?vp2, c2) =
      Inr (param_set VULCAN_LOG_DIR c ?vp2, c3)"
    using create_dir_ok[OF assms(1)] by blast
  show ?thesis using a b c assms(2) by (simp add: init_params_def Let_def) blast
qed

text \<open>The parameters of a process without a configuration file and options.\<close>

definition default_param :: "string \<Rightarrow> VulcanParam \<Rightarrow> bool" where
  "default_param pn vp \<longleftrightarrow>
     proc_name vp = pn \<and> map_of (conf_map vp) VULCAN_PORT = Some ''6688'' \<and>
     map_of (conf_map vp) VULCAN_LOG_LEVEL = Some ''3'' \<and> map_of (conf_map vp) VULCAN_CONSOLE_LOG_LEVEL = Some ''3'' \<and>
     map_of (conf_map vp) MAX_CONNECTION_NUM = Some ''1024'' \<and>
     map_of (conf_map vp) VULCAN_UNIX_SOCKET_PATH = Some ''/tmp/vulcandb.sock''"

lemma default_conf_ok: "om_ok default_conf_map"
  by (simp add: om_ok_def default_conf_map_def param_keys)

lemma default_lookup:
  "map_of default_conf_map VULCAN_PORT = Some ''6688''" "map_of default_conf_map VULCAN_LOG_LEVEL = Some ''3''"
  "map_of default_conf_map VULCAN_CONSOLE_LOG_LEVEL = Some ''3''" "map_of default_conf_map MAX_CONNECTION_NUM = Some ''1024''"
  "map_of default_conf_map VULCAN_UNIX_SOCKET_PATH = Some ''/tmp/vulcandb.sock''"
  by (simp_all add: default_conf_map_def param_keys)

lemma other_keys:
  "k \<in> {VULCAN_PORT, VULCAN_LOG_LEVEL, VULCAN_CONSOLE_LOG_LEVEL, MAX_CONNECTION_NUM, VULCAN_UNIX_SOCKET_PATH} \<Longrightarrow>
   k \<noteq> VULCAN_HOME \<and> k \<noteq> VULCAN_DATA_DIR \<and> k \<noteq> VULCAN_LOG_DIR"
  by (auto simp: param_keys)

lemma param_set_other: "om_ok (conf_map vp) \<Longrightarrow> k \<noteq> k' \<Longrightarrow> map_of (conf_map (param_set k' v vp)) k = map_of (conf_map vp) k"
  by (simp add: param_set_def map_of_om_assign)

lemma param_set_ok: "om_ok (conf_map vp) \<Longrightarrow> om_ok (conf_map (param_set k v vp))"
  by (simp add: param_set_def om_ok_assign)

lemma proc_name_param_set: "proc_name (param_set k v vp) = proc_name vp"
  by (simp add: param_set_def)

lemma default_param_init:
  assumes "dirs_ok env" "process_name prog = Inr pn" "files ''/etc/vulcandb.conf'' = None"
  shows "\<exists>vp created. init_parameter env files prog [] = Inr (vp, created) \<and> default_param pn vp"
proof -
  have l: "load_conf_file files init_VulcanParam = Inr (init_VulcanParam\<lparr>conf_map := default_conf_map\<rparr>)"
    using load_defaults[of files init_VulcanParam] assms(3) by (simp add: init_VulcanParam_def)
  let ?vp = "init_VulcanParam\<lparr>conf_map := default_conf_map\<rparr>"
  obtain a b c created where i: "init_params env prog ?vp =
      Inr (param_set VULCAN_LOG_DIR c (param_set VULCAN_DATA_DIR b (param_set VULCAN_HOME a (?vp\<lparr>proc_name := pn\<rparr>))), created)"
    using init_params_ok[OF assms(1,2)] by blast
  have "default_param pn (param_set VULCAN_LOG_DIR c (param_set VULCAN_DATA_DIR b (param_set VULCAN_HOME a (?vp\<lparr>proc_name := pn\<rparr>))))"
    using other_keys default_conf_ok
    by (simp add: default_param_def param_set_other param_set_ok proc_name_param_set default_lookup)
  then show ?thesis using i l by (simp add: init_parameter_def)
qed

definition default_server_param :: ServerParam where
  "default_server_param =
     \<lparr>listen_addr = 0, max_connection_num = 1024, port = 6688, use_unix_socket = True, unix_socket_path = ''/tmp/vulcandb.sock''\<rparr>"

lemma default_numbers: "stoi ''3'' = Inr 3" "stoi ''6688'' = Inr 6688" "str_to_val ''1024'' = (True, 1024)" "level_at 3 = Inr INFO"
  by (simp_all add: stoi_def str_to_val_def isspace_def isdigit_def digits_val_def digit_val_def level_at_def to_size_def log_levels_def)

lemma default_init_process:
  assumes "default_param pn vp" "pc_pid_errno k = None"
  shows "init_process k vp =
    ([Pid_written (''/tmp/'' @ pn @ ''.pid'') (show_int (pc_pid k) @ [CHR 0x0A])], ''/tmp/'' @ pn @ ''.pid'',
     (case pc_front k of None \<Rightarrow> Inl Undefined | Some _ \<Rightarrow> Inr (new_server default_server_param session_stage)))"
proof -
  have "param_index x vp = (v, vp)" if "map_of (conf_map vp) x = Some v" for x v using that by (simp add: param_index_def)
  note i = this
  have "init_server vp = Inr default_server_param"
    using assms(1) by (simp add: init_server_def get_server_port_def i default_param_def default_numbers param_get_def
        default_server_param_def)
  moreover have "init_seda (pc_cpu_num k) (pc_front k) = (case pc_front k of None \<Rightarrow> Inl Undefined | Some _ \<Rightarrow>
      Inr \<lparr>thread_pools = [(''DefaultThreads'', 3), (''IOThreads'', 3), (''SQLThreads'', 3)],
        stage_map = [(''SessionStage'', Some session_stage)], stage_names = [''SessionStage''], seda_cfg = default_seda\<rparr>)"
    by (simp add: init_seda_def default_init default_init_fails default_session_initialize split: option.split)
  moreover have "get_log_level vp = Inr (INFO, vp)" "get_console_log_level vp = Inr (INFO, vp)"
    using assms(1) by (simp_all add: get_log_level_def get_console_log_level_def get_level_def i default_param_def default_numbers)
  moreover have "proc_name vp = pn" using assms(1) by (simp add: default_param_def)
  ultimately show ?thesis
    using assms(2) by (simp add: init_process_def writePidFile_def setPidPath_def server_init_def get_stage_def
        SESSION_STAGE_NAME_def catch_exit_def Let_def split: option.split)
qed


section \<open>The life of a process\<close>

definition listens :: "start_calls \<Rightarrow> bool" where
  "listens k \<longleftrightarrow> 0 \<le> st_socket k \<and> st_getfl k \<noteq> -1 \<and> st_setfl k \<noteq> -1 \<and> 0 \<le> st_bind k \<and> 0 \<le> st_listen k \<and>
     st_event_new k \<and> 0 \<le> st_event_add k"

lemma start_default:
  "fst (start_server k ((new_server default_server_param st)\<lparr>event_base := True\<rparr>)) = (if listens k then 0 else -1)"
  by (auto simp: start_server_def new_server_def default_server_param_def start_unix_socket_server_def open_socket_def
      set_non_block_def start_listening_def listens_def Let_def)

text \<open>C10. A server process without options and configuration file, whose directories can be made and whose pid file
  can be written, writes its pid file and makes the session stage with the default parameters. That stage has no next
  stages, and its \<open>initialize\<close> reads the first of them: by the C++ standard the behaviour is undefined from there on. Where
  the read does give something (which is never used), the process goes on: if every call of the unix socket succeeds, it
  serves, and at the end removes the pid file and the socket and returns zero; if one of them fails, it exits with -1 and
  leaves the pid file behind.\<close>

theorem process_lifecycle:
  assumes "dirs_ok env" "process_name prog = Inr pn" "files ''/etc/vulcandb.conf'' = None" "pc_pid_errno k = None" "pc_base k"
  shows "process_main env files prog [] k =
    (let pid = ''/tmp/'' @ pn @ ''.pid''; started = [Pid_written pid (show_int (pc_pid k) @ [CHR 0x0A])]
     in if pc_front k = None then (started, Inl Undefined)
        else if listens (pc_start k) then (started @ [File_removed pid, File_removed ''/tmp/vulcandb.sock''], Inr 0)
        else (started, Inl (Exit_called (-1))))"
proof -
  obtain vp created where vp: "init_parameter env files prog [] = Inr (vp, created)" "default_param pn vp"
    using default_param_init[of env prog pn files, OF assms(1-3)] by blast
  note p = default_init_process[OF vp(2) assms(4)]
  have port: "get_server_port vp = Inr (6688, vp)" and sock: "param_get VULCAN_UNIX_SOCKET_PATH vp = ''/tmp/vulcandb.sock''"
    using vp(2) by (simp_all add: get_server_port_def param_index_def param_get_def default_param_def default_numbers)
  let ?s = "new_server default_server_param session_stage"
  obtain r s1 where r: "start_server (pc_start k) (?s\<lparr>event_base := True\<rparr>) = (r, s1)" by fastforce
  then have "r = (if listens (pc_start k) then 0 else -1)" using start_default[of "pc_start k" session_stage] by simp
  then have "serve (pc_base k) (pc_start k) (pc_dispatch k) ?s =
      (if listens (pc_start k) then Inr (0, (pc_dispatch k s1)\<lparr>listen_ev := False, event_base := False, started := False\<rparr>)
       else Inl (Exit_called (-1)))"
    using r assms(5) by (simp add: serve_def Let_def)
  then show ?thesis
    using vp(1) p port sock
    by (cases "pc_front k") (simp_all add: process_main_def cleanup_process_def removePidFile_def Let_def)
qed

definition sample_env :: environment where
  "sample_env = \<lparr>HOME = Some ''/home/v'', path_exists = (\<lambda>_. False), mkdir_ok = (\<lambda>_ _. True)\<rparr>"

definition sample_run :: "string option \<Rightarrow> int \<Rightarrow> process_calls" where
  "sample_run front bind_result =
     \<lparr>pc_pid = 42, pc_pid_errno = None, pc_cpu_num = 4, pc_front = front, pc_base = True,
      pc_start = \<lparr>st_socket = 3, st_reuseaddr = 0, st_getfl = 2, st_setfl = 0, st_bind = bind_result, st_listen = 0,
        st_event_new = True, st_event_add = 0\<rparr>,
      pc_dispatch = shutdown\<rparr>"

theorem process_lifecycle_witness:
  "process_main sample_env (\<lambda>_. None) ''bin/vulcan_ctl'' [] (sample_run (Some ''s'') 0) =
     ([Pid_written ''/tmp/vulcan_ctl.pid'' (show_int 42 @ [CHR 0x0A]), File_removed ''/tmp/vulcan_ctl.pid'',
       File_removed ''/tmp/vulcandb.sock''], Inr 0) \<and>
   snd (process_main sample_env (\<lambda>_. None) ''bin/vulcan_ctl'' [] (sample_run (Some ''s'') (-1))) = Inl (Exit_called (-1))"
proof -
  have e: "dirs_ok sample_env" by (simp add: dirs_ok_def sample_env_def)
  have n: "process_name ''bin/vulcan_ctl'' = Inr ''vulcan_ctl''"
    by (simp add: process_name_def find_last_of_def find_last_pos_def npos_def substr_def to_size_def Let_def)
  show ?thesis
    using process_lifecycle[OF e n, of "\<lambda>_. None" "sample_run (Some ''s'') 0"] process_lifecycle[OF e n, of "\<lambda>_. None" "sample_run (Some ''s'') (-1)"]
    by (simp add: sample_run_def listens_def Let_def)
qed

end
