(* ===== verification/Signals.thy ===== *)
theory Signals
  imports Startup
begin

text \<open>
  How the server process is told to stop: \<open>setSignalHandler\<close> of \<open>common/os.cpp\<close>, \<open>quit_signal_handle\<close> and
  \<open>quit_thread_func\<close> of \<open>backend/main.cpp\<close>, and \<open>Server::shutdown\<close>, which runs in a thread of its own while \<open>main\<close>
  goes through \<open>init_process\<close>, \<open>Server::serve\<close> and \<open>cleanup_process\<close>. The test, the clearing of \<open>started_\<close> and the call
  of libevent are separate steps of the thread, and all interleavings with \<open>main\<close> are considered. Signals arrive at any time and in any number.
\<close>

section \<open>The process\<close>

datatype signal = SIGQUIT | SIGINT | SIGHUP | SIGTERM | SIGPIPE

definition quit_signals :: "signal list" where
  "quit_signals = [SIGQUIT, SIGINT, SIGHUP, SIGTERM]"

text \<open>Where \<open>main\<close> is: before the pid file, after it, after \<open>init_process\<close>, with the event base, in
  \<open>event_base_dispatch\<close>, before and after \<open>event_base_free\<close>, before \<open>cleanup_process\<close>, or ended.\<close>

datatype proc_end = Returned | Exited_with int | Killed_by signal | Crashed_in_quit

datatype main_at = Begin | Pid_written_at | Initialised | With_base | Dispatching | Freeing | Freed | Cleaning | Ended proc_end

text \<open>Where a quit thread is: before the test of \<open>shutdown\<close>, after it, with \<open>started_\<close> cleared, finished.\<close>

datatype quitter = Called | Past_test | Cleared | Quit_done

text \<open>\<open>loopexit\<close> says that \<open>event_base_loopexit\<close> has been called; \<open>base\<close> that \<open>event_base_\<close> points to an event base.\<close>

record process =
  main_pc :: main_at
  pid_file :: bool
  handlers :: "signal list"
  g_server :: bool
  base :: bool
  serving :: bool
  loopexit :: bool
  quitters :: "quitter list"

definition new_process :: process where
  "new_process = \<lparr>main_pc = Begin, pid_file = False, handlers = [], g_server = False, base = False, serving = False,
     loopexit = False, quitters = []\<rparr>"

fun ended :: "main_at \<Rightarrow> bool" where
  "ended (Ended e) = True"
| "ended _ = False"

definition running :: "process \<Rightarrow> bool" where
  "running p \<longleftrightarrow> \<not> ended (main_pc p)"

datatype proc_action = Main_step | Signal signal | Quit_step nat

text \<open>The test of \<open>quit_thread_func\<close> and \<open>shutdown\<close>.\<close>

definition may_quit :: "process \<Rightarrow> bool" where
  "may_quit p \<longleftrightarrow> g_server p \<and> base p \<and> serving p"

text \<open>The steps. Writing the pid file may fail, and so may the initialisation, the event base and the start. A signal
  without a handler kills the process. \<open>event_base_dispatch\<close> returns only after \<open>event_base_loopexit\<close>; the latter, on an
  event base that has been freed, is undefined.\<close>

inductive proc_step :: "process \<Rightarrow> proc_action \<Rightarrow> process \<Rightarrow> bool" where
  pid: "main_pc p = Begin \<Longrightarrow> proc_step p Main_step (p\<lparr>main_pc := Pid_written_at, pid_file := b\<rparr>)"
| handler: "main_pc p = Pid_written_at \<Longrightarrow> length (handlers p) < length quit_signals \<Longrightarrow>
    proc_step p Main_step (p\<lparr>handlers := take (Suc (length (handlers p))) quit_signals\<rparr>)"
| init_done: "main_pc p = Pid_written_at \<Longrightarrow> handlers p = quit_signals \<Longrightarrow>
    proc_step p Main_step (p\<lparr>main_pc := Initialised, g_server := True\<rparr>)"
| init_fails: "main_pc p = Pid_written_at \<Longrightarrow> handlers p = quit_signals \<Longrightarrow>
    proc_step p Main_step (p\<lparr>main_pc := Ended (Exited_with 1)\<rparr>)"
| base_new: "main_pc p = Initialised \<Longrightarrow> proc_step p Main_step (p\<lparr>main_pc := With_base, base := True\<rparr>)"
| base_fails: "main_pc p = Initialised \<Longrightarrow> proc_step p Main_step (p\<lparr>main_pc := Ended (Exited_with (-1))\<rparr>)"
| start: "main_pc p = With_base \<Longrightarrow> proc_step p Main_step (p\<lparr>main_pc := Dispatching, serving := True\<rparr>)"
| start_fails: "main_pc p = With_base \<Longrightarrow> proc_step p Main_step (p\<lparr>main_pc := Ended (Exited_with (-1))\<rparr>)"
| dispatched: "main_pc p = Dispatching \<Longrightarrow> loopexit p \<Longrightarrow> proc_step p Main_step (p\<lparr>main_pc := Freeing\<rparr>)"
| base_free: "main_pc p = Freeing \<Longrightarrow> proc_step p Main_step (p\<lparr>main_pc := Freed, base := False\<rparr>)"
| served: "main_pc p = Freed \<Longrightarrow> proc_step p Main_step (p\<lparr>main_pc := Cleaning, serving := False\<rparr>)"
| cleanup: "main_pc p = Cleaning \<Longrightarrow> proc_step p Main_step (p\<lparr>main_pc := Ended Returned, pid_file := False\<rparr>)"
| signal_default: "running p \<Longrightarrow> s \<notin> set (handlers p) \<Longrightarrow> proc_step p (Signal s) (p\<lparr>main_pc := Ended (Killed_by s)\<rparr>)"
| signal_handled: "running p \<Longrightarrow> s \<in> set (handlers p) \<Longrightarrow> proc_step p (Signal s) (p\<lparr>quitters := quitters p @ [Called]\<rparr>)"
| quit_test: "running p \<Longrightarrow> i < length (quitters p) \<Longrightarrow> quitters p ! i = Called \<Longrightarrow>
    proc_step p (Quit_step i) (p\<lparr>quitters := (quitters p)[i := if may_quit p then Past_test else Quit_done]\<rparr>)"
| quit_clear: "running p \<Longrightarrow> i < length (quitters p) \<Longrightarrow> quitters p ! i = Past_test \<Longrightarrow>
    proc_step p (Quit_step i) (p\<lparr>quitters := (quitters p)[i := Cleared], serving := False\<rparr>)"
| quit_exit: "running p \<Longrightarrow> i < length (quitters p) \<Longrightarrow> quitters p ! i = Cleared \<Longrightarrow> base p \<Longrightarrow>
    proc_step p (Quit_step i) (p\<lparr>quitters := (quitters p)[i := Quit_done], loopexit := True\<rparr>)"
| quit_late: "running p \<Longrightarrow> i < length (quitters p) \<Longrightarrow> quitters p ! i = Cleared \<Longrightarrow> \<not> base p \<Longrightarrow>
    proc_step p (Quit_step i) (p\<lparr>main_pc := Ended Crashed_in_quit\<rparr>)"

inductive proc_run :: "process \<Rightarrow> proc_action list \<Rightarrow> process \<Rightarrow> bool" where
  run_none: "proc_run p [] p"
| run_more: "proc_step p a q \<Longrightarrow> proc_run q as r \<Longrightarrow> proc_run p (a # as) r"

inductive proc_reachable :: "process \<Rightarrow> bool" where
  at_begin: "proc_reachable new_process"
| after_step: "proc_reachable p \<Longrightarrow> proc_step p a q \<Longrightarrow> proc_reachable q"

section \<open>The state while it runs\<close>

text \<open>How \<open>main\<close> and the variables agree, whatever signals arrive.\<close>

definition proc_ok :: "process \<Rightarrow> bool" where
  "proc_ok p \<longleftrightarrow>
     (base p \<longrightarrow> \<not> running p \<or> main_pc p \<in> {With_base, Dispatching, Freeing}) \<and>
     (main_pc p \<in> {With_base, Dispatching, Freeing} \<longrightarrow> base p) \<and>
     (main_pc p \<in> {Initialised, With_base, Dispatching, Freeing, Freed, Cleaning} \<longrightarrow> g_server p \<and> handlers p = quit_signals) \<and>
     (main_pc p = Begin \<longrightarrow> handlers p = [] \<and> quitters p = [] \<and> \<not> loopexit p) \<and>
     (serving p \<longrightarrow> \<not> running p \<or> main_pc p \<in> {Dispatching, Freeing, Freed}) \<and>
     (main_pc p \<in> {Freeing, Freed, Cleaning, Ended Returned} \<longrightarrow> loopexit p) \<and>
     (loopexit p \<longrightarrow> Quit_done \<in> set (quitters p)) \<and>
     (main_pc p = Ended Returned \<longrightarrow> \<not> pid_file p)"

lemma proc_okD:
  assumes "proc_ok p"
  shows "base p \<Longrightarrow> running p \<Longrightarrow> main_pc p \<in> {With_base, Dispatching, Freeing}"
    "main_pc p \<in> {With_base, Dispatching, Freeing} \<Longrightarrow> base p"
    "main_pc p \<in> {Initialised, With_base, Dispatching, Freeing, Freed, Cleaning} \<Longrightarrow> g_server p \<and> handlers p = quit_signals"
    "main_pc p = Begin \<Longrightarrow> handlers p = [] \<and> quitters p = [] \<and> \<not> loopexit p"
    "serving p \<Longrightarrow> running p \<Longrightarrow> main_pc p \<in> {Dispatching, Freeing, Freed}"
    "main_pc p \<in> {Freeing, Freed, Cleaning, Ended Returned} \<Longrightarrow> loopexit p"
    "loopexit p \<Longrightarrow> Quit_done \<in> set (quitters p)"
    "main_pc p = Ended Returned \<Longrightarrow> \<not> pid_file p"
  using assms unfolding proc_ok_def by blast+

lemma finished_keep: "Quit_done \<in> set xs \<Longrightarrow> xs ! i \<noteq> Quit_done \<Longrightarrow> Quit_done \<in> set (xs[i := y])"
  by (metis in_set_conv_nth length_list_update nth_list_update_neq)

lemma step_proc_ok: "proc_step p a q \<Longrightarrow> proc_ok p \<Longrightarrow> proc_ok q"
proof (induction rule: proc_step.induct)
  case (signal_handled p s)
  then show ?case by (cases "main_pc p") (simp_all add: proc_ok_def running_def)
next
  case (quit_exit p i)
  then show ?case by (cases "main_pc p") (simp_all add: proc_ok_def running_def set_update_memI)
qed (simp_all add: proc_ok_def running_def finished_keep set_update_memI)

lemma reachable_proc_ok: "proc_reachable p \<Longrightarrow> proc_ok p"
proof (induction rule: proc_reachable.induct)
  case at_begin
  show ?case by (simp add: proc_ok_def new_process_def)
qed (rule step_proc_ok)

section \<open>One signal\<close>

text \<open>With at most one quit thread: while it is between the test and its end, \<open>main\<close> dispatches.\<close>

definition quit_ok :: "process \<Rightarrow> quitter \<Rightarrow> bool" where
  "quit_ok p x \<longleftrightarrow> main_pc p \<noteq> Ended Crashed_in_quit \<and>
     (running p \<longrightarrow> x \<in> {Past_test, Cleared} \<longrightarrow> main_pc p = Dispatching) \<and>
     (main_pc p = Dispatching \<longrightarrow> \<not> serving p \<longrightarrow> x = Cleared \<or> x = Quit_done \<and> loopexit p)"

definition one_quit_ok :: "process \<Rightarrow> bool" where
  "one_quit_ok p \<longleftrightarrow> (case quitters p of
       [] \<Rightarrow> main_pc p \<noteq> Ended Crashed_in_quit \<and> (main_pc p = Dispatching \<longrightarrow> serving p)
     | [x] \<Rightarrow> quit_ok p x
     | _ \<Rightarrow> True)"

lemma one_quit_simps:
  "quitters p = [] \<Longrightarrow> one_quit_ok p \<longleftrightarrow> main_pc p \<noteq> Ended Crashed_in_quit \<and> (main_pc p = Dispatching \<longrightarrow> serving p)"
  "quitters p = [x] \<Longrightarrow> one_quit_ok p \<longleftrightarrow> quit_ok p x"
  "quitters p = x # y # zs \<Longrightarrow> one_quit_ok p"
  by (simp_all add: one_quit_ok_def)

lemma step_quitters: "proc_step p a q \<Longrightarrow> length (quitters p) \<le> length (quitters q)"
  by (induction rule: proc_step.induct) simp_all

lemma step_one_quit:
  assumes s: "proc_step p a q" and ok: "proc_ok p" "one_quit_ok p"
  shows "one_quit_ok q"
proof -
  consider "quitters p = []" | x where "quitters p = [x]" | x y zs where "quitters p = x # y # zs"
    by (metis neq_Nil_conv)
  then show ?thesis
  proof cases
    case 1
    with s ok show ?thesis
      by cases (simp_all add: one_quit_simps quit_ok_def proc_ok_def running_def)
  next
    case (2 x)
    then have x: "quit_ok p x" using ok(2) by (simp add: one_quit_ok_def)
    have f: "loopexit p \<longrightarrow> x = Quit_done" "main_pc p = Dispatching \<longrightarrow> base p" "main_pc p = Freeing \<longrightarrow> loopexit p"
      "running p \<longrightarrow> may_quit p \<longrightarrow> main_pc p = Dispatching \<or> main_pc p = Freeing"
      using proc_okD[OF ok(1)] 2 by (fastforce simp: may_quit_def)+
    from s have "one_quit_ok q \<or> quitters q \<noteq> [] \<and> tl (quitters q) \<noteq> []"
    proof cases
      case dispatched
      then show ?thesis using x f(1) 2 by (simp add: one_quit_ok_def quit_ok_def running_def)
    next
      case (quit_test i)
      then show ?thesis using x f 2 by (simp add: one_quit_ok_def quit_ok_def running_def)
    next
      case (quit_late i)
      then show ?thesis using x f(2) 2 by (simp add: one_quit_ok_def quit_ok_def running_def)
    qed (use x 2 in \<open>simp_all add: one_quit_ok_def quit_ok_def running_def\<close>)
    then show ?thesis by (auto simp: one_quit_ok_def split: list.splits)
  next
    case 3
    then have "2 \<le> length (quitters q)" using step_quitters[OF s] by simp
    then show ?thesis by (auto simp: one_quit_ok_def split: list.splits)
  qed
qed

lemma reachable_one_quit: "proc_reachable p \<Longrightarrow> one_quit_ok p"
proof (induction rule: proc_reachable.induct)
  case at_begin
  show ?case by (simp add: one_quit_ok_def new_process_def)
next
  case (after_step p a q)
  show ?case by (rule step_one_quit[OF after_step(2) reachable_proc_ok[OF after_step(1)] after_step(3)])
qed

section \<open>A signal while the server runs\<close>

text \<open>How many steps are left for \<open>main\<close> once the loop is told to end, and for a quit thread.\<close>

fun main_left :: "main_at \<Rightarrow> nat" where
  "main_left Dispatching = 4"
| "main_left Freeing = 3"
| "main_left Freed = 2"
| "main_left Cleaning = 1"
| "main_left _ = 0"

fun quit_left :: "quitter \<Rightarrow> nat" where
  "quit_left Called = 3"
| "quit_left Past_test = 2"
| "quit_left Cleared = 1"
| "quit_left Quit_done = 0"

text \<open>The way from the arrival of the one signal to the end of the process.\<close>

definition stopping :: "process \<Rightarrow> bool" where
  "stopping p \<longleftrightarrow> (\<exists>x. quitters p = [x] \<and>
     (main_pc p = Dispatching \<and> g_server p \<and> base p \<and>
        (x = Called \<and> serving p \<and> \<not> loopexit p \<or> x \<in> {Past_test, Cleared} \<and> \<not> loopexit p \<or> x = Quit_done \<and> loopexit p) \<or>
      main_pc p \<in> {Freeing, Freed, Cleaning} \<and> x = Quit_done \<or> main_pc p = Ended Returned \<and> \<not> pid_file p))"

definition internal_act :: "proc_action \<Rightarrow> bool" where
  "internal_act a \<longleftrightarrow> (\<forall>s. a \<noteq> Signal s)"

definition work_left :: "process \<Rightarrow> nat" where
  "work_left p = main_left (main_pc p) + sum_list (map quit_left (quitters p))"

lemma stopping_step:
  assumes "proc_step p a q" "internal_act a" "stopping p"
  shows "stopping q \<and> work_left q < work_left p"
proof -
  obtain x where x: "quitters p = [x]" using assms(3) by (auto simp: stopping_def)
  from assms(1) show ?thesis
    by cases (use assms(2,3) x in \<open>auto simp: stopping_def work_left_def internal_act_def may_quit_def running_def\<close>)
qed

lemma stopping_moves:
  assumes "stopping p" "main_pc p \<noteq> Ended Returned"
  shows "\<exists>a q. internal_act a \<and> proc_step p a q"
proof -
  obtain x where x: "quitters p = [x]" using assms(1) by (auto simp: stopping_def)
  have i: "internal_act Main_step" "internal_act (Quit_step n)" for n by (simp_all add: internal_act_def)
  show ?thesis
  proof (cases "x = Quit_done")
    case True
    then show ?thesis
      using assms x i(1) dispatched[of p] base_free[of p] served[of p] cleanup[of p] by (auto simp: stopping_def)
  next
    case False
    then have r: "running p" "base p" using assms x by (auto simp: stopping_def running_def)
    show ?thesis
      using False x i(2)[of 0] quit_test[OF r(1), of 0] quit_clear[OF r(1), of 0] quit_exit[OF r(1), of 0] r(2)
      by (cases x) auto
  qed
qed

lemma stopping_run:
  "proc_run p as q \<Longrightarrow> list_all internal_act as \<Longrightarrow> stopping p \<Longrightarrow> stopping q \<and> length as + work_left q \<le> work_left p"
proof (induction rule: proc_run.induct)
  case (run_more p a q as r)
  then show ?case using stopping_step[of p a q] by auto
qed simp

section \<open>Runs that can be computed\<close>

text \<open>The successful step of an action, if there is one.\<close>

fun proc_next :: "process \<Rightarrow> proc_action \<Rightarrow> process option" where
  "proc_next p Main_step =
     (case main_pc p of
        Begin \<Rightarrow> Some (p\<lparr>main_pc := Pid_written_at, pid_file := True\<rparr>)
      | Pid_written_at \<Rightarrow>
          if length (handlers p) < length quit_signals
          then Some (p\<lparr>handlers := take (Suc (length (handlers p))) quit_signals\<rparr>)
          else if handlers p = quit_signals then Some (p\<lparr>main_pc := Initialised, g_server := True\<rparr>) else None
      | Initialised \<Rightarrow> Some (p\<lparr>main_pc := With_base, base := True\<rparr>)
      | With_base \<Rightarrow> Some (p\<lparr>main_pc := Dispatching, serving := True\<rparr>)
      | Dispatching \<Rightarrow> if loopexit p then Some (p\<lparr>main_pc := Freeing\<rparr>) else None
      | Freeing \<Rightarrow> Some (p\<lparr>main_pc := Freed, base := False\<rparr>)
      | Freed \<Rightarrow> Some (p\<lparr>main_pc := Cleaning, serving := False\<rparr>)
      | Cleaning \<Rightarrow> Some (p\<lparr>main_pc := Ended Returned, pid_file := False\<rparr>)
      | Ended e \<Rightarrow> None)"
| "proc_next p (Signal s) =
     (if \<not> running p then None
      else if s \<in> set (handlers p) then Some (p\<lparr>quitters := quitters p @ [Called]\<rparr>)
      else Some (p\<lparr>main_pc := Ended (Killed_by s)\<rparr>))"
| "proc_next p (Quit_step i) =
     (if \<not> running p \<or> length (quitters p) \<le> i then None
      else case quitters p ! i of
             Called \<Rightarrow> Some (p\<lparr>quitters := (quitters p)[i := if may_quit p then Past_test else Quit_done]\<rparr>)
           | Past_test \<Rightarrow> Some (p\<lparr>quitters := (quitters p)[i := Cleared], serving := False\<rparr>)
           | Cleared \<Rightarrow> Some (if base p then p\<lparr>quitters := (quitters p)[i := Quit_done], loopexit := True\<rparr>
                             else p\<lparr>main_pc := Ended Crashed_in_quit\<rparr>)
           | Quit_done \<Rightarrow> None)"

fun proc_exec :: "process \<Rightarrow> proc_action list \<Rightarrow> process option" where
  "proc_exec p [] = Some p"
| "proc_exec p (a # as) = (case proc_next p a of None \<Rightarrow> None | Some q \<Rightarrow> proc_exec q as)"

lemma proc_next_step: "proc_next p a = Some q \<Longrightarrow> proc_step p a q"
proof (cases a)
  case (Quit_step i)
  then show "proc_next p a = Some q \<Longrightarrow> proc_step p a q"
    using quit_test[of p i] by (auto split: quitter.splits if_splits intro: quit_clear quit_exit quit_late)
qed (auto split: main_at.splits if_splits intro: proc_step.intros)

lemma exec_reachable: "proc_exec p as = Some q \<Longrightarrow> proc_reachable p \<Longrightarrow> proc_reachable q"
  by (induction as arbitrary: p) (auto split: option.splits intro: after_step proc_next_step)

lemma exec_run: "proc_exec p as = Some q \<Longrightarrow> proc_run p as q"
  by (induction as arbitrary: p) (auto split: option.splits intro: proc_run.intros proc_next_step)

text \<open>\<open>main\<close> up to the call of \<open>event_base_dispatch\<close>; with one signal that comes after the handlers are set.\<close>

definition boot :: "proc_action list" where
  "boot = replicate 8 Main_step"

definition halted :: process where
  "halted = \<lparr>main_pc = Ended Returned, pid_file = False, handlers = quit_signals, g_server = True, base = False, serving = False,
     loopexit = True, quitters = [Quit_done]\<rparr>"

definition booted :: process where
  "booted = \<lparr>main_pc = Dispatching, pid_file = True, handlers = quit_signals, g_server = True, base = True, serving = True,
     loopexit = False, quitters = []\<rparr>"

lemma boot_exec: "proc_exec new_process boot = Some booted"
  by code_simp

text \<open>A quit thread that runs without interruption does what \<open>shutdown\<close> of theory \<open>Server\<close> does in one step.\<close>

lemma quit_alone:
  assumes "running p" "g_server p" "i < length (quitters p)" "quitters p ! i = Called" "event_base s = base p" "started s = serving p"
  shows "\<exists>as q. proc_run p as q \<and> set as \<subseteq> {Quit_step i} \<and> quitters q = (quitters p)[i := Quit_done] \<and>
    main_pc q = main_pc p \<and> base q = event_base (shutdown s) \<and> serving q = started (shutdown s)"
proof (cases "may_quit p")
  case True
  let ?p1 = "p\<lparr>quitters := (quitters p)[i := Past_test]\<rparr>"
  let ?p2 = "?p1\<lparr>quitters := (quitters p)[i := Cleared], serving := False\<rparr>"
  let ?p3 = "?p2\<lparr>quitters := (quitters p)[i := Quit_done], loopexit := True\<rparr>"
  have "proc_exec p [Quit_step i, Quit_step i, Quit_step i] = Some ?p3"
    using assms(1-4) True by (simp add: running_def may_quit_def)
  from exec_run[OF this] show ?thesis using assms(5,6) True
    by (intro exI[of _ "[Quit_step i, Quit_step i, Quit_step i]"] exI[of _ ?p3]) (simp add: shutdown_def may_quit_def)
next
  case False
  have "proc_exec p [Quit_step i] = Some (p\<lparr>quitters := (quitters p)[i := Quit_done]\<rparr>)"
    using assms(1-4) False by simp
  from exec_run[OF this] show ?thesis using assms(2,5,6) False
    by (intro exI[of _ "[Quit_step i]"] exI[of _ "p\<lparr>quitters := (quitters p)[i := Quit_done]\<rparr>"])
      (auto simp: shutdown_def may_quit_def)
qed

section \<open>Theorems\<close>

text \<open>C27. A signal that is handled while the server dispatches, as the first, stops the process: whatever the
  interleaving of \<open>main\<close> and the quit thread, after at most seven steps nothing is left to do, and where nothing is left to
  do, \<open>main\<close> has returned and removed the pid file.\<close>

theorem quit_works:
  assumes "proc_reachable p" "main_pc p = Dispatching" "quitters p = [Called]" "proc_run p as q" "list_all internal_act as"
  shows "length as \<le> 7 \<and> ((\<exists>a r. internal_act a \<and> proc_step q a r) \<or> main_pc q = Ended Returned \<and> \<not> pid_file q)"
proof -
  have q: "quit_ok p Called" using reachable_one_quit[OF assms(1)] assms(3) by (simp add: one_quit_ok_def)
  have f: "g_server p" "base p" "\<not> loopexit p"
    using proc_okD(2,3,7)[OF reachable_proc_ok[OF assms(1)]] assms(2,3) by auto
  have s: "stopping p" using q f assms(2,3) by (auto simp: stopping_def quit_ok_def)
  then have r: "stopping q" "length as \<le> work_left p" using stopping_run[OF assms(4,5)] by auto
  have "main_pc q = Ended Returned \<Longrightarrow> \<not> pid_file q" using r(1) by (auto simp: stopping_def)
  then show ?thesis using r stopping_moves[OF r(1)] assms(2,3) by (auto simp: work_left_def)
qed

theorem quit_works_witness:
  "\<exists>p q. main_pc p = Dispatching \<and> quitters p = [Called] \<and>
     proc_run p ([Quit_step 0, Quit_step 0, Quit_step 0] @ replicate 4 Main_step) q \<and> main_pc q = Ended Returned \<and> \<not> pid_file q"
proof -
  let ?p = "booted\<lparr>quitters := [Called]\<rparr>" and ?as = "[Quit_step 0, Quit_step 0, Quit_step 0] @ replicate 4 Main_step"
  have "proc_exec new_process (boot @ [Signal SIGTERM]) = Some ?p" by code_simp
  then have p: "proc_reachable ?p" by (rule exec_reachable) (rule at_begin)
  have "proc_exec ?p ?as = Some halted" by code_simp
  then have r: "proc_run ?p ?as halted" by (rule exec_run)
  have "length ?as \<le> 7 \<and> ((\<exists>a r. internal_act a \<and> proc_step halted a r) \<or> main_pc halted = Ended Returned \<and> \<not> pid_file halted)"
    by (rule quit_works[OF p _ _ r]) (simp_all add: booted_def internal_act_def list_all_iff)
  moreover have "\<not> (\<exists>a r. internal_act a \<and> proc_step halted a r)"
    by (auto elim!: proc_step.cases simp: running_def internal_act_def halted_def)
  moreover have "main_pc ?p = Dispatching" "quitters ?p = [Called]" by (simp_all add: booted_def)
  ultimately show ?thesis using r by blast
qed

text \<open>With at most one handled signal the process never calls libevent with an event base that has been freed.\<close>

theorem quit_once_safe:
  assumes "proc_reachable p" "length (quitters p) \<le> 1"
  shows "main_pc p \<noteq> Ended Crashed_in_quit"
  using reachable_one_quit[OF assms(1)] assms(2) by (auto simp: one_quit_ok_def quit_ok_def split: list.splits)

theorem quit_once_safe_witness:
  "length (quitters booted) \<le> 1 \<and> main_pc booted \<noteq> Ended Crashed_in_quit"
proof -
  have "proc_reachable booted" by (rule exec_reachable[OF boot_exec at_begin])
  then show ?thesis using quit_once_safe[of booted] by (simp add: booted_def)
qed

text \<open>C34. What goes wrong: of two signals the second can call \<open>event_base_loopexit\<close> after \<open>main\<close> has freed the event base;
  a signal that is handled before the server has started is lost, and the process then dispatches forever, unless
  another signal arrives; a signal before the handlers are set, and at any time \<open>SIGPIPE\<close>, which a reply to a closed
  connection raises, ends the process with its pid file left behind.\<close>

theorem quit_faults:
  "(\<exists>p. proc_reachable p \<and> length (quitters p) = 2 \<and> main_pc p = Ended Crashed_in_quit) \<and>
   (\<exists>p. proc_reachable p \<and> main_pc p = Dispatching \<and> quitters p = [Quit_done] \<and> \<not> (\<exists>a q. internal_act a \<and> proc_step p a q)) \<and>
   (\<exists>p. proc_reachable p \<and> main_pc p = Ended (Killed_by SIGTERM) \<and> pid_file p) \<and>
   (\<exists>p. proc_reachable p \<and> main_pc p = Ended (Killed_by SIGPIPE) \<and> pid_file p \<and> serving p)"
proof (intro conjI)
  have r: "\<exists>p. proc_reachable p \<and> P p" if "proc_exec new_process as = Some q" "P q" for as q P
    using exec_reachable[OF that(1) at_begin] that(2) by blast
  show "\<exists>p. proc_reachable p \<and> length (quitters p) = 2 \<and> main_pc p = Ended Crashed_in_quit"
    by (rule r[of "boot @ [Signal SIGTERM, Signal SIGTERM, Quit_step 0, Quit_step 1, Quit_step 0, Quit_step 1, Quit_step 0,
        Main_step, Main_step, Quit_step 1]"]) code_simp+
  have "proc_exec new_process (replicate 6 Main_step @ [Signal SIGTERM, Quit_step 0, Main_step, Main_step]) =
      Some (booted\<lparr>quitters := [Quit_done]\<rparr>)" by code_simp
  then have "proc_reachable (booted\<lparr>quitters := [Quit_done]\<rparr>)" by (rule exec_reachable) (rule at_begin)
  moreover have "\<not> (\<exists>a q. internal_act a \<and> proc_step (booted\<lparr>quitters := [Quit_done]\<rparr>) a q)"
    by (auto elim!: proc_step.cases simp: booted_def internal_act_def)
  ultimately show "\<exists>p. proc_reachable p \<and> main_pc p = Dispatching \<and> quitters p = [Quit_done] \<and>
      \<not> (\<exists>a q. internal_act a \<and> proc_step p a q)"
    by (intro exI[of _ "booted\<lparr>quitters := [Quit_done]\<rparr>"]) (simp add: booted_def)
  show "\<exists>p. proc_reachable p \<and> main_pc p = Ended (Killed_by SIGTERM) \<and> pid_file p"
    by (rule r[of "[Main_step, Signal SIGTERM]"]) code_simp+
  show "\<exists>p. proc_reachable p \<and> main_pc p = Ended (Killed_by SIGPIPE) \<and> pid_file p \<and> serving p"
    by (rule r[of "boot @ [Signal SIGPIPE]"]) code_simp+
qed

end
