(* ===== verification/Logging.thy ===== *)
theory Logging
  imports Startup
begin

text \<open>
  \<open>VulcanLogger\<close> (\<open>common/vulcan_logger.cpp\<close>, \<open>vulcan_logger.h\<close>): its initialisation, the two sinks with their levels, and
  which of them a message reaches through the macro \<open>LOG\<close>. spdlog is an argument: the level a new logger starts with, and
  which log files can be opened; that a logger passes a message only if it has at least its own level, and then to every
  sink whose level it has, is what its manual says. The levels of both libraries are linear orders.
\<close>

section \<open>Levels\<close>

datatype spd_level = Spd_trace | Spd_debug | Spd_info | Spd_warn | Spd_err | Spd_critical

fun spd_rank :: "spd_level \<Rightarrow> nat" where
  "spd_rank Spd_trace = 0"
| "spd_rank Spd_debug = 1"
| "spd_rank Spd_info = 2"
| "spd_rank Spd_warn = 3"
| "spd_rank Spd_err = 4"
| "spd_rank Spd_critical = 5"

lemma spd_rank_inj: "spd_rank a = spd_rank b \<longleftrightarrow> a = b"
  by (cases a; cases b) simp_all

instantiation spd_level :: linorder
begin

definition less_eq_spd_level :: "spd_level \<Rightarrow> spd_level \<Rightarrow> bool" where
  "less_eq_spd_level a b \<longleftrightarrow> spd_rank a \<le> spd_rank b"

definition less_spd_level :: "spd_level \<Rightarrow> spd_level \<Rightarrow> bool" where
  "less_spd_level a b \<longleftrightarrow> spd_rank a < spd_rank b"

instance
  by standard (auto simp: less_eq_spd_level_def less_spd_level_def spd_rank_inj)

end

text \<open>The enumeration \<open>LOG_LEVEL\<close>, in the order of its values: the more important, the smaller.\<close>

fun level_value :: "LOG_LEVEL \<Rightarrow> nat" where
  "level_value PANIC = 0"
| "level_value ERR = 1"
| "level_value WARN = 2"
| "level_value INFO = 3"
| "level_value DEBUG = 4"
| "level_value TRACE = 5"

lemma level_value_inj: "level_value a = level_value b \<longleftrightarrow> a = b"
  by (cases a; cases b) simp_all

instantiation LOG_LEVEL :: linorder
begin

definition less_eq_LOG_LEVEL :: "LOG_LEVEL \<Rightarrow> LOG_LEVEL \<Rightarrow> bool" where
  "less_eq_LOG_LEVEL a b \<longleftrightarrow> level_value a \<le> level_value b"

definition less_LOG_LEVEL :: "LOG_LEVEL \<Rightarrow> LOG_LEVEL \<Rightarrow> bool" where
  "less_LOG_LEVEL a b \<longleftrightarrow> level_value a < level_value b"

instance
  by standard (auto simp: less_eq_LOG_LEVEL_def less_LOG_LEVEL_def level_value_inj)

end

text \<open>\<open>log_level_map_\<close>.\<close>

fun log_level_map :: "LOG_LEVEL \<Rightarrow> spd_level" where
  "log_level_map PANIC = Spd_critical"
| "log_level_map ERR = Spd_err"
| "log_level_map WARN = Spd_warn"
| "log_level_map INFO = Spd_info"
| "log_level_map DEBUG = Spd_debug"
| "log_level_map TRACE = Spd_trace"

text \<open>The map turns the order around.\<close>

lemma log_level_map_anti: "log_level_map a \<le> log_level_map b \<longleftrightarrow> b \<le> a"
  by (cases a; cases b) (simp_all add: less_eq_spd_level_def less_eq_LOG_LEVEL_def)

section \<open>The logger\<close>

text \<open>What the logger needs of its surroundings: the directories that are there and can be made, the files that can be
  opened, and the level of a new \<open>spdlog::logger\<close>.\<close>

record log_env =
  dir_exists :: "string \<Rightarrow> bool"
  can_create :: "string \<Rightarrow> bool"
  can_open :: "string \<Rightarrow> bool"
  new_logger_level :: spd_level

text \<open>\<open>spdlog::logger\<close> with the file sink and the console sink.\<close>

record spd_logger =
  own_level :: spd_level
  file_level :: spd_level
  console_sink_level :: spd_level

record VulcanLogger =
  is_init :: bool
  logger :: "spd_logger option"
  log_dir :: string
  log_file :: string
  log_level :: "LOG_LEVEL option"
  console_level :: "LOG_LEVEL option"

definition init_VulcanLogger :: VulcanLogger where
  "init_VulcanLogger = \<lparr>is_init = False, logger = None, log_dir = [], log_file = [], log_level = None, console_level = None\<rparr>"

text \<open>\<open>VulcanLogger::init\<close>: an exception, of the directory or of the file, is caught and printed; what was assigned before
  stays. The result says whether it was printed.\<close>

definition logger_init :: "log_env \<Rightarrow> string \<Rightarrow> string \<Rightarrow> LOG_LEVEL \<Rightarrow> LOG_LEVEL \<Rightarrow> VulcanLogger \<Rightarrow> bool \<times> VulcanLogger" where
  "logger_init env dir name level console lg =
     (if \<not> dir_exists env dir \<and> \<not> can_create env dir then (True, lg)
      else
        let lg1 = lg\<lparr>log_level := Some level, console_level := Some console, log_dir := dir,
                     log_file := path_join dir (name @ ''.log'')\<rparr>
        in if \<not> can_open env (log_file lg1) then (True, lg1)
           else (False, lg1\<lparr>logger := Some \<lparr>own_level = new_logger_level env, file_level = log_level_map level,
                              console_sink_level = log_level_map console\<rparr>, is_init := True\<rparr>))"

text \<open>Where a message goes.\<close>

datatype log_target = Log_file | Console | Cerr_position | Default_logger

text \<open>\<open>VulcanLogger::trace\<close> to \<open>panic\<close>: the last two also write their position to \<open>std::cerr\<close>. The macro \<open>LOG\<close> asks
  \<open>is_init\<close>, and falls back to \<open>spdlog::info\<close>.\<close>

definition log_message :: "LOG_LEVEL \<Rightarrow> VulcanLogger \<Rightarrow> log_target list res" where
  "log_message level lg =
     (case logger lg of
        None \<Rightarrow> Inl Undefined
      | Some l \<Rightarrow>
          (let m = log_level_map level
           in Inr ((if level \<in> {ERR, PANIC} then [Cerr_position] else []) @
                   (if own_level l \<le> m
                    then (if file_level l \<le> m then [Log_file] else []) @ (if console_sink_level l \<le> m then [Console] else [])
                    else []))))"

definition LOG :: "LOG_LEVEL \<Rightarrow> VulcanLogger \<Rightarrow> log_target list res" where
  "LOG level lg = (if is_init lg then log_message level lg else Inr [Default_logger])"

text \<open>The macro \<open>ASSERT\<close>: two messages of level \<open>panic\<close>, if the logger is there, and the end of the process.\<close>

definition ASSERT_macro :: "bool \<Rightarrow> VulcanLogger \<Rightarrow> log_target list \<times> unit res" where
  "ASSERT_macro expression lg =
     (if expression then ([], Inr ())
      else if is_init lg
           then (case rbind (LOG PANIC lg) (\<lambda>a. rbind (LOG PANIC lg) (\<lambda>b. Inr (a @ b))) of
                   Inl e \<Rightarrow> ([], Inl e)
                 | Inr t \<Rightarrow> (t, Inl Assert_failed))
           else ([], Inl Assert_failed))"

section \<open>Theorems\<close>

text \<open>The logger is there whenever it says so.\<close>

definition logger_ok :: "VulcanLogger \<Rightarrow> bool" where
  "logger_ok lg \<longleftrightarrow> (is_init lg \<longrightarrow> logger lg \<noteq> None)"

lemma logger_init_ok: "logger_ok lg \<Longrightarrow> logger_ok (snd (logger_init env dir name level console lg))"
  by (simp add: logger_ok_def logger_init_def Let_def)

lemma LOG_total: "logger_ok lg \<Longrightarrow> \<exists>t. LOG level lg = Inr t"
  by (auto simp: logger_ok_def LOG_def log_message_def Let_def)

text \<open>C33. With spdlog's documented level of a new logger, \<open>info\<close>: once the logger is initialised, a message reaches the log
  file exactly if its level is at most the configured one and at most \<open>INFO\<close>, and likewise the console. So the levels
  \<open>DEBUG\<close> and \<open>TRACE\<close> of the configuration have no effect: no such message is ever written, because \<open>set_level\<close> is
  called on the sinks but not on the logger. If the initialisation fails, every message goes to spdlog's default logger as
  one of level \<open>info\<close>, whatever its level.\<close>

theorem log_levels_effective:
  assumes "new_logger_level env = Spd_info"
  shows "case logger_init env dir name level console init_VulcanLogger of (printed, lg) \<Rightarrow>
    (if printed then \<forall>m. LOG m lg = Inr [Default_logger]
     else \<forall>m. \<exists>t. LOG m lg = Inr t \<and> (Log_file \<in> set t \<longleftrightarrow> m \<le> level \<and> m \<le> INFO) \<and>
            (Console \<in> set t \<longleftrightarrow> m \<le> console \<and> m \<le> INFO) \<and> (Cerr_position \<in> set t \<longleftrightarrow> m \<le> ERR))"
proof -
  have i: "Spd_info \<le> log_level_map m \<longleftrightarrow> m \<le> INFO" for m using log_level_map_anti[of INFO m] by simp
  have e: "m \<in> {ERR, PANIC} \<longleftrightarrow> m \<le> ERR" for m by (cases m) (simp_all add: less_eq_LOG_LEVEL_def)
  show ?thesis
    using assms i e by (auto simp: logger_init_def init_VulcanLogger_def LOG_def log_message_def log_level_map_anti Let_def)
qed

theorem log_levels_effective_witness:
  "let env = \<lparr>dir_exists = (\<lambda>_. True), can_create = (\<lambda>_. True), can_open = (\<lambda>_. True), new_logger_level = Spd_info\<rparr>;
       lg = snd (logger_init env ''/log'' ''v'' TRACE WARN init_VulcanLogger)
   in is_init lg \<and> (\<exists>t. LOG DEBUG lg = Inr t \<and> Log_file \<notin> set t) \<and> (\<exists>t. LOG INFO lg = Inr t \<and> Log_file \<in> set t)"
proof -
  let ?env = "\<lparr>dir_exists = (\<lambda>_. True), can_create = (\<lambda>_. True), can_open = (\<lambda>_. True), new_logger_level = Spd_info\<rparr>"
  obtain printed lg where l: "logger_init ?env ''/log'' ''v'' TRACE WARN init_VulcanLogger = (printed, lg)" by fastforce
  then have "\<not> printed" "is_init lg" by (auto simp: logger_init_def Let_def)
  then have "\<forall>m. \<exists>t. LOG m lg = Inr t \<and> (Log_file \<in> set t \<longleftrightarrow> m \<le> TRACE \<and> m \<le> INFO)"
    using log_levels_effective[of ?env, where dir = "''/log''" and name = "''v''" and level = TRACE and console = WARN] l by auto
  from spec[OF this, of DEBUG] spec[OF this, of INFO]
  have "\<exists>t. LOG DEBUG lg = Inr t \<and> Log_file \<notin> set t" "\<exists>t. LOG INFO lg = Inr t \<and> Log_file \<in> set t"
    by (simp_all add: less_eq_LOG_LEVEL_def)
  then show ?thesis using l \<open>is_init lg\<close> by (simp add: Let_def)
qed

end
