(* ===== verification/Service.thy ===== *)
theory Service
  imports Server "HOL-Library.Multiset"
begin

text \<open>
  The server at work: connections, requests, the session stage's pool and the replies as one step relation. The
  thread of the event loop accepts connections, closes them, and turns requests into events of the session stage
  (\<open>backend/server.cpp\<close>); the threads of the pool (theory \<open>Seda_Pool\<close>) take the events, and the handler of the session
  stage (\<open>seda/session_stage.cpp\<close>) sends the reply. Any step of any part may follow any other. Beside the state of
  the code the relation keeps what has happened: the requests, the events taken, the replies, the connections closed and
  those on which a write failed.
\<close>

section \<open>Handling one event\<close>

text \<open>What the session stage does with an event (\<open>SessionStage::handle_event\<close>): the request is handled, and its callback
  sends the response. \<open>hops\<close> is the limit of an event's history, which is not kept.\<close>

definition handle_event :: "nat \<Rightarrow> server \<Rightarrow> session_event \<Rightarrow> (int \<times> string list) res" where
  "handle_event hops srv sev = rbind (handle_request hops False True sev) (\<lambda>(sev1, _). callback_event sev1 srv)"

text \<open>The buffers go through \<open>Server::send\<close>; \<open>ws\<close> is what the calls of \<open>write\<close> return. The flag says that \<open>send\<close> closed
  the connection.\<close>

fun send_all :: "string list \<Rightarrow> write_ret list \<Rightarrow> (string \<times> bool \<times> write_ret list) option" where
  "send_all [] ws = Some ([], False, ws)"
| "send_all (b # bs) ws =
     (case send (Some b) ws of
        None \<Rightarrow> None
      | Some (out, closed, _, ws1) \<Rightarrow>
          map_option (\<lambda>(out2, closed2, ws2). (out @ out2, closed \<or> closed2, ws2)) (send_all bs ws1))"

definition answer_event :: "nat \<Rightarrow> write_ret list \<Rightarrow> server \<Rightarrow> session_event \<Rightarrow> (int \<times> string \<times> bool) res option" where
  "answer_event hops ws srv sev =
     (case handle_event hops srv sev of
        Inl e \<Rightarrow> Some (Inl e)
      | Inr (fd, bufs) \<Rightarrow> map_option (\<lambda>(out, closed, _). Inr (fd, out, closed)) (send_all bufs ws))"

text \<open>What a client should get for every request.\<close>

definition greeting :: string where
  "greeting = ''Hello, world!'' @ [CHR 0x0A, CHR 0x00]"

section \<open>The steps\<close>

record service =
  svc_pool :: "session_event pool"
  svc_server :: server
  svc_asked :: "connection list"
  svc_taken :: "session_event list"
  svc_answers :: "(nat \<times> (int \<times> string) res) list"
  svc_closed :: "nat list"
  svc_failed :: "nat list"

definition new_service :: "string \<Rightarrow> server \<Rightarrow> service" where
  "new_service nm srv =
     \<lparr>svc_pool = new_pool nm, svc_server = srv, svc_asked = [], svc_taken = [], svc_answers = [], svc_closed = [],
      svc_failed = []\<rparr>"

text \<open>The server's pointer to the session stage: stage \<open>s\<close> of the pool.\<close>

definition server_view :: "nat \<Rightarrow> service \<Rightarrow> server" where
  "server_view s y = (svc_server y)\<lparr>session_stage_of := stages (svc_pool y) s\<rparr>"

text \<open>A thread that ends its handler of stage \<open>s\<close>.\<close>

definition ends_handler :: "nat \<Rightarrow> 'e pool \<Rightarrow> 'e action \<Rightarrow> bool" where
  "ends_handler s p a \<longleftrightarrow> (\<exists>t e. a = Finished t \<and> threads p ! t = Running s e)"

inductive service_step :: "nat \<Rightarrow> nat \<Rightarrow> service \<Rightarrow> service \<Rightarrow> bool" for hops s where
  accepted: "acc_fd k \<notin> set (open_fds (svc_server y)) \<Longrightarrow>
     service_step hops s y (y\<lparr>svc_server := accept_conn k (svc_server y)\<rparr>)"
| asked: "c \<in> set (contexts (svc_server y)) \<Longrightarrow> on_read c (Request m n) (server_view s y) = srv \<Longrightarrow>
     pool_step (svc_pool y) (Added s x) p \<Longrightarrow> stages p s = session_stage_of srv \<Longrightarrow>
     service_step hops s y (y\<lparr>svc_pool := p, svc_server := srv, svc_asked := svc_asked y @ [c]\<rparr>)"
| gone: "c \<in> set (contexts (svc_server y)) \<Longrightarrow> \<forall>m n. r \<noteq> Request m n \<Longrightarrow>
     service_step hops s y (y\<lparr>svc_server := on_read c r (svc_server y), svc_closed := ctx_name c # svc_closed y\<rparr>)"
| answered: "threads (svc_pool y) ! t = Running s x \<Longrightarrow> pool_step (svc_pool y) (Finished t) p \<Longrightarrow>
     answer_event hops ws (svc_server y) x = Some (Inr (fd, out, False)) \<Longrightarrow> \<forall>e. Write_err e \<in> set ws \<longrightarrow> 0 < e \<Longrightarrow>
     service_step hops s y (y\<lparr>svc_pool := p, svc_answers := svc_answers y @ [(sev_client x, Inr (fd, out))],
       svc_failed := (if list_all transient ws then [] else [sev_client x]) @ svc_failed y\<rparr>)"
| answered_closing: "threads (svc_pool y) ! t = Running s x \<Longrightarrow> pool_step (svc_pool y) (Finished t) p \<Longrightarrow>
     answer_event hops ws (svc_server y) x = Some (Inr (fd, out, True)) \<Longrightarrow> \<forall>e. Write_err e \<in> set ws \<longrightarrow> 0 < e \<Longrightarrow>
     c \<in> set (contexts (svc_server y)) \<Longrightarrow> ctx_name c = sev_client x \<Longrightarrow>
     service_step hops s y (y\<lparr>svc_pool := p, svc_answers := svc_answers y @ [(sev_client x, Inr (fd, out))],
       svc_server := close_connection c (svc_server y), svc_closed := sev_client x # svc_closed y\<rparr>)"
| undefined: "threads (svc_pool y) ! t = Running s x \<Longrightarrow> pool_step (svc_pool y) (Finished t) p \<Longrightarrow>
     answer_event hops ws (svc_server y) x = Some (Inl e) \<Longrightarrow>
     service_step hops s y (y\<lparr>svc_pool := p, svc_answers := svc_answers y @ [(sev_client x, Inl e)]\<rparr>)"
| inside_pool: "pool_step (svc_pool y) a p \<Longrightarrow> added s a = [] \<Longrightarrow> \<not> ends_handler s (svc_pool y) a \<Longrightarrow>
     service_step hops s y (y\<lparr>svc_pool := p, svc_taken := svc_taken y @ removed s a\<rparr>)"

section \<open>One reply\<close>

lemma find_context:
  assumes "distinct (map ctx_name cs)" "c \<in> set cs"
  shows "find (\<lambda>d. ctx_name d = ctx_name c) cs = Some c"
  using assms by (induction cs) (auto simp: image_iff)

lemma handle_event_callback:
  "handle_event hops srv (new_session_event n) =
     (case find (\<lambda>c. ctx_name c = n) (contexts srv) of
        None \<Rightarrow> Inl Undefined
      | Some c \<Rightarrow> Inr (ctx_fd c, [greeting]))"
proof -
  have rb: "reply_buffers greeting = [greeting]" by (simp add: reply_buffers_def hello_def greeting_def)
  have "\<exists>sev nx. handle_request hops False True (new_session_event n) = Inr (sev, nx) \<and>
      sev_response sev = greeting \<and> sev_client sev = n"
    by (simp add: handle_request_def new_session_event_def set_response_def done_immediate_def event_done_def
        push_callback_def new_callback_def new_event_def greeting_def hello_def Let_def)
  then obtain sev nx where h: "handle_request hops False True (new_session_event n) = Inr (sev, nx)"
    "sev_response sev = greeting" "sev_client sev = n" by blast
  show ?thesis unfolding handle_event_def h(1) by (simp add: callback_event_def h(2,3) rb split: option.split)
qed

lemma handle_event_reply:
  assumes "conns_ok srv" "c \<in> set (contexts srv)"
  shows "handle_event hops srv (new_session_event (ctx_name c)) = Inr (ctx_fd c, [hello @ [CHR 0x00]])"
proof -
  have "find (\<lambda>d. ctx_name d = ctx_name c) (contexts srv) = Some c"
    by (rule find_context) (use assms in \<open>simp_all add: conns_ok_def\<close>)
  then show ?thesis by (simp add: handle_event_callback greeting_def hello_def)
qed

text \<open>\<open>send\<close> of a non-empty buffer: everything is written unless a call fails for good; and the connection is never
  closed, as the error numbers that \<open>writen\<close> returns are positive.\<close>

lemma client_send_outcome:
  assumes "send (Some b) ws = Some (out, closed, ret, ws')" "b \<noteq> []" "\<forall>e. Write_err e \<in> set ws \<longrightarrow> 0 < e"
  shows "\<not> closed" "\<exists>t. b = out @ t" "list_all transient ws \<Longrightarrow> out = b"
proof -
  obtain r where w: "writen b ws = Some (out, r, ws')" "closed \<longleftrightarrow> r < 0"
    using assms(1,2) by (auto simp: send_def split: if_splits)
  have nz: "Write_err 0 \<notin> set ws" using assms(3) by auto
  note p = writen_prefix[OF w(1) nz]
  show "\<not> closed" using p w(2) assms(3) by (cases "r = 0") force+
  show "\<exists>t. b = out @ t" using p by blast
  show "out = b" if "list_all transient ws"
  proof -
    have "r = 0"
    proof (rule ccontr)
      assume "r \<noteq> 0"
      then have "Write_err r \<in> set ws" "r \<noteq> EAGAIN" "r \<noteq> EINTR" using p by auto
      then show False using that by (auto simp: list_all_iff transient_def)
    qed
    then show ?thesis using p by simp
  qed
qed

lemma answer_undefined:
  "find (\<lambda>c. ctx_name c = n) (contexts srv) = None \<Longrightarrow> answer_event hops ws srv (new_session_event n) = Some (Inl Undefined)"
  by (simp add: answer_event_def handle_event_callback)

lemma answer_open:
  assumes "find (\<lambda>c. ctx_name c = n) (contexts srv) = Some c" "answer_event hops ws srv (new_session_event n) = Some r"
    "\<forall>e. Write_err e \<in> set ws \<longrightarrow> 0 < e"
  shows "\<exists>out t. r = Inr (ctx_fd c, out, False) \<and> greeting = out @ t \<and> (list_all transient ws \<longrightarrow> out = greeting)"
proof -
  have ne: "greeting \<noteq> []" by (simp add: greeting_def)
  obtain out closed ret ws' where s: "send (Some greeting) ws = Some (out, closed, ret, ws')" "r = Inr (ctx_fd c, out, closed)"
    using assms(1,2) by (auto simp: answer_event_def handle_event_callback split: option.splits)
  from client_send_outcome[OF s(1) ne assms(3)] s(2) show ?thesis by blast
qed

section \<open>Events through the pool\<close>

text \<open>The events of a stage that threads are handling.\<close>

fun running_event :: "nat \<Rightarrow> 'e thread \<Rightarrow> 'e list" where
  "running_event s (Running s' x) = (if s' = s then [x] else [])"
| "running_event s _ = []"

definition running :: "nat \<Rightarrow> 'e thread list \<Rightarrow> 'e multiset" where
  "running s ths = mset (concat (map (running_event s) ths))"

lemma running_append [simp]: "running s (xs @ ys) = running s xs + running s ys"
  by (simp add: running_def)

lemma running_fresh [simp]: "running s (replicate n At_top) = {#}"
  by (induction n) (simp_all add: running_def)

lemma running_update:
  "t < length ths \<Longrightarrow>
   running s (ths[t := th]) + mset (running_event s (ths ! t)) = running s ths + mset (running_event s th)"
proof (induction ths arbitrary: t)
  case (Cons y ys)
  then show ?case by (cases t) (simp_all add: running_def)
qed simp

lemma running_same:
  "t < length ths \<Longrightarrow> running_event s (ths ! t) = running_event s th \<Longrightarrow> running s (ths[t := th]) = running s ths"
  using running_update[of t ths s th] by simp

fun ended :: "nat \<Rightarrow> 'e pool \<Rightarrow> 'e action \<Rightarrow> 'e list" where
  "ended s p (Finished t) = running_event s (threads p ! t)"
| "ended s p _ = []"

lemma ended_none: "\<not> ends_handler s p a \<Longrightarrow> ended s p a = []"
proof (cases a)
  case (Finished t)
  assume "\<not> ends_handler s p a"
  with Finished show ?thesis by (cases "threads p ! t") (auto simp: ends_handler_def)
qed auto

lemma kill_threads_threads: "kill_threads evs n p = Inr q \<Longrightarrow> threads q = threads p"
  by (auto simp: kill_threads_def rbind_eq_Inr Let_def split: if_splits)

lemma step_running:
  "pool_step p a q \<Longrightarrow> s \<noteq> killer \<Longrightarrow>
   running s (threads q) + mset (ended s p a) = running s (threads p) + mset (removed s a)"
proof (induction rule: pool_step.induct)
  case (kill_threads evs n p p')
  then show ?case using kill_threads_threads[of evs n p p'] by simp
next
  case (schedule p xs s' a ys w p')
  then show ?case
    by (auto simp: schedule_def cond_signal_def Let_def running_same split: if_splits option.splits)
next
  case (take t p p')
  then show ?case by (auto simp: take_stage_def running_same split: list.splits if_splits)
next
  case (sleep t p p')
  then show ?case by (auto simp: fall_asleep_def running_same split: if_splits)
next
  case (remove t p s' e p')
  then show ?case using running_update[of t "threads p" s "Running s' e"] by (auto simp: take_event_Inr)
next
  case (finish t p s' e)
  then show ?case using running_update[of t "threads p" s At_top] by (simp add: finish_event_def)
next
  case (kill t p e)
  then show ?case by (simp add: kill_self_def thread_kill_def Let_def running_same)
next
  case (exit t p)
  then show ?case by (simp add: exit_thread_def running_same)
qed (simp_all add: add_threads_def running_same)

section \<open>The invariant\<close>

text \<open>Connections keep their numbers, which are never given twice.\<close>

definition names_ok :: "service \<Rightarrow> bool" where
  "names_ok y \<longleftrightarrow>
     distinct (map ctx_name (contexts (svc_server y))) \<and>
     (\<forall>c \<in> set (contexts (svc_server y)) \<union> set (svc_asked y). ctx_name c < next_context (svc_server y)) \<and>
     inj_on ctx_name (set (contexts (svc_server y)) \<union> set (svc_asked y)) \<and>
     (\<forall>c \<in> set (svc_asked y). c \<in> set (contexts (svc_server y)) \<or> ctx_name c \<in> set (svc_closed y))"

text \<open>Every event is on its way, handled or being handled.\<close>

definition events_ok :: "nat \<Rightarrow> service \<Rightarrow> bool" where
  "events_ok s y \<longleftrightarrow>
     svc_taken y @ event_list (stages (svc_pool y) s) = map (\<lambda>c. new_session_event (ctx_name c)) (svc_asked y) \<and>
     mset (svc_taken y) =
       mset (map (\<lambda>a. new_session_event (fst a)) (svc_answers y)) + running s (threads (svc_pool y))"

text \<open>The reply to a request of \<open>c\<close>.\<close>

definition reply_ok :: "connection \<Rightarrow> service \<Rightarrow> (int \<times> string) res \<Rightarrow> bool" where
  "reply_ok c y r \<longleftrightarrow>
     r = Inl Undefined \<and> ctx_name c \<in> set (svc_closed y) \<or>
     (\<exists>out t. r = Inr (ctx_fd c, out) \<and> greeting = out @ t \<and> (out = greeting \<or> ctx_name c \<in> set (svc_failed y)))"

definition answers_ok :: "service \<Rightarrow> bool" where
  "answers_ok y \<longleftrightarrow>
     (\<forall>a \<in> set (svc_answers y). \<exists>c \<in> set (svc_asked y). fst a = ctx_name c \<and> reply_ok c y (snd a))"

definition service_ok :: "nat \<Rightarrow> service \<Rightarrow> bool" where
  "service_ok s y \<longleftrightarrow> pool_ok (svc_pool y) \<and> names_ok y \<and> events_ok s y \<and> answers_ok y"

lemma service_okI: "pool_ok (svc_pool y) \<Longrightarrow> names_ok y \<Longrightarrow> events_ok s y \<Longrightarrow> answers_ok y \<Longrightarrow> service_ok s y"
  by (simp add: service_ok_def)

lemma new_service_ok: "contexts srv = [] \<Longrightarrow> service_ok s (new_service nm srv)"
  by (intro service_okI, simp add: new_service_def inv_new)
    (simp_all add: new_service_def names_ok_def events_ok_def answers_ok_def running_def new_pool_def new_stage_def)

lemma reply_ok_mono:
  "reply_ok c y r \<Longrightarrow> set (svc_closed y) \<subseteq> set (svc_closed z) \<Longrightarrow> set (svc_failed y) \<subseteq> set (svc_failed z) \<Longrightarrow>
   reply_ok c z r"
  by (auto simp: reply_ok_def)

lemma answers_more:
  "answers_ok y \<Longrightarrow> svc_asked z = svc_asked y \<Longrightarrow> svc_answers z = svc_answers y \<Longrightarrow>
   set (svc_closed y) \<subseteq> set (svc_closed z) \<Longrightarrow> set (svc_failed y) \<subseteq> set (svc_failed z) \<Longrightarrow> answers_ok z"
  using reply_ok_mono[of _ y _ z] by (fastforce simp: answers_ok_def)

text \<open>What \<open>accept\<close> and a request change of the connections.\<close>

lemma accept_contexts:
  "acc_fd k \<notin> set (open_fds srv) \<Longrightarrow>
   contexts (accept_conn k srv) = contexts srv \<and> next_context (accept_conn k srv) = next_context srv \<or>
   (\<exists>c. ctx_name c = next_context srv \<and> contexts (accept_conn k srv) = c # contexts srv \<and>
        next_context (accept_conn k srv) = next_context srv + 1)"
proof (cases "registers k srv")
  case True
  obtain ip where a: "accept_conn k srv =
    (let s1 = srv\<lparr>open_fds := acc_fd k # open_fds srv\<rparr>
     in if acc_base_set k < 0 \<or> acc_event_add k < 0 then close_fd (server_socket srv) s1
        else s1\<lparr>contexts := \<lparr>ctx_name = next_context srv, ctx_fd = acc_fd k, ctx_addr = ip\<rparr> # contexts srv,
                next_context := next_context srv + 1\<rparr>)"
    using accept_registered[OF True] by blast
  show ?thesis
  proof (cases "acc_base_set k < 0 \<or> acc_event_add k < 0")
    case False
    then have "contexts (accept_conn k srv) = \<lparr>ctx_name = next_context srv, ctx_fd = acc_fd k, ctx_addr = ip\<rparr> # contexts srv"
      "next_context (accept_conn k srv) = next_context srv + 1" unfolding a by (simp_all only: Let_def if_False) simp_all
    then show ?thesis by (intro disjI2 exI) (rule conjI[rotated], rule conjI, assumption+, simp)
  qed (simp add: a Let_def)
next
  assume "acc_fd k \<notin> set (open_fds srv)"
  moreover case False
  ultimately show ?thesis using accept_refused[of k srv] by simp
qed

lemma on_read_request [simp]:
  "contexts (on_read c (Request m n) srv) = contexts srv" "next_context (on_read c (Request m n) srv) = next_context srv"
  "event_list (session_stage_of (on_read c (Request m n) srv)) =
     event_list (session_stage_of srv) @ [new_session_event (ctx_name c)]"
  by (simp_all add: on_read_def add_event_def Let_def)

lemma on_read_gone: "\<forall>m n. r \<noteq> Request m n \<Longrightarrow> on_read c r srv = close_connection c srv"
  by (cases r) (auto simp: on_read_def)

lemma close_connection_contexts [simp]:
  "contexts (close_connection c srv) = filter (\<lambda>d. ctx_name d \<noteq> ctx_name c) (contexts srv)"
  "next_context (close_connection c srv) = next_context srv"
  by (simp_all add: close_connection_def)

lemma names_closed:
  assumes "names_ok y" "c \<in> set (contexts (svc_server y))"
  shows "names_ok (y\<lparr>svc_server := close_connection c (svc_server y), svc_closed := ctx_name c # svc_closed y\<rparr>)"
proof -
  have sub: "{d \<in> set (contexts (svc_server y)). ctx_name d \<noteq> ctx_name c} \<union> set (svc_asked y)
      \<subseteq> set (contexts (svc_server y)) \<union> set (svc_asked y)" by auto
  have "inj_on ctx_name ({d \<in> set (contexts (svc_server y)). ctx_name d \<noteq> ctx_name c} \<union> set (svc_asked y))"
    using assms(1) by (intro inj_on_subset[OF _ sub]) (simp add: names_ok_def)
  with assms show ?thesis by (auto simp: names_ok_def distinct_map_filter)
qed

lemma names_accepted:
  assumes "names_ok y" "acc_fd k \<notin> set (open_fds (svc_server y))"
  shows "names_ok (y\<lparr>svc_server := accept_conn k (svc_server y)\<rparr>)"
  using accept_contexts[OF assms(2)]
proof
  assume "\<exists>c. ctx_name c = next_context (svc_server y) \<and> contexts (accept_conn k (svc_server y)) = c # contexts (svc_server y) \<and>
        next_context (accept_conn k (svc_server y)) = next_context (svc_server y) + 1"
  then obtain c where c: "ctx_name c = next_context (svc_server y)"
    "contexts (accept_conn k (svc_server y)) = c # contexts (svc_server y)"
    "next_context (accept_conn k (svc_server y)) = next_context (svc_server y) + 1" by blast
  have "ctx_name c \<notin> ctx_name ` (set (contexts (svc_server y)) \<union> set (svc_asked y))"
    using assms(1) c(1) by (force simp: names_ok_def)
  with assms(1) c show ?thesis by (auto simp: names_ok_def inj_on_insert less_SucI)
qed (use assms(1) in \<open>simp add: names_ok_def\<close>)

text \<open>The context a reply is sent to.\<close>

lemma client_context:
  assumes "names_ok y" "c \<in> set (svc_asked y)"
  shows "find (\<lambda>d. ctx_name d = ctx_name c) (contexts (svc_server y)) = Some c \<or>
    find (\<lambda>d. ctx_name d = ctx_name c) (contexts (svc_server y)) = None \<and> ctx_name c \<in> set (svc_closed y)"
proof (cases "c \<in> set (contexts (svc_server y))")
  case True
  then show ?thesis using assms find_context[of "contexts (svc_server y)" c] by (simp add: names_ok_def)
next
  case False
  have "ctx_name d \<noteq> ctx_name c" if "d \<in> set (contexts (svc_server y))" for d
    using assms that False by (auto simp: names_ok_def inj_on_def)
  with False assms show ?thesis by (auto simp: find_None_iff names_ok_def)
qed

text \<open>A handled event is that of a request.\<close>

lemma handled_asked:
  assumes "events_ok s y" "t < length (threads (svc_pool y))" "threads (svc_pool y) ! t = Running s x"
  shows "\<exists>c \<in> set (svc_asked y). x = new_session_event (ctx_name c)"
proof -
  have "threads (svc_pool y) ! t \<in> set (threads (svc_pool y))" using assms(2) by simp
  then have "x \<in># running s (threads (svc_pool y))" using assms(3) by (auto simp: running_def intro!: bexI)
  then have "x \<in># mset (svc_taken y)" using assms(1) by (simp add: events_ok_def)
  then have "x \<in> set (map (\<lambda>c. new_session_event (ctx_name c)) (svc_asked y))"
    using assms(1) unfolding events_ok_def by (metis UnCI set_append set_mset_mset)
  then show ?thesis by auto
qed

lemma client_of_event [simp]: "sev_client (new_session_event n) = n"
  by (simp add: new_session_event_def)

lemma finished_length: "pool_step p (Finished t) q \<Longrightarrow> t < length (threads p)"
  by (auto elim: pool_step.cases)

lemma events_finished:
  assumes "events_ok s y" "s \<noteq> killer" "pool_step (svc_pool y) (Finished t) p"
    "threads (svc_pool y) ! t = Running s (new_session_event n)"
    "svc_pool z = p" "svc_taken z = svc_taken y" "svc_asked z = svc_asked y" "svc_answers z = svc_answers y @ [(n, r)]"
  shows "events_ok s z"
  using assms step_queue[OF assms(3,2)] step_running[OF assms(3,2)] by (simp add: events_ok_def)

lemma answers_finished:
  assumes "answers_ok y" "c \<in> set (svc_asked y)" "reply_ok c z r" "svc_asked z = svc_asked y"
    "svc_answers z = svc_answers y @ [(ctx_name c, r)]"
    "set (svc_closed y) \<subseteq> set (svc_closed z)" "set (svc_failed y) \<subseteq> set (svc_failed z)"
  shows "answers_ok z"
  using assms reply_ok_mono[OF _ assms(6,7)] by (fastforce simp: answers_ok_def)

text \<open>The four ways a handler ends.\<close>

lemma answer_kinds:
  assumes "names_ok y" "c \<in> set (svc_asked y)" "answer_event hops ws (svc_server y) (new_session_event (ctx_name c)) = Some r"
    "\<forall>e. Write_err e \<in> set ws \<longrightarrow> 0 < e"
  shows "r = Inl Undefined \<and> ctx_name c \<in> set (svc_closed y) \<or>
    (\<exists>out t. r = Inr (ctx_fd c, out, False) \<and> greeting = out @ t \<and> (list_all transient ws \<longrightarrow> out = greeting))"
  using client_context[OF assms(1,2)]
proof
  assume "find (\<lambda>d. ctx_name d = ctx_name c) (contexts (svc_server y)) = Some c"
  from answer_open[OF this assms(3,4)] show ?thesis by blast
next
  assume n: "find (\<lambda>d. ctx_name d = ctx_name c) (contexts (svc_server y)) = None \<and> ctx_name c \<in> set (svc_closed y)"
  then show ?thesis using answer_undefined[of "ctx_name c" "svc_server y" hops ws] assms(3) by simp
qed

lemma service_step_ok:
  "service_step hops s y z \<Longrightarrow> s \<noteq> killer \<Longrightarrow> service_ok s y \<Longrightarrow> service_ok s z"
proof (induction rule: service_step.induct)
  case (accepted k y)
  then have "names_ok (y\<lparr>svc_server := accept_conn k (svc_server y)\<rparr>)" by (intro names_accepted) (simp_all add: service_ok_def)
  with accepted show ?case by (simp add: service_ok_def events_ok_def answers_ok_def reply_ok_def)
next
  case (asked c y m n srv x p)
  have ev: "event_list (stages p s) = event_list (stages (svc_pool y) s) @ [new_session_event (ctx_name c)]"
    unfolding asked.hyps(4) asked.hyps(2)[symmetric] by (simp add: server_view_def)
  have srv: "contexts srv = contexts (svc_server y)" "next_context srv = next_context (svc_server y)"
    unfolding asked.hyps(2)[symmetric] by (simp_all add: server_view_def)
  have "running s (threads p) = running s (threads (svc_pool y))"
    using step_running[OF asked.hyps(3) asked.prems(1)] by simp
  with asked ev srv show ?case
    by (auto simp: service_ok_def names_ok_def events_ok_def answers_ok_def reply_ok_def insert_absorb intro: step_ok)
next
  case (gone c y r)
  have "answers_ok (y\<lparr>svc_server := close_connection c (svc_server y), svc_closed := ctx_name c # svc_closed y\<rparr>)"
    by (rule answers_more[of y]) (use gone.prems(2) in \<open>auto simp: service_ok_def\<close>)
  with gone.prems(2) gone.hyps(1) names_closed[of y c] show ?case
    by (simp add: service_ok_def on_read_gone[OF gone.hyps(2)] events_ok_def)
next
  case (answered y t x p ws fd out)
  have N: "names_ok y" "events_ok s y" "answers_ok y" "pool_ok (svc_pool y)" using answered.prems by (simp_all add: service_ok_def)
  obtain c where c: "c \<in> set (svc_asked y)" "x = new_session_event (ctx_name c)"
    using handled_asked[OF N(2) finished_length answered.hyps(1)] answered.hyps(2) by blast
  let ?z = "y\<lparr>svc_pool := p, svc_answers := svc_answers y @ [(sev_client x, Inr (fd, out))],
       svc_failed := (if list_all transient ws then [] else [sev_client x]) @ svc_failed y\<rparr>"
  have r: "reply_ok c ?z (Inr (fd, out))"
    using answer_kinds[OF N(1) c(1) answered.hyps(3)[unfolded c(2)] answered.hyps(4)] c(2) by (auto simp: reply_ok_def)
  have "answers_ok ?z" by (rule answers_finished[OF N(3) c(1) r]) (simp_all add: c(2))
  moreover have "events_ok s ?z"
    by (rule events_finished[OF N(2) answered.prems(1) answered.hyps(2), of "ctx_name c"]) (use answered.hyps(1) c(2) in simp_all)
  moreover have "pool_ok p" using step_ok[OF answered.hyps(2) N(4)] .
  ultimately show ?case using N(1) by (simp add: service_ok_def names_ok_def)
next
  case (answered_closing y t x p ws fd out c)
  have N: "names_ok y" "events_ok s y" using answered_closing.prems by (simp_all add: service_ok_def)
  obtain d where d: "d \<in> set (svc_asked y)" "x = new_session_event (ctx_name d)"
    using handled_asked[OF N(2) finished_length answered_closing.hyps(1)] answered_closing.hyps(2) by blast
  have False
    using answer_kinds[OF N(1) d(1) answered_closing.hyps(3)[unfolded d(2)] answered_closing.hyps(4)] by auto
  then show ?case ..
next
  case (undefined y t x p ws e)
  have N: "names_ok y" "events_ok s y" "answers_ok y" "pool_ok (svc_pool y)" using undefined.prems by (simp_all add: service_ok_def)
  obtain c where c: "c \<in> set (svc_asked y)" "x = new_session_event (ctx_name c)"
    using handled_asked[OF N(2) finished_length undefined.hyps(1)] undefined.hyps(2) by blast
  let ?z = "y\<lparr>svc_pool := p, svc_answers := svc_answers y @ [(sev_client x, Inl e)]\<rparr>"
  have "e = Undefined \<and> ctx_name c \<in> set (svc_closed y)"
    using client_context[OF N(1) c(1)] undefined.hyps(3)
    by (auto simp: c(2) answer_event_def handle_event_callback split: option.splits)
  then have r: "reply_ok c ?z (Inl e)" by (simp add: reply_ok_def)
  have "answers_ok ?z" by (rule answers_finished[OF N(3) c(1) r]) (simp_all add: c(2))
  moreover have "events_ok s ?z"
    by (rule events_finished[OF N(2) undefined.prems(1) undefined.hyps(2), of "ctx_name c"]) (use undefined.hyps(1) c(2) in simp_all)
  moreover have "pool_ok p" using step_ok[OF undefined.hyps(2) N(4)] .
  ultimately show ?case using N(1) by (simp add: service_ok_def names_ok_def)
next
  case (inside_pool y a p)
  have "svc_taken y @ removed s a @ event_list (stages p s) = svc_taken y @ event_list (stages (svc_pool y) s)"
    using step_queue[OF inside_pool.hyps(1) inside_pool.prems(1)] inside_pool.hyps(2) by simp
  moreover have "running s (threads p) = running s (threads (svc_pool y)) + mset (removed s a)"
    using step_running[OF inside_pool.hyps(1) inside_pool.prems(1)] ended_none[OF inside_pool.hyps(3)] by simp
  moreover have "pool_ok p" using inside_pool by (auto simp: service_ok_def intro: step_ok)
  ultimately show ?case
    using inside_pool.prems(2) by (simp add: service_ok_def names_ok_def events_ok_def answers_ok_def reply_ok_def)
qed

lemma service_run_ok:
  assumes "(service_step hops s)\<^sup>*\<^sup>* y z" "s \<noteq> killer" "service_ok s y"
  shows "service_ok s z"
  using assms by (induction rule: rtranclp_induct) (auto intro: service_step_ok)

text \<open>When the pool rests, with the stage connected and a thread alive, every event has been handled.\<close>

lemma service_at_rest:
  assumes "service_ok s y" "\<not> can_move (svc_pool y)" "connected (stages (svc_pool y) s)"
    "th \<in> set (threads (svc_pool y))" "th \<noteq> Exited"
  shows "svc_taken y = map (\<lambda>c. new_session_event (ctx_name c)) (svc_asked y)"
    "mset (svc_taken y) = mset (map (\<lambda>a. new_session_event (fst a)) (svc_answers y))"
proof -
  have i: "pool_ok (svc_pool y)" and e: "events_ok s y" using assms(1) by (simp_all add: service_ok_def)
  note r = at_rest[OF i assms(2)]
  have "Sleeping \<in> set (threads (svc_pool y))" using bspec[OF r(2) assms(4)] assms(4,5) by auto
  then have "event_list (stages (svc_pool y) s) = []" using r(4) assms(3) by blast
  then show "svc_taken y = map (\<lambda>c. new_session_event (ctx_name c)) (svc_asked y)" using e by (simp add: events_ok_def)
  have "running_event s th' = []" if "th' \<in> set (threads (svc_pool y))" for th'
    using bspec[OF r(2) that] by auto
  then have "running s (threads (svc_pool y)) = {#}" by (simp add: running_def)
  then show "mset (svc_taken y) = mset (map (\<lambda>a. new_session_event (fst a)) (svc_answers y))"
    using e by (simp add: events_ok_def)
qed

lemma reply_unique:
  assumes "service_ok s y" "c \<in> set (svc_asked y)" "(ctx_name c, r) \<in> set (svc_answers y)"
  shows "reply_ok c y r"
proof -
  obtain d where d: "d \<in> set (svc_asked y)" "ctx_name c = ctx_name d" "reply_ok d y r"
    using assms(1,3) by (fastforce simp: service_ok_def answers_ok_def)
  have "inj_on ctx_name (set (contexts (svc_server y)) \<union> set (svc_asked y))"
    using assms(1) by (simp add: service_ok_def names_ok_def)
  with d(1,2) assms(2) have "c = d" by (auto simp: inj_on_def)
  with d(3) show ?thesis by simp
qed

text \<open>The replies as a function of the clients, when nothing went wrong.\<close>

lemma replies_of_clients:
  assumes "service_ok s y" "svc_closed y = []" "svc_failed y = []"
    "mset (map fst (svc_answers y)) = mset (map ctx_name (svc_asked y))"
  shows "mset (svc_answers y) = mset (map (\<lambda>c. (ctx_name c, Inr (ctx_fd c, greeting))) (svc_asked y))"
proof -
  let ?inv = "inv_into (set (svc_asked y)) ctx_name"
  let ?f = "\<lambda>n. (n, Inr (ctx_fd (?inv n), greeting) :: (int \<times> string) res)"
  have inj: "inj_on ctx_name (set (svc_asked y))"
    using assms(1) by (auto simp: service_ok_def names_ok_def intro: inj_on_subset)
  have "a = ?f (fst a)" if a: "a \<in> set (svc_answers y)" for a
  proof -
    obtain c where c: "c \<in> set (svc_asked y)" "fst a = ctx_name c" "reply_ok c y (snd a)"
      using assms(1) a by (fastforce simp: service_ok_def answers_ok_def)
    then have "snd a = Inr (ctx_fd c, greeting)" using assms(2,3) by (auto simp: reply_ok_def)
    then show ?thesis using c inv_into_f_f[OF inj c(1)] by (simp add: prod_eq_iff)
  qed
  then have "map (\<lambda>a. ?f (fst a)) (svc_answers y) = svc_answers y" by (intro map_idI) simp
  then have "mset (svc_answers y) = image_mset ?f (mset (map fst (svc_answers y)))"
    by (metis (no_types, lifting) list.map_comp comp_apply map_eq_conv mset_map)
  also have "\<dots> = mset (map (\<lambda>c. ?f (ctx_name c)) (svc_asked y))" unfolding assms(4) by (simp add: image_mset.compositionality comp_def)
  also have "map (\<lambda>c. ?f (ctx_name c)) (svc_asked y) = map (\<lambda>c. (ctx_name c, Inr (ctx_fd c, greeting))) (svc_asked y)"
    using inv_into_f_f[OF inj] by simp
  finally show ?thesis .
qed

section \<open>One request from start to end\<close>

text \<open>A server without connections, and the pool of one thread after a request.\<close>

definition idle_server :: server where
  "idle_server = running_server\<lparr>contexts := [], open_fds := [5], next_context := 0\<rparr>"

definition rested :: "session_event pool" where
  "rested = pool_ready\<lparr>threads := [Sleeping], n_idles := 1\<rparr>"

lemma rested_still: "\<not> can_move rested"
proof
  assume "can_move rested"
  then obtain a q where "pool_step rested a q" "internal a" by (auto simp: can_move_def)
  then show False
    by cases (auto simp: rested_def pool_ready_def add_threads_def new_pool_def take_stage_def fall_asleep_def Let_def)
qed

lemma rested_steps:
  "\<exists>p1 p2 p3 p4 p5. pool_step pool_ready (Added 1 x) p1 \<and>
     stages p1 1 = fst (add_event x (stages (pool_ready :: session_event pool) 1)) \<and> pool_step p1 (Scheduled 1) p2 \<and>
     pool_step p2 (Taken 0) p3 \<and> pool_step p3 (Removed 1 x) p4 \<and> threads p4 ! 0 = Running 1 x \<and>
     pool_step p4 (Finished 0) p5 \<and> pool_step p5 (Slept 0) rested"
proof -
  note d = pool_ready_def add_threads_def new_pool_def new_stage_def killer_def upd_stage_def upd_thread_def
  let ?st = "\<lambda>es. \<lparr>event_list = es, connected = True, disconnecting = False, waiting = False, event_ref = 1, th_pool = Some ''p'', next_stages = []\<rparr>"
  let ?p1 = "pool_ready\<lparr>stages := (\<lambda>_. new_stage)(1 := ?st [x]), calls := [(1, None)]\<rparr>"
  let ?p2 = "?p1\<lparr>calls := [], run_queue := [1]\<rparr>"
  let ?p3 = "?p2\<lparr>threads := [Took 1], run_queue := []\<rparr>"
  let ?p4 = "?p3\<lparr>threads := [Running 1 x], stages := (\<lambda>_. new_stage)(1 := ?st [])\<rparr>"
  have "pool_step pool_ready (Added 1 x) ((upd_stage 1 (?st [x]) pool_ready)\<lparr>calls := calls (pool_ready :: session_event pool) @ (if True then [(1, None)] else [])\<rparr>)"
    by (rule pool_step.add_event) (simp_all add: d add_event_def Let_def may_call_def)
  then have 1: "pool_step pool_ready (Added 1 x) ?p1" by (simp add: d)
  have 2: "pool_step ?p1 (Scheduled 1) ?p2"
    by (rule pool_step.schedule[where xs = "[]" and ys = "[]" and a = None and w = None])
      (simp_all add: schedule_def qempty_def Let_def d)
  have 3: "pool_step ?p2 (Taken 0) ?p3" by (rule pool_step.take) (simp_all add: take_stage_def d)
  have 4: "pool_step ?p3 (Removed 1 x) ?p4"
    by (rule pool_step.remove[where t = 0]) (simp_all add: take_event_def remove_event_def d)
  have 5: "pool_step ?p4 (Finished 0) (finish_event 0 1 ?p4)" by (rule pool_step.finish) (simp_all add: d)
  have 6: "pool_step (finish_event 0 1 ?p4) (Slept 0) rested"
    by (rule pool_step.sleep) (simp_all add: fall_asleep_def finish_event_def release_event_def rested_def d Let_def)
  have "stages ?p1 1 = fst (add_event x (stages (pool_ready :: session_event pool) 1))" "threads ?p4 ! 0 = Running 1 x"
    by (simp_all add: d add_event_def Let_def)
  with 1 2 3 4 5 6 show ?thesis by blast
qed

lemma env_steps:
  "pool_run p as q \<Longrightarrow> set as \<subseteq> {Env} \<Longrightarrow>
   (service_step hops s)\<^sup>*\<^sup>* (y\<lparr>svc_pool := p, svc_taken := svc_taken y\<rparr>) (y\<lparr>svc_pool := q, svc_taken := svc_taken y\<rparr>)"
proof (induction rule: pool_run.induct)
  case (run_snoc p as q a r)
  let ?y = "y\<lparr>svc_pool := q, svc_taken := svc_taken y\<rparr>"
  from run_snoc.prems have a: "a = Env" by simp
  have "service_step hops s ?y (?y\<lparr>svc_pool := r, svc_taken := svc_taken ?y @ removed s a\<rparr>)"
    by (rule inside_pool) (use run_snoc.hyps(2) a in \<open>simp_all add: ends_handler_def\<close>)
  with run_snoc.IH run_snoc.prems a show ?case by (auto intro: rtranclp.rtrancl_into_rtrancl)
qed simp

section \<open>Properties\<close>

text \<open>C8. Every request is answered once, to its own connection. From a server without connections and a fresh pool, let
  connections be accepted and closed, requests arrive and threads run, interleaved in any way, until the pool rests with the
  session stage connected and a thread alive. Then the threads have taken the events of the requests in the order of their
  arrival, and the replies are as many, client by client, as the requests. Each reply is the greeting, sent to the
  descriptor of the connection that asked, unless writing to that connection failed (then it is a part of the greeting),
  or the connection has been closed before its event was handled, whose context the handler uses all the same: that is
  undefined. So if no connection is closed and no write fails, the replies are exactly the greetings to the clients.\<close>

theorem every_request_answered:
  assumes "(service_step hops s)\<^sup>*\<^sup>* (new_service nm srv) y" "contexts srv = []" "s \<noteq> killer"
    "\<not> can_move (svc_pool y)" "connected (stages (svc_pool y) s)" "\<exists>th \<in> set (threads (svc_pool y)). th \<noteq> Exited"
  shows "svc_taken y = map (\<lambda>c. new_session_event (ctx_name c)) (svc_asked y) \<and>
    mset (map fst (svc_answers y)) = mset (map ctx_name (svc_asked y)) \<and>
    (\<forall>c \<in> set (svc_asked y). \<forall>r. (ctx_name c, r) \<in> set (svc_answers y) \<longrightarrow>
       r = Inl Undefined \<and> ctx_name c \<in> set (svc_closed y) \<or>
       (\<exists>out t. r = Inr (ctx_fd c, out) \<and> greeting = out @ t \<and> (out = greeting \<or> ctx_name c \<in> set (svc_failed y)))) \<and>
    (svc_closed y = [] \<and> svc_failed y = [] \<longrightarrow>
       mset (svc_answers y) = mset (map (\<lambda>c. (ctx_name c, Inr (ctx_fd c, greeting))) (svc_asked y)))"
proof -
  have i: "service_ok s y" by (rule service_run_ok[OF assms(1,3) new_service_ok[OF assms(2)]])
  obtain th where th: "th \<in> set (threads (svc_pool y))" "th \<noteq> Exited" using assms(6) by blast
  note r = service_at_rest[OF i assms(4,5) th]
  have "mset (map sev_client (svc_taken y)) = mset (map sev_client (map (\<lambda>a. new_session_event (fst a)) (svc_answers y)))"
    using r(2) by (simp only: mset_map)
  then have m: "mset (map fst (svc_answers y)) = mset (map ctx_name (svc_asked y))"
    unfolding r(1) by (simp only: list.map_comp comp_def client_of_event)
  from r(1) m reply_unique[OF i] replies_of_clients[OF i _ _ m] show ?thesis unfolding reply_ok_def by blast
qed

text \<open>One connection, one request.\<close>

theorem every_request_answered_witness:
  "\<exists>y. (service_step 4 1)\<^sup>*\<^sup>* (new_service ''p'' idle_server) y \<and> svc_answers y = [(0, Inr (7, greeting))]"
proof -
  let ?c = "\<lparr>ctx_name = 0, ctx_fd = 7, ctx_addr = ''a:0''\<rparr>"
  let ?k = "\<lparr>acc_fd = 7, acc_ntop = Some ''a'', acc_port = 0, acc_getfl = 2, acc_setfl = 0, acc_nodelay = 0, acc_base_set = 0,
      acc_event_add = 0\<rparr>"
  let ?srv = "accept_conn ?k idle_server"
  let ?x = "new_session_event 0" and ?ws = "[Wrote 15]"
  have "show_int 0 = ''0''" by code_simp
  then have c: "contexts ?srv = [?c]"
    by (simp add: accept_conn_def idle_server_def running_server_def set_non_block_def Let_def)
  obtain p1 p2 p3 p4 p5 where p: "pool_step pool_ready (Added 1 ?x) p1"
    "stages p1 1 = fst (add_event ?x (stages (pool_ready :: session_event pool) 1))" "pool_step p1 (Scheduled 1) p2"
    "pool_step p2 (Taken 0) p3" "pool_step p3 (Removed 1 ?x) p4" "threads p4 ! 0 = Running 1 ?x"
    "pool_step p4 (Finished 0) p5" "pool_step p5 (Slept 0) rested"
    using rested_steps by blast
  define y0 where "y0 = new_service ''p'' idle_server"
  define y1 where "y1 = y0\<lparr>svc_pool := pool_ready\<rparr>"
  define y2 where "y2 = y1\<lparr>svc_server := ?srv\<rparr>"
  define v where "v = on_read ?c (Request [] 1) (server_view 1 y2)"
  define y3 where "y3 = y2\<lparr>svc_pool := p1, svc_server := v, svc_asked := [?c]\<rparr>"
  define y4 where "y4 = y3\<lparr>svc_pool := p4, svc_taken := [?x]\<rparr>"
  define y5 where "y5 = y4\<lparr>svc_pool := p5, svc_answers := [(0, Inr (7, greeting))], svc_failed := []\<rparr>"
  define y6 where "y6 = y5\<lparr>svc_pool := rested\<rparr>"
  note ys = y0_def y1_def y2_def y3_def y4_def y5_def y6_def new_service_def
  have pass: "service_step 4 1 y (y\<lparr>svc_pool := q, svc_taken := svc_taken y @ removed 1 a\<rparr>)"
    if "pool_step (svc_pool y) a q" "added 1 a = []" "\<forall>t. a \<noteq> Finished t" for y a q
    by (rule inside_pool) (use that in \<open>simp_all add: ends_handler_def\<close>)
  have "(service_step 4 1)\<^sup>*\<^sup>* (y0\<lparr>svc_pool := new_pool ''p'', svc_taken := svc_taken y0\<rparr>) (y0\<lparr>svc_pool := pool_ready, svc_taken := svc_taken y0\<rparr>)"
    by (rule env_steps[OF ready_run]) simp
  then have r1: "(service_step 4 1)\<^sup>*\<^sup>* y0 y1" by (simp add: y0_def y1_def new_service_def)
  have "service_step 4 1 y1 (y1\<lparr>svc_server := accept_conn ?k (svc_server y1)\<rparr>)"
    by (rule accepted) (simp add: ys idle_server_def)
  then have s2: "service_step 4 1 y1 y2" by (simp add: ys)
  have "service_step 4 1 y2 (y2\<lparr>svc_pool := p1, svc_server := v, svc_asked := svc_asked y2 @ [?c]\<rparr>)"
    by (rule asked[OF _ v_def[symmetric]]) (use c p(1,2) in \<open>simp_all add: ys v_def on_read_def server_view_def\<close>)
  then have s3: "service_step 4 1 y2 y3" by (simp add: y3_def) (simp add: ys)
  define a2 where "a2 = y3\<lparr>svc_pool := p2, svc_taken := []\<rparr>"
  define a3 where "a3 = y3\<lparr>svc_pool := p3, svc_taken := []\<rparr>"
  have "svc_taken y3 = []" "svc_pool y3 = p1" "svc_answers y4 = []" "svc_failed y4 = []" "svc_pool y4 = p4" "svc_server y4 = v"
    by (simp_all add: ys)
  note f = this
  have s4: "service_step 4 1 y3 a2" using pass[of y3 "Scheduled 1" p2] p(3) f by (simp add: a2_def)
  have s5: "service_step 4 1 a2 a3" using pass[of a2 "Taken 0" p3] p(4) f by (simp add: a2_def a3_def)
  have s6: "service_step 4 1 a3 y4" using pass[of a3 "Removed 1 ?x" p4] p(5) f by (simp add: a3_def y4_def)
  have "contexts v = [?c]" by (simp add: v_def server_view_def y2_def c)
  then have a: "answer_event 4 ?ws v ?x = Some (Inr (7, greeting, False))"
    by (simp add: answer_event_def handle_event_callback send_def greeting_def)
  have "service_step 4 1 y4 (y4\<lparr>svc_pool := p5, svc_answers := svc_answers y4 @ [(sev_client ?x, Inr (7, greeting))],
       svc_failed := (if list_all transient ?ws then [] else [sev_client ?x]) @ svc_failed y4\<rparr>)"
    by (rule answered[where t = 0]) (use p(6,7) a f in simp_all)
  then have s7: "service_step 4 1 y4 y5" using f by (simp add: y5_def transient_def)
  have s8: "service_step 4 1 y5 y6" using pass[of y5 "Slept 0" rested] p(8) by (simp add: y5_def y6_def)
  from r1 s2 s3 s4 s5 s6 s7 s8 have r: "(service_step 4 1)\<^sup>*\<^sup>* y0 y6" by (meson rtranclp.rtrancl_into_rtrancl)
  have q: "svc_pool y6 = rested" "svc_closed y6 = []" "svc_failed y6 = []" "svc_asked y6 = [?c]" by (simp_all add: ys)
  have "connected (stages rested 1)" "\<exists>th \<in> set (threads rested). th \<noteq> Exited" "1 \<noteq> killer" "contexts idle_server = []"
    by (simp_all add: rested_def pool_ready_def killer_def idle_server_def Let_def)
  then have "mset (svc_answers y6) = mset (map (\<lambda>c. (ctx_name c, Inr (ctx_fd c, greeting))) (svc_asked y6))"
    using every_request_answered[OF r[unfolded y0_def], unfolded q(1)] rested_still q(2,3) by blast
  then show ?thesis using r q(4) by (auto simp: y0_def)
qed

end
