(* ===== verification/Client.thy ===== *)
theory Client
  imports Server
begin

text \<open>
  The client program: the options, the connection and the descriptor of \<open>VulcanClient\<close> (\<open>client/vulcan_client.cpp\<close>), and
  \<open>main\<close> of \<open>client/main.cpp\<close> around the command loop of theory \<open>Net_IO\<close>. getopt is an argument: the options in their order
  with their values. Shown: what a whole session of the client sends and prints.
\<close>

section \<open>The client\<close>

record VulcanClient =
  unix_socket_path :: string
  server_host :: string
  server_port :: int
  sockfd :: int

definition new_client :: VulcanClient where
  "new_client = \<lparr>unix_socket_path = ''/tmp/vulcandb.sock'', server_host = ''127.0.0.1'', server_port = 6688, sockfd = -1\<rparr>"

definition set_client_option :: "char \<times> string \<Rightarrow> VulcanClient \<Rightarrow> VulcanClient" where
  "set_client_option opt c =
     (let (k, optarg) = opt
      in if k = CHR ''s'' then c\<lparr>unix_socket_path := optarg\<rparr>
         else if k = CHR ''p'' then c\<lparr>server_port := atoi optarg\<rparr>
         else if k = CHR ''h'' then c\<lparr>server_host := optarg\<rparr>
         else c)"

definition client_options :: "(char \<times> string) list \<Rightarrow> VulcanClient \<Rightarrow> VulcanClient" where
  "client_options opts c = fold set_client_option opts c"

text \<open>What \<open>connect\<close> is called with: the path is cut to the size of \<open>sun_path\<close>, the port to sixteen bits.\<close>

datatype address = Unix_address string | Inet_address string int

definition connect_address :: "bool \<Rightarrow> VulcanClient \<Rightarrow> address" where
  "connect_address unix c =
     (if unix then Unix_address (take 107 (unix_socket_path c)) else Inet_address (server_host c) (server_port c mod 65536))"

text \<open>\<open>VulcanClient::init\<close>.\<close>

definition init_client :: "(char \<times> string) list \<Rightarrow> bool \<Rightarrow> int \<Rightarrow> int \<Rightarrow> VulcanClient \<Rightarrow> (address \<times> VulcanClient) res" where
  "init_client opts host sock conn c =
     (let c1 = client_options opts c
      in rbind (client_init (server_host c1) host sock conn) (\<lambda>(unix, fd).
           Inr (connect_address unix c1, c1\<lparr>sockfd := fd\<rparr>)))"

text \<open>\<open>VulcanClient::close\<close>; the descriptors that stay open.\<close>

definition close_client :: "VulcanClient \<Rightarrow> int list \<Rightarrow> int list" where
  "close_client c fds = (if 0 < sockfd c then removeAll (sockfd c) fds else fds)"

text \<open>\<open>main\<close>: the buffers sent, the text printed, the descriptors open at the end, and the status or the call of \<open>exit\<close>.\<close>

definition client_main ::
    "(char \<times> string) list \<Rightarrow> bool \<Rightarrow> int \<Rightarrow> int \<Rightarrow> string \<Rightarrow> write_ret list \<Rightarrow> read_ret list
       \<Rightarrow> (string list \<times> string \<times> int list \<times> int res) option" where
  "client_main opts host sock conn stdin ws rs =
     (case init_client opts host sock conn new_client of
        Inl e \<Rightarrow> Some ([], [], [], Inl e)
      | Inr (_, c) \<Rightarrow>
          (case run stdin ws rs of
             None \<Rightarrow> None
           | Some (outs, text, Client_exit n) \<Rightarrow> Some (outs, text, [sockfd c], Inl (Exit_called n))
           | Some (outs, text, Client_done) \<Rightarrow> Some (outs, text, close_client c [sockfd c], Inr 0)))"

section \<open>One command after another\<close>

lemma writen_more: "writen buf ws = Some (out, r, ws') \<Longrightarrow> writen buf (ws @ rest) = Some (out, r, ws' @ rest)"
  by (induction buf ws arbitrary: out r ws' rule: writen.induct) (auto split: if_splits)

text \<open>Pieces of input without failures between them.\<close>

fun arrived :: "read_ret \<Rightarrow> bool" where
  "arrived (Arrived s) = (s \<noteq> [])"
| "arrived _ = False"

lemma data_simps [simp]: "data [] = []" "data (Arrived s # rs) = s @ data rs"
  by (simp_all add: data_def)

lemma arrived_no_data: "list_all arrived qs \<Longrightarrow> data qs = [] \<longleftrightarrow> qs = []"
  by (cases qs rule: list.exhaust; cases "hd qs") (auto simp: data_def)

lemma print_msg_exact:
  assumes "0 < n"
  shows "list_all arrived qs \<Longrightarrow> data qs = m @ [CHR 0x00] \<Longrightarrow> CHR 0x00 \<notin> set m \<Longrightarrow>
    print_msg n (qs @ rest) = Some (m @ [CHR 0x0A], 0, rest)"
proof (induction "weight qs" arbitrary: qs m rule: less_induct)
  case less
  obtain s qs' where q: "qs = Arrived s # qs'" "s \<noteq> []" "list_all arrived qs'"
    using less.prems(1,2) by (cases qs rule: list.exhaust; cases "hd qs") auto
  define a b where "a = (if length s \<le> n then s else take n s)" and "b = (if length s \<le> n then qs' else Arrived (drop n s) # qs')"
  have sys: "sys_read n (qs @ rest) = Some (Got a, b @ rest)"
    using assms q(1,2) by (simp add: a_def b_def)
  have b: "list_all arrived b" "data qs = a @ data b" "weight b < weight qs"
    using assms q by (auto simp: a_def b_def weight_def)
  show ?case
  proof (cases "CHR 0x00 \<in> set a")
    case True
    have "a @ data b = m @ [CHR 0x00]" using b(2) less.prems(2) by simp
    with True less.prems(3) have e: "a = m @ [CHR 0x00] \<and> data b = []"
      by (auto simp: append_eq_append_conv2 append_eq_Cons_conv)
    then have "b = []" using arrived_no_data[OF b(1)] by blast
    then show ?thesis using sys e less.prems(3)
      by (subst print_msg.simps) (auto simp: takeWhile_append)
  next
    case False
    then obtain m' where m': "m = a @ m'" "data b = m' @ [CHR 0x00]"
      using b(2) less.prems(2) by (cases "data b" rule: rev_cases) (auto simp flip: append_assoc)
    have "print_msg n (b @ rest) = Some (m' @ [CHR 0x0A], 0, rest)"
      by (rule less.hyps[OF b(3,1) m'(2)]) (use less.prems(3) m'(1) in simp)
    with sys False m'(1) show ?thesis by (subst print_msg.simps) simp
  qed
qed

text \<open>An exchange: the command, how the calls of \<open>write\<close> take it, how the reply arrives, and the reply.\<close>

record exchange =
  command :: string
  writes :: "write_ret list"
  arrivals :: "read_ret list"
  reply :: string

definition newline_char :: char where
  "newline_char = CHR 0x0A"

definition command_ok :: "exchange \<Rightarrow> bool" where
  "command_ok x \<longleftrightarrow>
     newline_char \<notin> set (command x) \<and> CHR 0x00 \<notin> set (command x) \<and> length (command x) + 2 \<le> MAX_MEM_BUFFER_SIZE \<and>
     \<not> is_exit_command (command x @ [newline_char]) \<and> \<not> is_blank (Some (command x @ [newline_char])) \<and>
     writen (command x @ [newline_char, CHR 0x00]) (writes x) = Some (command x @ [newline_char, CHR 0x00], 0, [])"

definition exchange_ok :: "exchange \<Rightarrow> bool" where
  "exchange_ok x \<longleftrightarrow> command_ok x \<and>
     list_all arrived (arrivals x) \<and> data (arrivals x) = reply x @ [CHR 0x00] \<and> CHR 0x00 \<notin> set (reply x)"

lemma fgets_line:
  "CHR 0x0A \<notin> set cmd \<Longrightarrow> length cmd + 2 \<le> n \<Longrightarrow>
    fgets n (cmd @ CHR 0x0A # rest) = Some (cmd @ [CHR 0x0A], rest)"
proof -
  assume a: "CHR 0x0A \<notin> set cmd" "length cmd + 2 \<le> n"
  have "takeWhile (\<lambda>c. c \<noteq> CHR 0x0A) (cmd @ CHR 0x0A # rest) = cmd"
    using a(1) by (subst takeWhile_append2) auto
  moreover have "min (n - 1) (length cmd + 1) = length cmd + 1" using a(2) by simp
  ultimately show ?thesis by (simp add: fgets_def)
qed

lemma run_exchange:
  assumes "exchange_ok x"
  shows "run (command x @ newline_char # stdin) (writes x @ ws) (arrivals x @ rs) =
    map_option (\<lambda>(outs, u, e). ((command x @ [newline_char, CHR 0x00]) # outs, reply x @ newline_char # u, e)) (run stdin ws rs)"
proof -
  note x = assms[unfolded exchange_ok_def command_ok_def newline_char_def]
  have f: "fgets MAX_MEM_BUFFER_SIZE (command x @ CHR 0x0A # stdin) = Some (command x @ [CHR 0x0A], stdin)"
    using x by (simp add: fgets_line)
  have n: "0 < MAX_MEM_BUFFER_SIZE" by (simp add: MAX_MEM_BUFFER_SIZE_def)
  have t: "takeWhile (\<lambda>c. c \<noteq> CHR 0x00) (command x @ [CHR 0x0A]) = command x @ [CHR 0x0A]"
    using x by (auto simp: takeWhile_eq_all_conv)
  have w: "writen (command x @ [CHR 0x0A, CHR 0x00]) (writes x @ ws) = Some (command x @ [CHR 0x0A, CHR 0x00], 0, ws)"
    using writen_more[of "command x @ [CHR 0x0A, CHR 0x00]" "writes x" _ 0 "[]" ws] x by simp
  have p: "print_msg MAX_MEM_BUFFER_SIZE (arrivals x @ rs) = Some (reply x @ [CHR 0x0A], 0, rs)"
    by (rule print_msg_exact[OF n]) (use x in auto)
  show ?thesis unfolding newline_char_def
    by (subst run.simps) (use x in \<open>simp add: f t w p Let_def\<close>)
qed

lemma run_exchanges:
  "list_all exchange_ok xs \<Longrightarrow>
   run (concat (map (\<lambda>x. command x @ [newline_char]) xs) @ stdin) (concat (map writes xs) @ ws) (concat (map arrivals xs) @ rs) =
   map_option (\<lambda>(outs, u, e). (map (\<lambda>x. command x @ [newline_char, CHR 0x00]) xs @ outs,
     concat (map (\<lambda>x. reply x @ [newline_char]) xs) @ u, e)) (run stdin ws rs)"
proof (induction xs)
  case (Cons x xs)
  then have x: "exchange_ok x" and xs: "list_all exchange_ok xs" by simp_all
  show ?case
    using run_exchange[OF x, of "concat (map (\<lambda>x. command x @ [newline_char]) xs) @ stdin"] Cons.IH[OF xs]
    by (simp add: option.map_comp comp_def case_prod_unfold)
qed (simp add: option.map_ident case_prod_unfold)

text \<open>The end of the input, or a command that ends the client.\<close>

definition last_line :: "string \<Rightarrow> bool" where
  "last_line s \<longleftrightarrow> (case fgets MAX_MEM_BUFFER_SIZE s of
     None \<Rightarrow> True | Some (line, _) \<Rightarrow> is_exit_command (takeWhile (\<lambda>c. c \<noteq> CHR 0x00) line))"

lemma run_last_line: "last_line s \<Longrightarrow> run s ws rs = Some ([], [], Client_done)"
  by (subst run.simps) (auto simp: last_line_def Let_def split: option.splits)

text \<open>The result 1, for which \<open>run\<close> has a message, never comes: a connection the server has closed looks like an empty
  reply.\<close>

lemma print_msg_status: "print_msg n rs = Some (t, ret, rs') \<Longrightarrow> ret = 0 \<or> ret = -1"
proof (induction n rs arbitrary: t ret rs' rule: print_msg.induct)
  case (1 n rs)
  from 1(2) show ?case
    by (subst (asm) print_msg.simps) (auto split: option.splits read_len.splits if_splits dest: 1(1)[rotated -1])
qed

lemma client_main_session:
  assumes "init_client opts host sock conn new_client = Inr (addr, c)" "0 < sockfd c" "list_all exchange_ok xs" "last_line fin"
  shows "client_main opts host sock conn (concat (map (\<lambda>x. command x @ [newline_char]) xs) @ fin)
      (concat (map writes xs) @ ws) (concat (map arrivals xs) @ rs) =
    Some (map (\<lambda>x. command x @ [newline_char, CHR 0x00]) xs, concat (map (\<lambda>x. reply x @ [newline_char]) xs), [], Inr 0)"
  using assms(1,2) by (simp add: client_main_def run_exchanges[OF assms(3)] run_last_line[OF assms(4)] close_client_def)

lemma client_connects:
  assumes "0 < fd" "0 \<le> conn" "host"
  shows "init_client opts host fd conn new_client =
    (let c = client_options opts new_client
     in Inr (connect_address (server_host c \<in> {'''', ''localhost'', ''127.0.0.1''}) c, c\<lparr>sockfd := fd\<rparr>))"
  using assms by (simp add: init_client_def client_init_def connect_unix_sock_def connect_tcp_sock_def Let_def)

section \<open>Theorems\<close>

text \<open>C28. A session of the client: when it can connect, the client connects to the socket of
  the options if the host is the local one and by TCP otherwise; every line is sent, with its newline and a null, as one
  buffer and in order, every reply is printed with a newline, and at the end of the input or at the first exit command
  the descriptor is closed and the status is zero.\<close>

theorem client_session:
  assumes "client_options opts new_client = c" "0 < fd" "0 \<le> conn" "host" "list_all exchange_ok xs" "last_line fin"
  shows "client_main opts host fd conn (concat (map (\<lambda>x. command x @ [newline_char]) xs) @ fin)
      (concat (map writes xs) @ ws) (concat (map arrivals xs) @ rs) =
    Some (map (\<lambda>x. command x @ [newline_char, CHR 0x00]) xs, concat (map (\<lambda>x. reply x @ [newline_char]) xs), [], Inr 0) \<and>
    (\<exists>c1. init_client opts host fd conn new_client = Inr
       (if server_host c \<in> {'''', ''localhost'', ''127.0.0.1''} then Unix_address (take 107 (unix_socket_path c))
        else Inet_address (server_host c) (server_port c mod 65536), c1))"
proof -
  have i: "init_client opts host fd conn new_client =
      Inr (connect_address (server_host c \<in> {'''', ''localhost'', ''127.0.0.1''}) c, c\<lparr>sockfd := fd\<rparr>)"
    using client_connects[OF assms(2-4), of opts] assms(1) by (simp add: Let_def)
  show ?thesis using client_main_session[OF i _ assms(5,6)] assms(2) by (simp add: i connect_address_def)
qed

definition greeted :: exchange where
  "greeted = \<lparr>command = ''ls'', writes = [Write_err EINTR, Wrote 1, Wrote 3], arrivals = [Arrived ''hel'', Arrived [CHR ''o'', CHR 0x00]], reply = ''helo''\<rparr>"

theorem client_session_witness:
  "client_main [(CHR ''h'', ''db''), (CHR ''p'', ''70000'')] True 5 0 (''ls'' @ [newline_char] @ ''Exit'')
     [Write_err EINTR, Wrote 1, Wrote 3] [Arrived ''hel'', Arrived [CHR ''o'', CHR 0x00]] =
   Some ([''ls'' @ [newline_char, CHR 0x00]], ''helo'' @ [newline_char], [], Inr 0) \<and>
   (\<exists>c1. init_client [(CHR ''h'', ''db''), (CHR ''p'', ''70000'')] True 5 0 new_client = Inr (Inet_address ''db'' 4464, c1))"
proof -
  have o: "client_options [(CHR ''h'', ''db''), (CHR ''p'', ''70000'')] new_client =
      new_client\<lparr>server_host := ''db'', server_port := 70000\<rparr>"
    by code_simp
  have x: "list_all exchange_ok [greeted]" and l: "last_line ''Exit''" by code_simp+
  show ?thesis using client_session[OF o _ _ _ x l, of 5 0 True "[]" "[]"]
    by (simp add: greeted_def)
qed

end
