(* ===== verification/File_Lock.thy ===== *)
theory File_Lock
  imports Prelude
begin

text \<open>
  \<open>open_file_and_lock\<close> of \<open>common/vulcan_utility.h\<close>. The operating system's record locks are a table: of every process and
  file the lock it has on the whole file. A lock belongs to the process, not to the descriptor: setting one again
  replaces it, and closing any descriptor of the file gives it up. Shown: locks of different processes never conflict,
  and what the caller has after each outcome.
\<close>

section \<open>Locks\<close>

datatype lock_kind = F_RDLCK | F_WRLCK

type_synonym locks = "int \<Rightarrow> string \<Rightarrow> lock_kind option"

definition conflicting :: "lock_kind \<Rightarrow> lock_kind \<Rightarrow> bool" where
  "conflicting a b \<longleftrightarrow> a = F_WRLCK \<or> b = F_WRLCK"

text \<open>The processes that exist are given, so that the table can be searched.\<close>

definition blocked :: "int list \<Rightarrow> locks \<Rightarrow> int \<Rightarrow> string \<Rightarrow> lock_kind \<Rightarrow> bool" where
  "blocked procs lt me file k \<longleftrightarrow>
     list_ex (\<lambda>p. p \<noteq> me \<and> (case lt p file of None \<Rightarrow> False | Some k' \<Rightarrow> conflicting k k')) procs"

definition set_lock :: "int \<Rightarrow> string \<Rightarrow> lock_kind option \<Rightarrow> locks \<Rightarrow> locks" where
  "set_lock me file k lt = lt(me := (lt me)(file := k))"

section \<open>The function\<close>

definition O_RDONLY :: int where "O_RDONLY = 0"
definition O_WRONLY :: int where "O_WRONLY = 1"
definition O_RDWR :: int where "O_RDWR = 2"

lemmas open_flags = O_RDONLY_def O_WRONLY_def O_RDWR_def

text \<open>The switch over the flags. Any other value, so also each of the three with \<open>O_CREAT\<close>, leaves \<open>l_type\<close>
  uninitialised.\<close>

definition lock_type :: "int \<Rightarrow> lock_kind res" where
  "lock_type oflag =
     (if oflag = O_RDONLY then Inr F_RDLCK
      else if oflag = O_WRONLY then Inr F_WRLCK
      else if oflag = O_RDWR then Inr F_WRLCK
      else Inl Undefined)"

text \<open>\<open>fd\<close> is what \<open>open\<close> returns; \<open>fail\<close> that \<open>fcntl\<close> fails for another reason than a conflict. The state is the table
  and the open descriptors.\<close>

definition open_file_and_lock ::
    "int list \<Rightarrow> int \<Rightarrow> int \<Rightarrow> bool \<Rightarrow> string \<Rightarrow> int \<Rightarrow> locks \<times> int list \<Rightarrow> int res \<times> locks \<times> int list" where
  "open_file_and_lock procs me fd fail file_path oflag st =
     (let (lt, fds) = st
      in if fd = -1 then (Inl Runtime_error, lt, fds)
         else case lock_type oflag of
                Inl e \<Rightarrow> (Inl e, lt, fd # fds)
              | Inr k \<Rightarrow>
                  if fail then (Inl Runtime_error, lt, fd # fds)
                  else if blocked procs lt me file_path k then (Inr (-1), set_lock me file_path None lt, fds)
                  else (Inr fd, set_lock me file_path (Some k) lt, fd # fds))"

section \<open>Theorems\<close>

definition locks_ok :: "int list \<Rightarrow> locks \<Rightarrow> bool" where
  "locks_ok procs lt \<longleftrightarrow>
     (\<forall>p \<in> set procs. \<forall>q \<in> set procs. \<forall>f k l. p \<noteq> q \<longrightarrow> lt p f = Some k \<longrightarrow> lt q f = Some l \<longrightarrow> \<not> conflicting k l)"

lemma conflicting_sym: "conflicting k l \<longleftrightarrow> conflicting l k"
  by (auto simp: conflicting_def)

lemma set_lock_ok:
  assumes "locks_ok procs lt" "\<And>k. x = Some k \<Longrightarrow> \<not> blocked procs lt me f k"
  shows "locks_ok procs (set_lock me f x lt)"
proof -
  have n: "\<not> conflicting k l" if "x = Some k" "p \<in> set procs" "p \<noteq> me" "lt p f = Some l" for k p l
    using assms(2)[OF that(1)] that(2-) by (auto simp: blocked_def list_ex_iff)
  show ?thesis unfolding locks_ok_def
  proof (intro ballI allI impI)
    fix p q g k l
    assume a: "p \<in> set procs" "q \<in> set procs" "p \<noteq> q" "set_lock me f x lt p g = Some k" "set_lock me f x lt q g = Some l"
    show "\<not> conflicting k l"
    proof (cases "g = f \<and> (p = me \<or> q = me)")
      case True
      then show ?thesis using a n[of k q l] n[of l p k] conflicting_sym[of k l] by (auto simp: set_lock_def)
    next
      case False
      then have "lt p g = Some k" "lt q g = Some l" using a by (auto simp: set_lock_def split: if_splits)
      then show ?thesis using assms(1) a by (auto simp: locks_ok_def)
    qed
  qed
qed

text \<open>C32. Locks of different processes never conflict, whatever the call returns. A descriptor comes with the lock of
  its flags. When the file is taken by another process the result is -1 and no descriptor stays open, but a lock the
  process already had on the file is gone, although the earlier descriptor is still open. If \<open>fcntl\<close> fails otherwise, the
  new descriptor is lost.\<close>

theorem file_locks:
  assumes "locks_ok procs lt" "oflag \<in> {O_RDONLY, O_WRONLY, O_RDWR}" "fd \<noteq> -1"
  shows "case open_file_and_lock procs me fd fail file oflag (lt, fds) of (r, lt1, fds1) \<Rightarrow>
    locks_ok procs lt1 \<and>
    (if fail then r = Inl Runtime_error \<and> lt1 = lt \<and> fds1 = fd # fds
     else if \<exists>p \<in> set procs. p \<noteq> me \<and> (\<exists>k. lt p file = Some k \<and> (k = F_WRLCK \<or> oflag \<noteq> O_RDONLY))
     then r = Inr (-1) \<and> fds1 = fds \<and> lt1 me file = None
     else r = Inr fd \<and> fds1 = fd # fds \<and> lt1 me file = Some (if oflag = O_RDONLY then F_RDLCK else F_WRLCK))"
proof -
  let ?k = "if oflag = O_RDONLY then F_RDLCK else F_WRLCK"
  have t: "lock_type oflag = Inr ?k" using assms(2) by (auto simp: lock_type_def open_flags)
  have b: "blocked procs lt me file ?k \<longleftrightarrow>
      (\<exists>p \<in> set procs. p \<noteq> me \<and> (\<exists>k. lt p file = Some k \<and> (k = F_WRLCK \<or> oflag \<noteq> O_RDONLY)))"
    by (auto simp: blocked_def list_ex_iff conflicting_def split: option.splits)
  have none: "locks_ok procs (set_lock me file None lt)" by (rule set_lock_ok[OF assms(1)]) simp
  have some: "locks_ok procs (set_lock me file (Some ?k) lt)" if "\<not> blocked procs lt me file ?k"
    by (rule set_lock_ok[OF assms(1)]) (use that in simp)
  show ?thesis
    using assms(1,3) none some unfolding open_file_and_lock_def t b[symmetric] by (simp add: set_lock_def)
qed

theorem file_locks_witness:
  "let lt = (\<lambda>p f. if f = ''m.ifc'' then Some F_RDLCK else None)
   in (case open_file_and_lock [1, 2] 1 7 False ''m.ifc'' O_RDWR (lt, [6]) of (r, lt1, fds1) \<Rightarrow>
         r = Inr (-1) \<and> fds1 = [6] \<and> lt1 1 ''m.ifc'' = None)"
proof -
  have "locks_ok [1, 2] (\<lambda>p f. if f = ''m.ifc'' then Some F_RDLCK else None)"
    by (auto simp: locks_ok_def conflicting_def split: if_splits)
  from file_locks[OF this, where oflag = O_RDWR and fd = 7 and me = 1 and fail = False and ?file = "''m.ifc''" and fds = "[6]"] show ?thesis
    by (simp add: open_flags Let_def case_prod_unfold)
qed

end
