(* ===== verification/Express_Schema.thy ===== *)
theory Express_Schema
  imports Text_Utils
begin

text \<open>
  EXPRESS schemas (\<open>express_parser/express_defs.h\<close>, \<open>express_defs.c\<close>, and the parser object of
  \<open>express_parser.cpp\<close>, \<open>express_parser.h\<close>): the declarations, the pass over the text that collects them, and the
  functions the grammar calls to fill them in. A \<open>Type *\<close> is an address in a store of types, because attributes
  share the types of the schema and the code writes through them; a null pointer is \<open>None\<close>, and an \<open>Entity *\<close>
  is an index into the entities of the schema. The grammar itself (yacc, lex) is not modelled.
\<close>

section \<open>Data\<close>

datatype TypeEnum =
    T_REAL | T_NUMBER | T_INTEGER | T_BOOLEAN | T_BINARY | T_LOGICAL | T_STRING | T_ENTITY | T_ENUM | T_SELECT
  | T_DERIVED | T_REFERENCE | T_UNKNOWN

definition MAX_TYPE_NUM :: nat where "MAX_TYPE_NUM = 500"
definition MAX_ENTITY_NUM :: nat where "MAX_ENTITY_NUM = 1000"
definition MAX_SUBTYPE_NUM :: nat where "MAX_SUBTYPE_NUM = 50"
definition MAX_ATTR_NUM :: nat where "MAX_ATTR_NUM = 50"

lemmas max_nums = MAX_TYPE_NUM_def MAX_ENTITY_NUM_def MAX_SUBTYPE_NUM_def MAX_ATTR_NUM_def

text \<open>An \<open>ExpDesc *\<close> points to the head of a type or of an entity.\<close>

datatype exp_desc = TypeDesc nat | EntityDesc nat

record exp_type =
  ty_name :: "string option"
  ty_kind :: TypeEnum
  ty_schema :: bool
  ref_type :: "exp_desc option"
  is_list :: bool
  lb :: nat
  ub :: nat
  fixed_length :: bool
  enum_list :: "string list"
  select_list :: "exp_desc list"

record exp_attr =
  attr_name :: string
  attr_type :: nat
  is_optional :: bool

text \<open>\<open>assigned\<close> says that the counters of attributes and subtypes have been written.\<close>

record exp_entity =
  en_name :: string
  is_abstract :: bool
  assigned :: bool
  attrs :: "exp_attr list"
  subtypes :: "nat option list"
  supertype :: "nat option"

record exp_schema =
  type_store :: "exp_type list"
  types :: "nat list"
  entities :: "exp_entity list"

record type_args =
  ta_type :: TypeEnum
  ta_ref_type_name :: "string option"
  ta_is_list :: bool
  ta_lb :: nat
  ta_ub :: nat
  ta_fixed_length :: bool
  ta_select_list :: "string list"
  ta_enum_list :: "string list"

record attr_args =
  aa_name :: string
  aa_type :: type_args
  aa_optional :: bool

record entity_args =
  ea_abstract :: bool
  ea_attrs :: "attr_args list"
  ea_subtype_names :: "string list"
  ea_supertype_name :: "string option"

definition new_schema :: exp_schema where
  "new_schema = \<lparr>type_store = [], types = [], entities = []\<rparr>"

definition new_type :: exp_type where
  "new_type =
     \<lparr>ty_name = None, ty_kind = T_UNKNOWN, ty_schema = False, ref_type = None, is_list = False, lb = 0,
      ub = 4294967295, fixed_length = False, enum_list = [], select_list = []\<rparr>"

definition new_entity :: "string \<Rightarrow> exp_entity" where
  "new_entity n =
     \<lparr>en_name = n, is_abstract = False, assigned = False, attrs = [], subtypes = [], supertype = None\<rparr>"

definition new_type_name_args :: "TypeEnum \<Rightarrow> type_args" where
  "new_type_name_args ty =
     \<lparr>ta_type = ty, ta_ref_type_name = None, ta_is_list = False, ta_lb = 0, ta_ub = 4294967295,
      ta_fixed_length = False, ta_select_list = [], ta_enum_list = []\<rparr>"

section \<open>Declarations\<close>

text \<open>The assertion compares with the wrong constant: from \<open>MAX_TYPE_NUM\<close> on, the write is out of the array.\<close>

definition add_type_to_schema :: "string \<Rightarrow> exp_schema \<Rightarrow> exp_schema res" where
  "add_type_to_schema n s =
     (let index = length (types s)
      in if index \<ge> MAX_ENTITY_NUM then Inl Assert_failed
         else if index \<ge> MAX_TYPE_NUM then Inl Undefined
         else Inr (s\<lparr>type_store := type_store s @ [new_type\<lparr>ty_name := Some n, ty_schema := True\<rparr>],
                     types := types s @ [length (type_store s)]\<rparr>))"

definition add_entity_to_schema :: "string \<Rightarrow> exp_schema \<Rightarrow> exp_schema res" where
  "add_entity_to_schema n s =
     (if length (entities s) \<ge> MAX_ENTITY_NUM then Inl Assert_failed
      else Inr (s\<lparr>entities := entities s @ [new_entity n]\<rparr>))"

definition find_type_by_name :: "string \<Rightarrow> exp_schema \<Rightarrow> nat option" where
  "find_type_by_name n s = find (\<lambda>a. ty_name (type_store s ! a) = Some n) (types s)"

definition find_entity_by_name :: "string \<Rightarrow> exp_schema \<Rightarrow> nat option" where
  "find_entity_by_name n s = index_of (\<lambda>e. en_name e = n) (entities s)"

definition find_entity_by_id :: "int \<Rightarrow> exp_schema \<Rightarrow> exp_entity option" where
  "find_entity_by_id i s = (if i < 0 \<or> i \<ge> int (length (entities s)) then None else Some (entities s ! nat i))"

definition get_entity_id :: "nat option \<Rightarrow> int" where
  "get_entity_id e = (case e of None \<Rightarrow> -1 | Some i \<Rightarrow> int i)"

definition find_desc :: "string \<Rightarrow> exp_schema \<Rightarrow> exp_desc option" where
  "find_desc n s =
     (case find_type_by_name n s of
        Some a \<Rightarrow> Some (TypeDesc a)
      | None \<Rightarrow> map_option EntityDesc (find_entity_by_name n s))"

section \<open>The parsed arguments\<close>

definition upd_type :: "nat \<Rightarrow> exp_type \<Rightarrow> exp_schema \<Rightarrow> exp_schema" where
  "upd_type a t s = s\<lparr>type_store := (type_store s)[a := t]\<rparr>"

text \<open>Names are looked up in \<open>type_decl->desc.schema\<close>, which is null for the types of attributes.\<close>

definition assign_type_args :: "nat \<Rightarrow> type_args \<Rightarrow> exp_schema \<Rightarrow> exp_schema res" where
  "assign_type_args a args s =
     (let t = (type_store s ! a)
                \<lparr>ty_kind := ta_type args, fixed_length := ta_fixed_length args, is_list := ta_is_list args,
                 lb := ta_lb args, ub := ta_ub args\<rparr>
      in case ta_type args of
           T_DERIVED \<Rightarrow>
             (case ta_ref_type_name args of
                None \<Rightarrow> Inl Undefined
              | Some n \<Rightarrow>
                  if \<not> ty_schema t then Inl Undefined
                  else (case find_desc n s of
                          None \<Rightarrow> Inl (Exit_called 1)
                        | Some d \<Rightarrow> Inr (upd_type a (t\<lparr>ref_type := Some d\<rparr>) s)))
         | T_ENUM \<Rightarrow> Inr (upd_type a (t\<lparr>enum_list := ta_enum_list args\<rparr>) s)
         | T_SELECT \<Rightarrow>
             if ta_select_list args \<noteq> [] \<and> \<not> ty_schema t then Inl Undefined
             else rbind (rmap (\<lambda>n. case find_desc n s of None \<Rightarrow> Inl (Exit_called 1) | Some d \<Rightarrow> Inr d)
                          (ta_select_list args))
                    (\<lambda>ds. Inr (upd_type a (t\<lparr>select_list := ds\<rparr>) s))
         | _ \<Rightarrow> Inr (upd_type a t s))"

definition alloc_type :: "exp_type \<Rightarrow> exp_schema \<Rightarrow> nat \<times> exp_schema" where
  "alloc_type t s = (length (type_store s), s\<lparr>type_store := type_store s @ [t]\<rparr>)"

text \<open>The type of an attribute: a new one for a simple type, the schema's own for a declared type, a reference
  otherwise. The list flag of the attribute is then written into it, whichever it is. The test for a name that is
  neither a type nor an entity looks at the wrong pointer, so that the reference is to nothing.\<close>

definition assign_attr :: "attr_args \<Rightarrow> exp_schema \<Rightarrow> (exp_attr \<times> exp_schema) res" where
  "assign_attr arg s =
     (let ta = aa_type arg
      in rbind
           (case ta_ref_type_name ta of
              None \<Rightarrow> (let (a, s1) = alloc_type new_type s in rbind (assign_type_args a ta s1) (\<lambda>s2. Inr (a, s2)))
            | Some n \<Rightarrow>
                (case find_type_by_name n s of
                   Some a \<Rightarrow> Inr (a, s)
                 | None \<Rightarrow>
                     Inr (alloc_type (new_type\<lparr>ty_kind := T_REFERENCE,
                            ref_type := map_option EntityDesc (find_entity_by_name n s)\<rparr>) s)))
           (\<lambda>(a, s1).
              Inr (\<lparr>attr_name = aa_name arg, attr_type = a, is_optional = aa_optional arg\<rparr>,
                   upd_type a ((type_store s1 ! a)\<lparr>is_list := ta_is_list ta\<rparr>) s1)))"

fun assign_attrs :: "attr_args list \<Rightarrow> exp_schema \<Rightarrow> (exp_attr list \<times> exp_schema) res" where
  "assign_attrs [] s = Inr ([], s)"
| "assign_attrs (arg # args) s =
     rbind (assign_attr arg s) (\<lambda>(x, s1). rbind (assign_attrs args s1) (\<lambda>(xs, s2). Inr (x # xs, s2)))"

text \<open>The attributes are stored in reverse. Up to \<open>MAX_ENTITY_NUM\<close> of them pass the assertion, but the arrays hold
  \<open>MAX_ATTR_NUM\<close>.\<close>

definition assign_entity_args :: "nat \<Rightarrow> entity_args \<Rightarrow> exp_schema \<Rightarrow> exp_schema res" where
  "assign_entity_args i args s =
     (let e = entities s ! i
      in if length (ea_attrs args) > MAX_ENTITY_NUM then Inl Assert_failed
         else if length (ea_subtype_names args) > MAX_SUBTYPE_NUM then Inl Assert_failed
         else
           let e1 = e\<lparr>is_abstract := ea_abstract args, assigned := True,
                      subtypes := map (\<lambda>n. find_entity_by_name n s) (ea_subtype_names args)\<rparr>
           in rbind (case ea_supertype_name args of
                       None \<Rightarrow> Inr e1
                     | Some n \<Rightarrow>
                         (case find_entity_by_name n s of
                            None \<Rightarrow> Inl Assert_failed
                          | Some k \<Rightarrow> Inr (e1\<lparr>supertype := Some k\<rparr>)))
                (\<lambda>e2.
                   if length (ea_attrs args) > MAX_ATTR_NUM then Inl Undefined
                   else rbind (assign_attrs (rev (ea_attrs args)) s) (\<lambda>(xs, s1).
                          Inr (s1\<lparr>entities := (entities s1)[i := e2\<lparr>attrs := xs\<rparr>]\<rparr>))))"

section \<open>The parser object\<close>

record parser_context =
  type_id_index :: "string \<rightharpoonup> nat"
  entity_id_index :: "string \<rightharpoonup> nat"
  schema_of :: exp_schema

definition new_context :: parser_context where
  "new_context = \<lparr>type_id_index = Map.empty, entity_id_index = Map.empty, schema_of = new_schema\<rparr>"

text \<open>\<open>operator[]\<close> enters index zero for an unknown name.\<close>

definition index_at :: "string \<Rightarrow> (string \<rightharpoonup> nat) \<Rightarrow> nat \<times> (string \<rightharpoonup> nat)" where
  "index_at n m = (case m n of None \<Rightarrow> (0, m(n \<mapsto> 0)) | Some i \<Rightarrow> (i, m))"

definition init_type :: "string \<Rightarrow> type_args \<Rightarrow> parser_context \<Rightarrow> parser_context res" where
  "init_type n args c =
     (let (i, m) = index_at n (type_id_index c); s = schema_of c
      in if i < length (types s) then
           rbind (assign_type_args (types s ! i) args s) (\<lambda>s1. Inr (c\<lparr>type_id_index := m, schema_of := s1\<rparr>))
         else Inl Undefined)"

definition init_entity :: "string \<Rightarrow> entity_args \<Rightarrow> parser_context \<Rightarrow> parser_context res" where
  "init_entity n args c =
     (let (i, m) = index_at n (entity_id_index c); s = schema_of c
      in if i \<ge> length (entities s) then Inl Undefined
         else if en_name (entities s ! i) \<noteq> n then Inl Assert_failed
         else rbind (assign_entity_args i args s) (\<lambda>s1. Inr (c\<lparr>entity_id_index := m, schema_of := s1\<rparr>)))"

text \<open>\<open>Token\<close>: the text from \<open>start\<close> to \<open>end\<close>; the next one begins after the separators that follow.\<close>

definition is_sep :: "char \<Rightarrow> bool" where
  "is_sep c \<longleftrightarrow> c = CHR '' '' \<or> c = CHR 0x0A \<or> c = CHR 0x09 \<or> c = CHR '';''"

definition token_has_next :: "string \<Rightarrow> nat \<Rightarrow> bool" where
  "token_has_next content end_pos \<longleftrightarrow> list_ex (\<lambda>c. \<not> is_sep c) (drop end_pos content)"

definition token_next :: "string \<Rightarrow> nat \<Rightarrow> nat \<times> nat" where
  "token_next content end_pos =
     (let i = end_pos + length (takeWhile is_sep (drop end_pos content));
          j = i + length (takeWhile (\<lambda>c. \<not> is_sep c) (drop i content))
      in (i, j))"

definition token_text :: "string \<Rightarrow> nat \<times> nat \<Rightarrow> string" where
  "token_text content t = take (snd t - fst t) (drop (fst t) content)"

definition token_valid :: "string \<Rightarrow> nat \<times> nat \<Rightarrow> bool" where
  "token_valid content t \<longleftrightarrow> fst t < length content"

definition declare_type :: "string \<Rightarrow> parser_context \<Rightarrow> parser_context res" where
  "declare_type n c =
     rbind (add_type_to_schema n (schema_of c)) (\<lambda>s.
       Inr (c\<lparr>schema_of := s, type_id_index := (type_id_index c)(n \<mapsto> length (types s) - 1)\<rparr>))"

definition declare_entity :: "string \<Rightarrow> parser_context \<Rightarrow> parser_context res" where
  "declare_entity n c =
     rbind (add_entity_to_schema n (schema_of c)) (\<lambda>s.
       Inr (c\<lparr>schema_of := s, entity_id_index := (entity_id_index c)(n \<mapsto> length (entities s) - 1)\<rparr>))"

lemma token_next_progress:
  assumes "token_has_next content e" "token_next content e = (i, j)"
  shows "e \<le> i" "i < j" "j \<le> length content"
proof -
  let ?s = "drop e content"
  let ?u = "dropWhile is_sep ?s"
  have i: "i = e + length (takeWhile is_sep ?s)" and j: "j = i + length (takeWhile (\<lambda>c. \<not> is_sep c) (drop i content))"
    using assms(2) by (auto simp: token_next_def Let_def)
  have d: "drop i content = ?u" by (simp add: i dropWhile_eq_drop add.commute)
  have u: "?u \<noteq> []" using assms(1) by (auto simp: token_has_next_def list_ex_iff dropWhile_eq_Nil_conv)
  then have "\<not> is_sep (hd ?u)" by (rule hd_dropWhile)
  with u have "takeWhile (\<lambda>c. \<not> is_sep c) ?u \<noteq> []" by (cases ?u) auto
  then show "i < j" by (simp add: j d)
  show "e \<le> i" by (simp add: i)
  have "i < length content" using u unfolding d[symmetric] by simp
  then show "j \<le> length content" using length_takeWhile_le[of "\<lambda>c. \<not> is_sep c" "drop i content"] by (simp add: j)
qed

lemma token_next_mono: "token_next content e = (i, j) \<Longrightarrow> e \<le> j"
  by (auto simp: token_next_def Let_def)

text \<open>\<open>preprocess\<close>: the word after each \<open>TYPE\<close> or \<open>ENTITY\<close> is declared, wherever these words stand.\<close>

function preprocess_from :: "string \<Rightarrow> nat \<Rightarrow> parser_context \<Rightarrow> parser_context res" where
  "preprocess_from content e c =
     (if \<not> token_has_next content e then Inr c
      else
        let t = token_next content e
        in if \<not> token_valid content t then Inl Assert_failed
           else if token_text content t = ''TYPE'' then
             (let t1 = token_next content (snd t)
              in if \<not> token_valid content t1 then Inl (Exit_called 1)
                 else rbind (declare_type (token_text content t1) c) (preprocess_from content (snd t1)))
           else if token_text content t = ''ENTITY'' then
             (let t1 = token_next content (snd t)
              in if \<not> token_valid content t1 then Inl (Exit_called 1)
                 else rbind (declare_entity (token_text content t1) c) (preprocess_from content (snd t1)))
           else preprocess_from content (snd t) c)"
  by pat_completeness auto
termination
proof (relation "measure (\<lambda>(content, e, _). length content - e)", goal_cases)
  case (2 content e c t t1 c1)
  then show ?case
    using token_next_progress[of content e "fst t" "snd t"] token_next_mono[of content "snd t" "fst t1" "snd t1"] by auto
next
  case (3 content e c t t1 c1)
  then show ?case
    using token_next_progress[of content e "fst t" "snd t"] token_next_mono[of content "snd t" "fst t1" "snd t1"] by auto
next
  case (4 content e c t)
  then show ?case using token_next_progress[of content e "fst t" "snd t"] by auto
qed simp

declare preprocess_from.simps [simp del]

definition preprocess :: "string \<Rightarrow> parser_context \<Rightarrow> parser_context res" where
  "preprocess content = preprocess_from content 0"

section \<open>What the first pass finds\<close>

text \<open>The words of a text, and the names that follow a keyword.\<close>

function words :: "string \<Rightarrow> string list" where
  "words s =
     (let t = dropWhile is_sep s
      in if t = [] then [] else takeWhile (\<lambda>c. \<not> is_sep c) t # words (dropWhile (\<lambda>c. \<not> is_sep c) t))"
  by pat_completeness auto
termination
proof (relation "measure length", goal_cases)
  case (2 s t)
  have "length (dropWhile (\<lambda>c. \<not> is_sep c) t) < length t"
  proof (cases t)
    case (Cons x xs)
    have "\<not> is_sep (hd t)" unfolding 2(1) by (rule hd_dropWhile) (use 2 in auto)
    then have "\<not> is_sep x" using Cons by simp
    then show ?thesis using Cons length_dropWhile_le[of "\<lambda>c. \<not> is_sep c" xs] by simp
  qed (use 2 in simp)
  then show ?case using length_dropWhile_le[of is_sep s] 2(1) by simp
qed simp

declare words.simps [simp del]

fun declared :: "string \<Rightarrow> string \<Rightarrow> string list \<Rightarrow> string list" where
  "declared kw other (w # n # ws) =
     (if w = kw then n # declared kw other ws
      else if w = other then declared kw other ws
      else declared kw other (n # ws))"
| "declared kw other ws = []"

fun declare_words :: "string list \<Rightarrow> parser_context \<Rightarrow> parser_context res" where
  "declare_words (w # n # ws) c =
     (if w = ''TYPE'' then rbind (declare_type n c) (declare_words ws)
      else if w = ''ENTITY'' then rbind (declare_entity n c) (declare_words ws)
      else declare_words (n # ws) c)"
| "declare_words [w] c = (if w = ''TYPE'' \<or> w = ''ENTITY'' then Inl (Exit_called 1) else Inr c)"
| "declare_words [] c = Inr c"

lemma no_token: "\<not> token_has_next content e \<Longrightarrow> words (drop e content) = []"
  by (subst words.simps) (auto simp: token_has_next_def list_ex_iff dropWhile_eq_Nil_conv Let_def)

lemma first_token:
  assumes "token_has_next content e" "token_next content e = t"
  shows "words (drop e content) = token_text content t # words (drop (snd t) content)" "token_valid content t"
proof -
  let ?s = "drop e content"
  let ?u = "dropWhile is_sep ?s"
  obtain i j where t: "t = (i, j)" by fastforce
  have i: "i = e + length (takeWhile is_sep ?s)" and j: "j = i + length (takeWhile (\<lambda>c. \<not> is_sep c) (drop i content))"
    using assms(2) t by (auto simp: token_next_def Let_def)
  have d: "drop i content = ?u" by (simp add: i dropWhile_eq_drop add.commute)
  have u: "?u \<noteq> []" using assms(1) by (auto simp: token_has_next_def list_ex_iff dropWhile_eq_Nil_conv)
  have "take (j - i) ?u = takeWhile (\<lambda>c. \<not> is_sep c) ?u" by (simp add: j d takeWhile_eq_take[symmetric])
  then have tx: "token_text content t = takeWhile (\<lambda>c. \<not> is_sep c) ?u" by (simp add: token_text_def t d)
  have "drop j content = drop (j - i) (drop i content)" using token_next_progress(2)[OF assms(1)] assms(2) t by simp
  then have "drop j content = dropWhile (\<lambda>c. \<not> is_sep c) ?u" by (simp add: j d dropWhile_eq_drop[symmetric])
  then show "words (drop e content) = token_text content t # words (drop (snd t) content)"
    using u tx by (subst words.simps) (simp add: Let_def t)
  show "token_valid content t"
    using token_next_progress(2,3)[OF assms(1), of i j] assms(2) by (simp add: token_valid_def t)
qed

lemma last_token: "\<not> token_has_next content e \<Longrightarrow> token_next content e = t \<Longrightarrow> \<not> token_valid content t"
proof -
  assume n: "\<not> token_has_next content e" and t: "token_next content e = t"
  have tw: "takeWhile is_sep (drop e content) = drop e content"
    using n by (auto simp: token_has_next_def list_ex_iff takeWhile_eq_all_conv)
  have "length content \<le> fst t" using t by (auto simp: token_next_def Let_def tw)
  then show ?thesis by (simp add: token_valid_def)
qed

lemma declared_word:
  assumes kw: "(token_text content t, f) \<in> {(''TYPE'', declare_type), (''ENTITY'', declare_entity)}"
    and n: "token_has_next content e" and t: "t = token_next content e" and t1: "t1 = token_next content (snd t)"
    and IH: "\<And>c'. token_has_next content (snd t) \<Longrightarrow> f (token_text content t1) c = Inr c' \<Longrightarrow>
      preprocess_from content (snd t1) c' = declare_words (words (drop (snd t1) content)) c'"
  shows "preprocess_from content e c = declare_words (words (drop e content)) c"
proof (cases "token_has_next content (snd t)")
  case False
  then show ?thesis
    using n first_token[OF n t[symmetric]] kw no_token[OF False] last_token[OF False t1[symmetric]]
    by (subst preprocess_from.simps) (auto simp: t[symmetric] t1[symmetric] Let_def)
next
  case m: True
  show ?thesis
    using n first_token[OF n t[symmetric]] kw first_token[OF m t1[symmetric]] IH[OF m]
    by (subst preprocess_from.simps) (auto simp: t[symmetric] t1[symmetric] Let_def cong: rbind_cong)
qed

lemma preprocess_words: "preprocess_from content e c = declare_words (words (drop e content)) c"
proof (induction content e c rule: preprocess_from.induct)
  case (1 content e c)
  show ?case
  proof (cases "token_has_next content e")
    case False
    then show ?thesis by (subst preprocess_from.simps) (simp add: no_token)
  next
    case True
    define t where "t = token_next content e"
    define t1 where "t1 = token_next content (snd t)"
    note T = first_token[OF True t_def[symmetric]]
    consider "token_text content t = ''TYPE''" | "token_text content t = ''ENTITY''"
      | "token_text content t \<noteq> ''TYPE''" "token_text content t \<noteq> ''ENTITY''" by blast
    then show ?thesis
    proof cases
      case 3
      have "preprocess_from content e c = preprocess_from content (snd t) c"
        using True T(2) 3 by (subst preprocess_from.simps) (simp add: t_def[symmetric] Let_def)
      also have "\<dots> = declare_words (words (drop (snd t) content)) c"
        using "1.IH"(3)[OF _ t_def] True T(2) 3 by simp
      also have "\<dots> = declare_words (words (drop e content)) c"
        using 3 T(1) by (cases "words (drop (snd t) content)") simp_all
      finally show ?thesis .
    next
      case kw: 1
      show ?thesis
        by (rule declared_word[OF _ True t_def t1_def, where f = declare_type])
          (use "1.IH"(1)[OF _ t_def _ _ t1_def] True T(2) kw first_token[OF _ t1_def[symmetric]] in simp_all)
    next
      case kw: 2
      show ?thesis
        by (rule declared_word[OF _ True t_def t1_def, where f = declare_entity])
          (use "1.IH"(2)[OF _ t_def _ _ _ t1_def] True T(2) kw first_token[OF _ t1_def[symmetric]] in simp_all)
    qed
  qed
qed

text \<open>The last position of a name in a list.\<close>

definition last_pos :: "string list \<Rightarrow> string \<Rightarrow> nat option" where
  "last_pos ns = map_of (rev (zip ns [0..<length ns]))"

lemma last_pos_snoc: "last_pos (ns @ [n]) = (last_pos ns)(n \<mapsto> length ns)"
  by (simp add: last_pos_def)

lemma last_pos_Some: "last_pos ns n = Some i \<Longrightarrow> i < length ns \<and> ns ! i = n"
  by (auto simp: last_pos_def dest!: map_of_SomeD simp: set_zip)

definition holds_decls :: "string list \<Rightarrow> string list \<Rightarrow> parser_context \<Rightarrow> bool" where
  "holds_decls ts es c \<longleftrightarrow>
     types (schema_of c) = [0..<length ts] \<and>
     type_store (schema_of c) = map (\<lambda>n. new_type\<lparr>ty_name := Some n, ty_schema := True\<rparr>) ts \<and>
     entities (schema_of c) = map new_entity es \<and>
     type_id_index c = last_pos ts \<and> entity_id_index c = last_pos es"

lemma declare_type_holds:
  "holds_decls ts es c \<Longrightarrow> declare_type n c = Inr c' \<Longrightarrow> holds_decls (ts @ [n]) es c'"
  by (auto simp: holds_decls_def declare_type_def add_type_to_schema_def rbind_eq_Inr Let_def last_pos_snoc split: if_splits)

lemma declare_entity_holds:
  "holds_decls ts es c \<Longrightarrow> declare_entity n c = Inr c' \<Longrightarrow> holds_decls ts (es @ [n]) c'"
  by (auto simp: holds_decls_def declare_entity_def add_entity_to_schema_def rbind_eq_Inr Let_def last_pos_snoc split: if_splits)

lemma declare_words_holds:
  "declare_words ws c = Inr c' \<Longrightarrow> holds_decls ts es c \<Longrightarrow>
   holds_decls (ts @ declared ''TYPE'' ''ENTITY'' ws) (es @ declared ''ENTITY'' ''TYPE'' ws) c'"
proof (induction ws c arbitrary: ts es rule: declare_words.induct)
  case (1 w n ws c)
  consider "w = ''TYPE''" | "w = ''ENTITY''" | "w \<noteq> ''TYPE''" "w \<noteq> ''ENTITY''" by blast
  then show ?case
  proof cases
    case w: 1
    then obtain c1 where c1: "declare_type n c = Inr c1" "declare_words ws c1 = Inr c'"
      using "1.prems"(1) by (auto simp: rbind_eq_Inr)
    show ?thesis using "1.IH"(1)[OF w c1(1) c1(2) declare_type_holds[OF "1.prems"(2) c1(1)]] w by simp
  next
    case w: 2
    then obtain c1 where c1: "declare_entity n c = Inr c1" "declare_words ws c1 = Inr c'"
      using "1.prems"(1) by (auto simp: rbind_eq_Inr)
    show ?thesis
      using "1.IH"(2)[OF _ w c1(1) c1(2) declare_entity_holds[OF "1.prems"(2) c1(1)]] w by simp
  next
    case w: 3
    then show ?thesis using "1.IH"(3)[OF w _ "1.prems"(2)] "1.prems"(1) by simp
  qed
qed (auto split: if_splits)


lemma preprocess_holds:
  assumes "preprocess content new_context = Inr c"
  shows "holds_decls (declared ''TYPE'' ''ENTITY'' (words content)) (declared ''ENTITY'' ''TYPE'' (words content)) c"
proof -
  have "declare_words (words content) new_context = Inr c"
    using assms by (simp add: preprocess_def preprocess_words)
  moreover have "holds_decls [] [] new_context"
    by (simp add: holds_decls_def new_context_def new_schema_def last_pos_def)
  ultimately show ?thesis using declare_words_holds by fastforce
qed

text \<open>C37. When \<open>preprocess\<close> succeeds, the types of the schema are exactly the words that follow a word
  \<open>TYPE\<close>, in the order of the text and with repetitions, the entities those that follow \<open>ENTITY\<close>, and each
  index map leads a name to its last declaration.\<close>

theorem preprocess_declares:
  assumes "preprocess content new_context = Inr c"
  shows "map (\<lambda>a. ty_name (type_store (schema_of c) ! a)) (types (schema_of c)) =
           map Some (declared ''TYPE'' ''ENTITY'' (words content)) \<and>
         map en_name (entities (schema_of c)) = declared ''ENTITY'' ''TYPE'' (words content) \<and>
         type_id_index c = last_pos (declared ''TYPE'' ''ENTITY'' (words content)) \<and>
         entity_id_index c = last_pos (declared ''ENTITY'' ''TYPE'' (words content))"
proof -
  have h: "holds_decls (declared ''TYPE'' ''ENTITY'' (words content)) (declared ''ENTITY'' ''TYPE'' (words content)) c"
    by (rule preprocess_holds[OF assms])
  have "map (\<lambda>a. ty_name (map (\<lambda>n. new_type\<lparr>ty_name := Some n, ty_schema := True\<rparr>) ts ! a)) [0..<length ts] = map Some ts"
    for ts :: "string list" by (rule nth_equalityI) auto
  then show ?thesis using h by (auto simp: holds_decls_def o_def new_entity_def)
qed

definition sample_schema :: string where
  "sample_schema = ''TYPE a = REAL; ENTITY b; c : a; ENTITY d TYPE a''"

theorem preprocess_declares_witness:
  "\<exists>c. preprocess sample_schema new_context = Inr c \<and>
       map en_name (entities (schema_of c)) = [''b'', ''d''] \<and> type_id_index c ''a'' = Some 1"
proof -
  have w: "words sample_schema = [''TYPE'', ''a'', ''='', ''REAL'', ''ENTITY'', ''b'', ''c'', '':'', ''a'', ''ENTITY'', ''d'', ''TYPE'', ''a'']"
    by (simp add: sample_schema_def words.simps is_sep_def Let_def)
  have "\<exists>c. preprocess sample_schema new_context = Inr c"
    by (simp add: preprocess_def preprocess_words w declare_type_def declare_entity_def add_type_to_schema_def
          add_entity_to_schema_def new_context_def new_schema_def max_nums Let_def)
  then obtain c where c: "preprocess sample_schema new_context = Inr c" ..
  from preprocess_declares[OF c] c show ?thesis by (auto simp: w last_pos_def)
qed


section \<open>Parsing\<close>

text \<open>The reductions of the grammar that reach the parser object.\<close>

datatype parser_call = Call_type string type_args | Call_entity string entity_args

fun do_call :: "parser_call \<Rightarrow> parser_context \<Rightarrow> parser_context res" where
  "do_call (Call_type n args) c = init_type n args c"
| "do_call (Call_entity n args) c = init_entity n args c"

text \<open>\<open>express_parse\<close> is the generated parser; its result code is only logged.\<close>

definition parse :: "(string \<Rightarrow> parser_call list) \<Rightarrow> string \<Rightarrow> parser_context res" where
  "parse express_parse content = rbind (preprocess content new_context) (rfold do_call (express_parse content))"

section \<open>Well-typed schemas\<close>

text \<open>Every address in a schema leads to a type or an entity, the types of the schema are named and belong to it,
  and a derived type has a base.\<close>

definition desc_ok :: "exp_schema \<Rightarrow> exp_desc \<Rightarrow> bool" where
  "desc_ok s d \<longleftrightarrow> (case d of TypeDesc a \<Rightarrow> a \<in> set (types s) | EntityDesc i \<Rightarrow> i < length (entities s))"

definition type_ok :: "exp_schema \<Rightarrow> exp_type \<Rightarrow> bool" where
  "type_ok s t \<longleftrightarrow>
     (\<forall>d \<in> set_option (ref_type t) \<union> set (select_list t). desc_ok s d) \<and> (ty_kind t = T_DERIVED \<longrightarrow> ref_type t \<noteq> None)"

definition entity_ok :: "exp_schema \<Rightarrow> exp_entity \<Rightarrow> bool" where
  "entity_ok s e \<longleftrightarrow>
     (\<forall>x \<in> set (attrs e). attr_type x < length (type_store s)) \<and>
     (\<forall>i \<in> set_option (supertype e) \<union> {i. Some i \<in> set (subtypes e)}. i < length (entities s)) \<and>
     length (attrs e) \<le> MAX_ATTR_NUM \<and> length (subtypes e) \<le> MAX_SUBTYPE_NUM"

definition schema_ok :: "exp_schema \<Rightarrow> bool" where
  "schema_ok s \<longleftrightarrow>
     (\<forall>a \<in> set (types s). a < length (type_store s) \<and> ty_schema (type_store s ! a) \<and> ty_name (type_store s ! a) \<noteq> None) \<and>
     (\<forall>t \<in> set (type_store s). type_ok s t) \<and> (\<forall>e \<in> set (entities s). entity_ok s e) \<and>
     length (types s) \<le> MAX_TYPE_NUM \<and> length (entities s) \<le> MAX_ENTITY_NUM"

lemma schema_ok_type: "schema_ok s \<Longrightarrow> a < length (type_store s) \<Longrightarrow> type_ok s (type_store s ! a)"
  by (simp add: schema_ok_def)

text \<open>An extension of a schema keeps what is well typed in it.\<close>

definition grows :: "exp_schema \<Rightarrow> exp_schema \<Rightarrow> bool" where
  "grows s s' \<longleftrightarrow> set (types s) \<subseteq> set (types s') \<and> length (type_store s) \<le> length (type_store s') \<and>
     length (entities s) \<le> length (entities s')"

lemma grows_refl [simp]: "grows s s"
  by (simp add: grows_def)

lemma desc_ok_grows: "grows s s' \<Longrightarrow> desc_ok s d \<Longrightarrow> desc_ok s' d"
  by (cases d) (auto simp: desc_ok_def grows_def)

lemma type_ok_grows: "grows s s' \<Longrightarrow> type_ok s t \<Longrightarrow> type_ok s' t"
  unfolding type_ok_def using desc_ok_grows by blast

lemma entity_ok_grows: "grows s s' \<Longrightarrow> entity_ok s e \<Longrightarrow> entity_ok s' e"
  unfolding entity_ok_def grows_def by (meson order.strict_trans2)

lemma find_type_ok: "find_type_by_name n s = Some a \<Longrightarrow> a \<in> set (types s)"
  by (auto simp: find_type_by_name_def find_Some_iff)

lemma find_entity_ok: "find_entity_by_name n s = Some i \<Longrightarrow> i < length (entities s)"
  by (auto simp: find_entity_by_name_def dest: index_of_SomeD)

lemma find_desc_ok: "find_desc n s = Some d \<Longrightarrow> desc_ok s d"
  by (auto simp: find_desc_def desc_ok_def split: option.splits exp_desc.splits dest: find_type_ok find_entity_ok)

text \<open>Writing a well-typed type that keeps its name and its schema.\<close>

lemma upd_type_ok:
  assumes ok: "schema_ok s" and t: "type_ok s t" "ty_schema t = ty_schema (type_store s ! a)"
    "ty_name t = ty_name (type_store s ! a)"
  shows "schema_ok (upd_type a t s)" "grows s (upd_type a t s)" "entities (upd_type a t s) = entities s"
proof -
  show g: "grows s (upd_type a t s)" "entities (upd_type a t s) = entities s" by (simp_all add: grows_def upd_type_def)
  have "\<forall>u \<in> set (type_store (upd_type a t s)). type_ok (upd_type a t s) u"
    using ok t(1) type_ok_grows[OF g(1)] set_update_subset_insert[of "type_store s" a t]
    by (auto simp: schema_ok_def upd_type_def)
  moreover have "\<forall>e \<in> set (entities s). entity_ok (upd_type a t s) e"
    using ok entity_ok_grows[OF g(1)] by (simp add: schema_ok_def)
  moreover have "ty_schema (type_store (upd_type a t s) ! b) = ty_schema (type_store s ! b)"
    "ty_name (type_store (upd_type a t s) ! b) = ty_name (type_store s ! b)" for b
    using t(2,3) by (cases "a = b"; cases "a < length (type_store s)"; simp add: upd_type_def nth_list_update list_update_beyond)+
  ultimately show "schema_ok (upd_type a t s)" using ok by (simp add: schema_ok_def upd_type_def)
qed

lemma alloc_type_ok:
  assumes ok: "schema_ok s" and t: "type_ok s t" and a: "alloc_type t s = (a, s')"
  shows "schema_ok s'" "grows s s'" "a < length (type_store s')" "entities s' = entities s" "type_store s' ! a = t"
proof -
  have s': "s' = s\<lparr>type_store := type_store s @ [t]\<rparr>" and [simp]: "a = length (type_store s)"
    using a by (auto simp: alloc_type_def)
  show g: "grows s s'" "a < length (type_store s')" "entities s' = entities s" "type_store s' ! a = t"
    by (simp_all add: grows_def s')
  have "\<forall>u \<in> set (type_store s'). type_ok s' u" using ok t type_ok_grows[OF g(1)] by (auto simp: schema_ok_def s')
  moreover have "\<forall>e \<in> set (entities s). entity_ok s' e" using ok entity_ok_grows[OF g(1)] by (simp add: schema_ok_def)
  ultimately show "schema_ok s'" using ok by (auto simp: schema_ok_def s' nth_append)
qed

lemma assign_type_args_ok:
  assumes ok: "schema_ok s" and a: "a < length (type_store s)" and r: "assign_type_args a args s = Inr s'"
  shows "schema_ok s'" "grows s s'" "entities s' = entities s"
proof -
  obtain t where s': "s' = upd_type a t s"
    and n: "ty_schema t = ty_schema (type_store s ! a)" "ty_name t = ty_name (type_store s ! a)" and t: "type_ok s t"
  proof -
    let ?t = "(type_store s ! a)\<lparr>ty_kind := ta_type args, fixed_length := ta_fixed_length args, is_list := ta_is_list args,
       lb := ta_lb args, ub := ta_ub args\<rparr>"
    have b: "\<forall>d \<in> set_option (ref_type ?t) \<union> set (select_list ?t). desc_ok s d"
      using schema_ok_type[OF ok a] by (simp add: type_ok_def)
    consider (d) m d where "ta_type args = T_DERIVED" "find_desc m s = Some d" "s' = upd_type a (?t\<lparr>ref_type := Some d\<rparr>) s"
      | (s) ds where "ta_type args = T_SELECT" "s' = upd_type a (?t\<lparr>select_list := ds\<rparr>) s"
          "rmap (\<lambda>n. case find_desc n s of None \<Rightarrow> Inl (Exit_called 1) | Some d \<Rightarrow> Inr d) (ta_select_list args) = Inr ds"
      | (e) "ta_type args = T_ENUM" "s' = upd_type a (?t\<lparr>enum_list := ta_enum_list args\<rparr>) s"
      | (o) "ta_type args \<noteq> T_DERIVED" "s' = upd_type a ?t s"
      using r by (auto simp: assign_type_args_def Let_def rbind_eq_Inr split: TypeEnum.splits option.splits if_splits)
    then show ?thesis
    proof cases
      case d
      then show ?thesis using b find_desc_ok[OF d(2)] that[OF d(3)] by (auto simp: type_ok_def)
    next
      case s
      have "\<forall>d \<in> set ds. desc_ok s d"
        using rmap_source[OF s(3)] by (force split: option.splits dest: find_desc_ok)
      then show ?thesis using b s(1) that[OF s(2)] by (auto simp: type_ok_def)
    next
      case e
      then show ?thesis using b that[OF e(2)] by (auto simp: type_ok_def)
    next
      case o
      then show ?thesis using b that[OF o(2)] by (auto simp: type_ok_def)
    qed
  qed
  show "schema_ok s'" "grows s s'" "entities s' = entities s" unfolding s' using upd_type_ok[OF ok t n] by simp_all
qed


lemma new_type_ok: "type_ok s new_type"
  by (simp add: type_ok_def new_type_def)

lemma assign_attr_ok:
  assumes ok: "schema_ok s" and r: "assign_attr arg s = Inr (x, s')"
  shows "schema_ok s'" "grows s s'" "entities s' = entities s" "attr_type x < length (type_store s')"
proof -
  define fl where "fl a s1 = upd_type a ((type_store s1 ! a)\<lparr>is_list := ta_is_list (aa_type arg)\<rparr>) s1" for a s1
  obtain a s1 where s1: "schema_ok s1" "grows s s1" "entities s1 = entities s" "a < length (type_store s1)"
    and x: "attr_type x = a" and s': "s' = fl a s1"
  proof (cases "ta_ref_type_name (aa_type arg)")
    case None
    then obtain a s0 s1 where 1: "alloc_type new_type s = (a, s0)" "assign_type_args a (aa_type arg) s0 = Inr s1"
      "attr_type x = a" "s' = fl a s1"
      using r by (auto simp: assign_attr_def Let_def rbind_eq_Inr fl_def split: prod.splits)
    note A = alloc_type_ok[OF ok new_type_ok 1(1)]
    note B = assign_type_args_ok[OF A(1,3) 1(2)]
    have "grows s s1" using A(2) B(2) by (auto simp: grows_def)
    moreover have "a < length (type_store s1)" using A(3) B(2) by (simp add: grows_def)
    ultimately show ?thesis using that[OF B(1) _ _ _ 1(3,4)] A(4) B(3) by simp
  next
    case n: (Some n)
    show ?thesis
    proof (cases "find_type_by_name n s")
      case None
      let ?t = "new_type\<lparr>ty_kind := T_REFERENCE, ref_type := map_option EntityDesc (find_entity_by_name n s)\<rparr>"
      obtain a s1 where 1: "alloc_type ?t s = (a, s1)" "attr_type x = a" "s' = fl a s1"
        using r n None by (auto simp: assign_attr_def Let_def rbind_eq_Inr fl_def split: prod.splits)
      have "type_ok s ?t"
        by (auto simp: type_ok_def new_type_def desc_ok_def dest: find_entity_ok)
      from alloc_type_ok[OF ok this 1(1)] show ?thesis using that[OF _ _ _ _ 1(2,3)] by simp
    next
      case (Some a)
      then have "attr_type x = a" "s' = fl a s" using r n by (auto simp: assign_attr_def Let_def fl_def)
      moreover have "a < length (type_store s)" using find_type_ok[OF Some] ok by (simp add: schema_ok_def)
      ultimately show ?thesis using that[OF ok] by simp
    qed
  qed
  have "type_ok s1 ((type_store s1 ! a)\<lparr>is_list := ta_is_list (aa_type arg)\<rparr>)"
    using schema_ok_type[OF s1(1,4)] by (simp add: type_ok_def)
  from upd_type_ok[OF s1(1) this] have U: "schema_ok s'" "grows s1 s'" "entities s' = entities s1"
    by (simp_all add: s' fl_def)
  then show "schema_ok s'" "grows s s'" "entities s' = entities s" "attr_type x < length (type_store s')"
    using s1 x by (auto simp: grows_def)
qed

lemma assign_attrs_ok:
  "assign_attrs args s = Inr (xs, s') \<Longrightarrow> schema_ok s \<Longrightarrow>
   schema_ok s' \<and> grows s s' \<and> entities s' = entities s \<and> length xs = length args \<and>
   (\<forall>x \<in> set xs. attr_type x < length (type_store s'))"
proof (induction args s arbitrary: xs s' rule: assign_attrs.induct)
  case (2 arg args s)
  then obtain x s1 ys where 1: "assign_attr arg s = Inr (x, s1)" "assign_attrs args s1 = Inr (ys, s')" "xs = x # ys"
    by (auto simp: rbind_eq_Inr)
  note A = assign_attr_ok[OF "2.prems"(2) 1(1)]
  note B = "2.IH"[OF 1(1) refl 1(2) A(1)]
  show ?case using A B 1(3) by (auto simp: grows_def)
qed auto

lemma assign_entity_args_ok:
  assumes ok: "schema_ok s" and i: "i < length (entities s)" and r: "assign_entity_args i args s = Inr s'"
  shows "schema_ok s'" "grows s s'" "map en_name (entities s') = map en_name (entities s)"
proof -
  define e1 where "e1 = (entities s ! i)\<lparr>is_abstract := ea_abstract args, assigned := True,
    subtypes := map (\<lambda>n. find_entity_by_name n s) (ea_subtype_names args)\<rparr>"
  obtain p xs s1 where p: "p = supertype e1 \<or> (\<exists>k. p = Some k \<and> k < length (entities s))"
    and xs: "assign_attrs (rev (ea_attrs args)) s = Inr (xs, s1)" and n: "length (ea_attrs args) \<le> MAX_ATTR_NUM"
      "length (ea_subtype_names args) \<le> MAX_SUBTYPE_NUM"
    and s': "s' = s1\<lparr>entities := (entities s1)[i := e1\<lparr>supertype := p, attrs := xs\<rparr>]\<rparr>"
  proof (cases "ea_supertype_name args")
    case None
    then show ?thesis using r that[of "supertype e1"]
      by (auto simp: assign_entity_args_def Let_def rbind_eq_Inr e1_def split: if_splits)
  next
    case (Some n)
    then obtain k where "find_entity_by_name n s = Some k"
      using r by (auto simp: assign_entity_args_def Let_def rbind_eq_Inr split: if_splits option.splits)
    then show ?thesis using r that[of "Some k"] Some find_entity_ok
      by (auto simp: assign_entity_args_def Let_def rbind_eq_Inr e1_def split: if_splits)
  qed
  have A: "schema_ok s1" "grows s s1" "entities s1 = entities s" "length xs = length (ea_attrs args)"
    "\<forall>x \<in> set xs. attr_type x < length (type_store s1)"
    using assign_attrs_ok[OF xs ok] by auto
  have g: "grows s1 s'" by (simp add: grows_def s')
  then show "grows s s'" using A(2) by (auto simp: grows_def)
  show "map en_name (entities s') = map en_name (entities s)"
    using i by (intro nth_equalityI) (auto simp: s' A(3) nth_list_update e1_def)
  have sup: "entity_ok s (entities s ! i)" using ok i by (simp add: schema_ok_def)
  have "\<forall>k. Some k \<in> set (subtypes e1) \<longrightarrow> k < length (entities s)"
    by (auto simp: e1_def dest: sym[THEN find_entity_ok])
  then have new: "entity_ok s' (e1\<lparr>supertype := p, attrs := xs\<rparr>)"
    using A(3-5) n p sup by (auto simp: entity_ok_def s' e1_def)
  have "\<forall>e \<in> set (entities s'). entity_ok s' e"
    using A(1) new entity_ok_grows[OF g] by (auto simp: schema_ok_def s' dest!: subsetD[OF set_update_subset_insert])
  moreover have "\<forall>t \<in> set (type_store s'). type_ok s' t" using A(1) type_ok_grows[OF g] by (simp add: schema_ok_def s')
  ultimately show "schema_ok s'" using A(1) by (simp add: schema_ok_def s')
qed


text \<open>\<open>context_ok c\<close>: the schema is well typed, and the index maps lead into it, for entities to the entity of that
  name.\<close>

definition context_ok :: "parser_context \<Rightarrow> bool" where
  "context_ok c \<longleftrightarrow>
     schema_ok (schema_of c) \<and> ran (type_id_index c) \<subseteq> {..<length (types (schema_of c))} \<and>
     (\<forall>n i. entity_id_index c n = Some i \<longrightarrow> i < length (entities (schema_of c)) \<and> en_name (entities (schema_of c) ! i) = n)"

lemma holds_decls_ok:
  assumes h: "holds_decls ts es c" and n: "length ts \<le> MAX_TYPE_NUM" "length es \<le> MAX_ENTITY_NUM"
  shows "context_ok c"
proof -
  have "schema_ok (schema_of c)"
    using h n by (auto simp: holds_decls_def schema_ok_def type_ok_def entity_ok_def new_type_def new_entity_def)
  then show ?thesis
    using h by (auto simp: context_ok_def holds_decls_def ran_def new_entity_def dest: last_pos_Some)
qed

lemma declare_words_bounds:
  "declare_words ws c = Inr c' \<Longrightarrow>
   length (types (schema_of c)) \<le> MAX_TYPE_NUM \<and> length (entities (schema_of c)) \<le> MAX_ENTITY_NUM \<Longrightarrow>
   length (types (schema_of c')) \<le> MAX_TYPE_NUM \<and> length (entities (schema_of c')) \<le> MAX_ENTITY_NUM"
proof (induction ws c rule: declare_words.induct)
  case (1 w n ws c)
  consider "w = ''TYPE''" | "w = ''ENTITY''" | "w \<noteq> ''TYPE''" "w \<noteq> ''ENTITY''" by blast
  then show ?case
  proof cases
    case w: 1
    then obtain c1 where c1: "declare_type n c = Inr c1" "declare_words ws c1 = Inr c'"
      using "1.prems"(1) by (auto simp: rbind_eq_Inr)
    then have "length (types (schema_of c1)) \<le> MAX_TYPE_NUM \<and> length (entities (schema_of c1)) \<le> MAX_ENTITY_NUM"
      using "1.prems"(2) by (auto simp: declare_type_def add_type_to_schema_def rbind_eq_Inr Let_def split: if_splits)
    then show ?thesis using "1.IH"(1)[OF w c1] by simp
  next
    case w: 2
    then obtain c1 where c1: "declare_entity n c = Inr c1" "declare_words ws c1 = Inr c'"
      using "1.prems"(1) by (auto simp: rbind_eq_Inr)
    then have "length (types (schema_of c1)) \<le> MAX_TYPE_NUM \<and> length (entities (schema_of c1)) \<le> MAX_ENTITY_NUM"
      using "1.prems"(2) by (auto simp: declare_entity_def add_entity_to_schema_def rbind_eq_Inr Let_def split: if_splits)
    then show ?thesis using "1.IH"(2)[OF _ w c1] w by simp
  next
    case w: 3
    then show ?thesis using "1.IH"(3)[OF w] "1.prems" by simp
  qed
qed (auto split: if_splits)

lemma preprocess_ok:
  assumes "preprocess content new_context = Inr c"
  shows "context_ok c"
proof -
  have d: "declare_words (words content) new_context = Inr c"
    using assms by (simp add: preprocess_def preprocess_words)
  note h = preprocess_holds[OF assms]
  have "length (types (schema_of c)) \<le> MAX_TYPE_NUM" "length (entities (schema_of c)) \<le> MAX_ENTITY_NUM"
    using declare_words_bounds[OF d] by (simp_all add: new_context_def new_schema_def)
  then show ?thesis using h by (auto intro!: holds_decls_ok[OF h] simp: holds_decls_def)
qed

lemma assign_type_args_types: "assign_type_args a args s = Inr s' \<Longrightarrow> types s' = types s"
  by (auto simp: assign_type_args_def upd_type_def Let_def rbind_eq_Inr split: TypeEnum.splits option.splits if_splits)

lemma assign_attrs_types: "assign_attrs args s = Inr (xs, s') \<Longrightarrow> types s' = types s"
proof (induction args s arbitrary: xs rule: assign_attrs.induct)
  case (2 arg args s)
  then obtain x s1 ys where 1: "assign_attr arg s = Inr (x, s1)" "assign_attrs args s1 = Inr (ys, s')"
    by (auto simp: rbind_eq_Inr)
  have "types s1 = types s"
    using 1(1) by (auto simp: assign_attr_def Let_def rbind_eq_Inr upd_type_def alloc_type_def
        dest!: assign_type_args_types split: option.splits prod.splits)
  with "2.IH"[OF 1(1) refl 1(2)] show ?case by simp
qed simp

lemma assign_entity_args_types: "assign_entity_args i args s = Inr s' \<Longrightarrow> types s' = types s"
  by (auto simp: assign_entity_args_def Let_def rbind_eq_Inr dest!: assign_attrs_types split: if_splits option.splits)

lemma index_at_keeps: "index_at n m = (i, m') \<Longrightarrow> m' = m(n \<mapsto> i)"
  by (auto simp: index_at_def split: option.splits)

lemma do_call_ok:
  assumes ok: "context_ok c" and r: "do_call x c = Inr c'"
  shows "context_ok c'" "types (schema_of c') = types (schema_of c)"
    "map en_name (entities (schema_of c')) = map en_name (entities (schema_of c))"
proof (atomize (full), cases x)
  case (Call_type n args)
  obtain i m s' where i: "index_at n (type_id_index c) = (i, m)" "i < length (types (schema_of c))"
    and s': "assign_type_args (types (schema_of c) ! i) args (schema_of c) = Inr s'"
    and c': "c' = c\<lparr>type_id_index := m, schema_of := s'\<rparr>"
    using r Call_type by (auto simp: init_type_def rbind_eq_Inr Let_def split: prod.splits if_splits)
  have "types (schema_of c) ! i < length (type_store (schema_of c))"
    using ok i(2) by (simp add: context_ok_def schema_ok_def)
  note A = assign_type_args_ok[OF _ this s'] and T = assign_type_args_types[OF s']
  have "ran m \<subseteq> insert i (ran (type_id_index c))"
    unfolding index_at_keeps[OF i(1)] by (auto simp: ran_def split: if_splits)
  then show "context_ok c' \<and> types (schema_of c') = types (schema_of c) \<and>
      map en_name (entities (schema_of c')) = map en_name (entities (schema_of c))"
    using ok i(2) A T by (auto simp: context_ok_def c')
next
  case (Call_entity n args)
  obtain i m s' where i: "index_at n (entity_id_index c) = (i, m)" "i < length (entities (schema_of c))"
      "en_name (entities (schema_of c) ! i) = n"
    and s': "assign_entity_args i args (schema_of c) = Inr s'" and c': "c' = c\<lparr>entity_id_index := m, schema_of := s'\<rparr>"
    using r Call_entity by (auto simp: init_entity_def rbind_eq_Inr Let_def split: prod.splits if_splits)
  note A = assign_entity_args_ok[OF _ i(2) s'] and T = assign_entity_args_types[OF s']
  have ok': "schema_ok (schema_of c)" using ok by (simp add: context_ok_def)
  have n: "map en_name (entities s') = map en_name (entities (schema_of c))" by (rule A(3)[OF ok'])
  then have l: "length (entities s') = length (entities (schema_of c))" by (metis length_map)
  have e: "en_name (entities s' ! k) = en_name (entities (schema_of c) ! k)" if "k < length (entities (schema_of c))" for k
    using n that l by (metis nth_map)
  show "context_ok c' \<and> types (schema_of c') = types (schema_of c) \<and>
      map en_name (entities (schema_of c')) = map en_name (entities (schema_of c))"
    using ok i A(1)[OF ok'] T n l e index_at_keeps[OF i(1)] by (auto simp: context_ok_def c')
qed

lemma do_calls_ok:
  "rfold do_call xs c = Inr c' \<Longrightarrow> context_ok c \<Longrightarrow>
   context_ok c' \<and> types (schema_of c') = types (schema_of c) \<and>
   map en_name (entities (schema_of c')) = map en_name (entities (schema_of c))"
proof (induction xs arbitrary: c)
  case (Cons x xs)
  then obtain c1 where 1: "do_call x c = Inr c1" "rfold do_call xs c1 = Inr c'" by (auto simp: rbind_eq_Inr)
  note A = do_call_ok[OF Cons.prems(2) 1(1)]
  show ?case using Cons.IH[OF 1(2) A(1)] A(2,3) by simp
qed simp

text \<open>C15. Whatever the grammar calls, a schema that \<open>parse\<close> returns is well typed: the base of a derived type, the
  choices of a select type, the super- and subtypes and the types of attributes all lead to types and entities of the
  schema, and derived types have a base. The index maps lead into the arrays, and the maps of entities to the entity of
  that name; the types and entities are those \<open>preprocess\<close> declared.\<close>

theorem parse_well_typed:
  assumes "parse express_parse content = Inr c"
  shows "context_ok c \<and> (\<exists>c0. preprocess content new_context = Inr c0 \<and> types (schema_of c) = types (schema_of c0) \<and>
    map en_name (entities (schema_of c)) = map en_name (entities (schema_of c0)))"
proof -
  from assms obtain c0 where "preprocess content new_context = Inr c0" "rfold do_call (express_parse content) c0 = Inr c"
    by (auto simp: parse_def rbind_eq_Inr)
  then show ?thesis using do_calls_ok preprocess_ok by metis
qed


definition sample_calls :: "parser_call list" where
  "sample_calls =
     [Call_type ''a'' (new_type_name_args T_REAL),
      Call_entity ''b'' \<lparr>ea_abstract = False,
        ea_attrs = [\<lparr>aa_name = ''c'', aa_type = (new_type_name_args T_DERIVED)\<lparr>ta_ref_type_name := Some ''a'', ta_is_list := True\<rparr>,
                     aa_optional = False\<rparr>],
        ea_subtype_names = [''d''], ea_supertype_name = None\<rparr>]"

lemma sample_words:
  "words sample_schema = [''TYPE'', ''a'', ''='', ''REAL'', ''ENTITY'', ''b'', ''c'', '':'', ''a'', ''ENTITY'', ''d'', ''TYPE'', ''a'']"
  by (simp add: sample_schema_def words.simps is_sep_def Let_def)

lemma sample_parse:
  "parse (\<lambda>_. sample_calls) sample_schema =
     Inr \<lparr>type_id_index = [''a'' \<mapsto> 0, ''a'' \<mapsto> 1], entity_id_index = [''b'' \<mapsto> 0, ''d'' \<mapsto> 1],
          schema_of = \<lparr>
            type_store = [new_type\<lparr>ty_name := Some ''a'', ty_schema := True, is_list := True\<rparr>,
                          new_type\<lparr>ty_name := Some ''a'', ty_schema := True, ty_kind := T_REAL\<rparr>],
            types = [0, 1],
            entities = [(new_entity ''b'')\<lparr>assigned := True,
                          attrs := [\<lparr>attr_name = ''c'', attr_type = 0, is_optional = False\<rparr>], subtypes := [Some 1]\<rparr>,
                        new_entity ''d'']\<rparr>\<rparr>"
  by (simp add: parse_def preprocess_def preprocess_words sample_words declare_type_def declare_entity_def add_type_to_schema_def
      add_entity_to_schema_def new_context_def new_schema_def max_nums sample_calls_def init_type_def index_at_def
      assign_type_args_def new_type_name_args_def upd_type_def new_type_def init_entity_def new_entity_def
      assign_entity_args_def assign_attr_def find_type_by_name_def find_entity_by_name_def Let_def)

theorem parse_well_typed_witness:
  "\<exists>c. parse (\<lambda>_. sample_calls) sample_schema = Inr c \<and> context_ok c \<and> types (schema_of c) = [0, 1] \<and>
       map en_name (entities (schema_of c)) = [''b'', ''d'']"
  using parse_well_typed[OF sample_parse] by (simp add: sample_parse new_entity_def)

section \<open>The types attributes share\<close>

lemma find_type_name: "find_type_by_name n s = Some a \<Longrightarrow> ty_name (type_store s ! a) = Some n \<and> a \<in> set (types s)"
  by (auto simp: find_type_by_name_def find_Some_iff)

lemma find_cong': "(\<And>x. x \<in> set xs \<Longrightarrow> P x = Q x) \<Longrightarrow> find P xs = find Q xs"
  by (induction xs) auto

lemma assign_attr_store:
  assumes ok: "schema_ok s" and r: "assign_attr arg s = Inr (x, s')"
  shows "(\<forall>n. find_type_by_name n s' = find_type_by_name n s) \<and>
    (\<forall>n a. find_type_by_name n s = Some a \<longrightarrow>
       type_store s' ! a =
         (if ta_ref_type_name (aa_type arg) = Some n then (type_store s ! a)\<lparr>is_list := ta_is_list (aa_type arg)\<rparr>
          else type_store s ! a))"
proof -
  let ?k = "length (type_store s)"
  have old: "a < ?k" if "a \<in> set (types s)" for a using ok that by (simp add: schema_ok_def)
  define b where "b = (case ta_ref_type_name (aa_type arg) of None \<Rightarrow> ?k
    | Some n \<Rightarrow> (case find_type_by_name n s of Some a \<Rightarrow> a | None \<Rightarrow> ?k))"
  have T: "types s' = types s"
    using assign_attrs_types[of "[arg]" s "[x]" s'] r by simp
  have S: "type_store s' ! a = (if a = b then (type_store s ! a)\<lparr>is_list := ta_is_list (aa_type arg)\<rparr> else type_store s ! a)"
    if "a < ?k" for a
    using r that unfolding b_def
    by (auto simp: assign_attr_def alloc_type_def assign_type_args_def upd_type_def Let_def rbind_eq_Inr nth_append
        nth_list_update list_update_append1 split: option.splits TypeEnum.splits if_splits)
  have "ty_name (type_store s' ! a) = ty_name (type_store s ! a)" if "a \<in> set (types s)" for a
    using S[OF old[OF that]] by simp
  then have F: "find_type_by_name n s' = find_type_by_name n s" for n
    unfolding find_type_by_name_def T by (intro find_cong') simp
  have "a = b \<longleftrightarrow> ta_ref_type_name (aa_type arg) = Some n" if f: "find_type_by_name n s = Some a" for n a
  proof -
    have "a < ?k" using find_type_name[OF f] old by blast
    then show ?thesis using f find_type_name[OF f] by (auto simp: b_def split: option.splits dest: find_type_name)
  qed
  then show ?thesis using F S old find_type_name by auto
qed

text \<open>An attribute of a declared type has no type of its own: its list flag is written into the type of the
  schema. After an entity's attributes are assigned, a declared type is a list exactly when the last attribute that
  names it is, whatever its own declaration and the other attributes say, and nothing else of it has changed.\<close>

theorem attributes_share_list_flag:
  assumes "schema_ok s" "assign_attrs args s = Inr (xs, s')" "find_type_by_name n s = Some a"
  shows "type_store s' ! a = (type_store s ! a)
    \<lparr>is_list := last (is_list (type_store s ! a) #
       map (\<lambda>arg. ta_is_list (aa_type arg)) (filter (\<lambda>arg. ta_ref_type_name (aa_type arg) = Some n) args))\<rparr>"
  using assms
proof (induction args s arbitrary: xs rule: assign_attrs.induct)
  case (2 arg args s)
  then obtain x s1 ys where 1: "assign_attr arg s = Inr (x, s1)" "assign_attrs args s1 = Inr (ys, s')"
    by (auto simp: rbind_eq_Inr)
  note A = assign_attr_store[OF "2.prems"(1) 1(1)]
  have "find_type_by_name n s1 = Some a" using A "2.prems"(3) by simp
  from "2.IH"[OF 1(1) refl assign_attr_ok(1)[OF "2.prems"(1) 1(1)] 1(2) this] A "2.prems"(3) show ?case by auto
qed simp

theorem attributes_share_list_flag_witness:
  "\<exists>s s' xs. schema_ok s \<and> assign_attrs (rev (case sample_calls ! 1 of Call_entity _ args \<Rightarrow> ea_attrs args)) s = Inr (xs, s') \<and>
     \<not> is_list (type_store s ! 0) \<and> is_list (type_store s' ! 0)"
proof -
  let ?s = "\<lparr>type_store = [new_type\<lparr>ty_name := Some ''a'', ty_schema := True\<rparr>], types = [0], entities = []\<rparr>"
  let ?args = "rev (case sample_calls ! 1 of Call_entity _ args \<Rightarrow> ea_attrs args)"
  have ok: "schema_ok ?s" by (simp add: schema_ok_def type_ok_def new_type_def max_nums)
  have f: "find_type_by_name ''a'' ?s = Some 0" by (simp add: find_type_by_name_def)
  have "\<exists>xs s'. assign_attrs ?args ?s = Inr (xs, s')"
    by (simp add: sample_calls_def assign_attr_def find_type_by_name_def Let_def)
  then obtain xs s' where r: "assign_attrs ?args ?s = Inr (xs, s')" by blast
  have "is_list (type_store s' ! 0)"
    using attributes_share_list_flag[OF ok r f] by (simp add: sample_calls_def new_type_def)
  with ok r show ?thesis by (intro exI[of _ ?s] exI[of _ s'] exI[of _ xs]) (simp add: new_type_def)
qed

end
