(* ===== verification/Topo_Graph.thy ===== *)
theory Topo_Graph
  imports Ordered_Map
begin

text \<open>
  The graph of entity inheritance and its topological sort (\<open>TopoGraph\<close> in
  \<open>express_parser/express_parser.cpp\<close>): Kahn's algorithm on a \<open>std::map\<close> of edge sets and a \<open>std::map\<close> of
  in-degrees, with a first-in first-out queue. A \<open>std::set\<close> is its sorted list of elements. The loop is
  a partial function; it is shown to return on every graph the operations build.
\<close>

section \<open>The graph\<close>

record topo_graph =
  graph :: "(int, int list) omap"
  in_degree :: "(int, int) omap"

definition new_graph :: topo_graph where
  "new_graph = \<lparr>graph = [], in_degree = []\<rparr>"

definition edges_of :: "topo_graph \<Rightarrow> int \<Rightarrow> int list" where
  "edges_of g n = (case map_of (graph g) n of None \<Rightarrow> [] | Some es \<Rightarrow> es)"

definition degree :: "(int, int) omap \<Rightarrow> int \<Rightarrow> int" where
  "degree d n = (case map_of d n of None \<Rightarrow> 0 | Some k \<Rightarrow> k)"

definition add_node :: "int \<Rightarrow> topo_graph \<Rightarrow> topo_graph" where
  "add_node node_id g =
     (if map_of (graph g) node_id = None
      then \<lparr>graph = om_assign node_id [] (graph g), in_degree = om_assign node_id 0 (in_degree g)\<rparr> else g)"

definition add_edge :: "int \<Rightarrow> int \<Rightarrow> topo_graph \<Rightarrow> topo_graph" where
  "add_edge from_id to_id g =
     (let g1 = add_node to_id (add_node from_id g); es = edges_of g1 from_id
      in if to_id \<in> set es then g1
         else \<lparr>graph = om_assign from_id (insort to_id es) (graph g1),
               in_degree = om_assign to_id (degree (in_degree g1) to_id + 1) (in_degree g1)\<rparr>)"

section \<open>The sort\<close>

text \<open>The edges of one node: every target loses an incoming edge, and joins the queue when it has none left.\<close>

fun relax :: "int list \<Rightarrow> (int, int) omap \<Rightarrow> int list \<Rightarrow> (int, int) omap \<times> int list" where
  "relax [] d q = (d, q)"
| "relax (e # es) d q =
     (let d1 = om_assign e (degree d e - 1) d
      in relax es d1 (if degree d1 e = 0 then q @ [e] else q))"

partial_function (option) topo_loop ::
    "topo_graph \<Rightarrow> (int, int) omap \<Rightarrow> int list \<Rightarrow> int list \<Rightarrow> (int list \<times> (int, int) omap) option" where
  "topo_loop g d q res =
     (case q of
        [] \<Rightarrow> Some (res, d)
      | node # q1 \<Rightarrow> (let (d1, q2) = relax (edges_of g node) d q1 in topo_loop g d1 q2 (res @ [node])))"

definition topo_sort :: "topo_graph \<Rightarrow> (int list \<times> topo_graph) option" where
  "topo_sort g =
     map_option (\<lambda>(res, d). (res, g\<lparr>in_degree := d\<rparr>))
       (topo_loop g (in_degree g) (map fst (filter (\<lambda>(_, k). k = 0) (in_degree g))) [])"

section \<open>Well-formed graphs\<close>

definition nodes :: "topo_graph \<Rightarrow> int set" where
  "nodes g = dom (map_of (graph g))"

definition preds :: "topo_graph \<Rightarrow> int \<Rightarrow> int set" where
  "preds g n = {m. n \<in> set (edges_of g m)}"

text \<open>\<open>graph_ok g\<close>: both maps have the nodes for keys, edges lead to nodes, and the degrees count them.\<close>

definition graph_ok :: "topo_graph \<Rightarrow> bool" where
  "graph_ok g \<longleftrightarrow>
     om_ok (graph g) \<and> om_ok (in_degree g) \<and> dom (map_of (in_degree g)) = nodes g \<and>
     (\<forall>m. distinct (edges_of g m) \<and> set (edges_of g m) \<subseteq> nodes g) \<and>
     (\<forall>n. degree (in_degree g) n = int (card (preds g n)))"

lemma edges_of_node: "m \<notin> nodes g \<Longrightarrow> edges_of g m = []"
  by (auto simp: edges_of_def nodes_def split: option.splits)

lemma preds_nodes: "preds g n \<subseteq> nodes g"
  using edges_of_node by (fastforce simp: preds_def)

lemma finite_nodes: "finite (nodes g)"
  by (simp add: nodes_def finite_dom_map_of)

lemma finite_preds: "finite (preds g n)"
  using finite_subset[OF preds_nodes finite_nodes] .

lemma degree_assign [simp]: "om_ok d \<Longrightarrow> degree (om_assign k v d) n = (if n = k then v else degree d n)"
  by (simp add: degree_def map_of_om_assign)

lemma new_graph_ok: "graph_ok new_graph"
  by (simp add: graph_ok_def new_graph_def nodes_def edges_of_def degree_def preds_def)

lemma add_node_ok:
  assumes "graph_ok g"
  shows "graph_ok (add_node n g)" "nodes (add_node n g) = insert n (nodes g)" "edges_of (add_node n g) = edges_of g"
proof -
  show nd: "nodes (add_node n g) = insert n (nodes g)"
    using assms by (auto simp: nodes_def add_node_def map_of_om_assign graph_ok_def)
  show ed: "edges_of (add_node n g) = edges_of g"
    using assms by (auto simp: edges_of_def add_node_def map_of_om_assign graph_ok_def fun_eq_iff)
  show "graph_ok (add_node n g)"
  proof (cases "map_of (graph g) n")
    case None
    then have nn: "n \<notin> nodes g" by (auto simp: nodes_def)
    then have p0: "preds g n = {}" using assms by (auto simp: preds_def graph_ok_def)
    have "in_degree (add_node n g) = om_assign n 0 (in_degree g)" using None by (simp add: add_node_def)
    moreover have "om_ok (graph (add_node n g))" using assms None by (simp add: add_node_def graph_ok_def om_ok_assign)
    moreover have "preds (add_node n g) = preds g" by (simp add: preds_def ed fun_eq_iff)
    ultimately show ?thesis
      using assms p0 unfolding graph_ok_def nd ed by (auto simp: om_ok_assign map_of_om_assign)
  next
    case (Some es)
    then show ?thesis using assms by (simp add: add_node_def)
  qed
qed

lemma add_edge_ok:
  assumes "graph_ok g"
  shows "graph_ok (add_edge a b g)" "nodes (add_edge a b g) = insert a (insert b (nodes g))"
    "set (edges_of (add_edge a b g) m) = (if m = a then insert b (set (edges_of g m)) else set (edges_of g m))"
proof -
  let ?g1 = "add_node b (add_node a g)"
  note A = add_node_ok[OF assms, of a]
  note B = add_node_ok[OF A(1), of b]
  have e1: "edges_of ?g1 = edges_of g" using A(3) B(3) by simp
  have n1: "nodes ?g1 = insert a (insert b (nodes g))" using A(2) B(2) by auto
  have ok1: "graph_ok ?g1" by (rule B(1))
  show "graph_ok (add_edge a b g)" "nodes (add_edge a b g) = insert a (insert b (nodes g))"
    "set (edges_of (add_edge a b g) m) = (if m = a then insert b (set (edges_of g m)) else set (edges_of g m))"
  proof (atomize (full), cases "b \<in> set (edges_of g a)")
    case True
    then have "add_edge a b g = ?g1" by (simp add: add_edge_def e1 Let_def)
    then show "graph_ok (add_edge a b g) \<and> nodes (add_edge a b g) = insert a (insert b (nodes g)) \<and>
        set (edges_of (add_edge a b g) m) = (if m = a then insert b (set (edges_of g m)) else set (edges_of g m))"
      using ok1 n1 e1 True by auto
  next
    case False
    define g2 where "g2 = add_edge a b g"
    have g2: "graph g2 = om_assign a (insort b (edges_of g a)) (graph ?g1)"
      "in_degree g2 = om_assign b (degree (in_degree ?g1) b + 1) (in_degree ?g1)"
      using False by (simp_all add: g2_def add_edge_def e1 Let_def)
    have ed: "edges_of g2 k = (if k = a then insort b (edges_of g a) else edges_of g k)" for k
      using ok1 e1 by (auto simp: g2 edges_of_def map_of_om_assign graph_ok_def fun_eq_iff split: option.splits)
    have nd: "nodes g2 = nodes ?g1"
      using ok1 n1 by (auto simp: g2 nodes_def map_of_om_assign graph_ok_def)
    have pr: "preds g2 k = (if k = b then insert a (preds g k) else preds g k)" for k
      by (auto simp: preds_def ed set_insort_key)
    have "a \<notin> preds g b" using False by (simp add: preds_def)
    moreover have "preds ?g1 = preds g" by (simp add: preds_def e1 fun_eq_iff)
    ultimately have "degree (in_degree g2) k = int (card (preds g2 k))" for k
      using ok1 finite_preds[of g b] by (auto simp: g2 pr graph_ok_def)
    moreover have "distinct (edges_of g2 k)" "set (edges_of g2 k) \<subseteq> nodes g2" for k
      using ok1 False n1 nd by (auto simp: ed e1[symmetric] graph_ok_def distinct_insort set_insort_key)
    moreover have "dom (map_of (in_degree g2)) = nodes g2"
      using ok1 n1 nd by (auto simp: g2 graph_ok_def map_of_om_assign)
    moreover have "om_ok (graph g2)" "om_ok (in_degree g2)" using ok1 by (auto simp: g2 graph_ok_def om_ok_assign)
    ultimately have "graph_ok g2" by (simp add: graph_ok_def)
    then show "graph_ok (add_edge a b g) \<and> nodes (add_edge a b g) = insert a (insert b (nodes g)) \<and>
        set (edges_of (add_edge a b g) m) = (if m = a then insert b (set (edges_of g m)) else set (edges_of g m))"
      unfolding g2_def[symmetric] nd n1 by (auto simp: ed set_insort_key)
  qed
qed

section \<open>The sort is topological\<close>

lemma relax_ok:
  "relax es d q = (d', q') \<Longrightarrow> om_ok d \<Longrightarrow> distinct es \<Longrightarrow>
   om_ok d' \<and> (\<forall>n. degree d' n = degree d n - of_bool (n \<in> set es)) \<and>
   (\<exists>ns. q' = q @ ns \<and> distinct ns \<and> set ns = {n \<in> set es. degree d n = 1})"
proof (induction es d q rule: relax.induct)
  case (2 e es d q)
  let ?d1 = "om_assign e (degree d e - 1) d"
  have ok: "om_ok ?d1" using "2.prems"(2) by (rule om_ok_assign)
  have r: "relax es ?d1 (if degree ?d1 e = 0 then q @ [e] else q) = (d', q')" and ds: "distinct es" "e \<notin> set es"
    using "2.prems"(1,3) by (simp_all add: Let_def)
  from "2.IH"[OF refl r ok ds(1)] obtain ns where
    I: "om_ok d'" "\<forall>n. degree d' n = degree ?d1 n - of_bool (n \<in> set es)"
      "q' = (if degree ?d1 e = 0 then q @ [e] else q) @ ns" "distinct ns" "set ns = {n \<in> set es. degree ?d1 n = 1}"
    by blast
  have "set ns = {n \<in> set es. degree d n = 1}" using I(5) ds(2) "2.prems"(2) by auto
  moreover have "\<forall>n. degree d' n = degree d n - of_bool (n \<in> set (e # es))" using I(2) ds(2) "2.prems"(2) by simp
  moreover have "degree ?d1 e = degree d e - 1" using "2.prems"(2) by simp
  ultimately show ?case
    using I(1,3,4) ds(2) by (cases "degree d e = 1") (auto intro!: exI[of _ "if degree d e = 1 then e # ns else ns"])
qed auto

definition ordered :: "topo_graph \<Rightarrow> int list \<Rightarrow> bool" where
  "ordered g l \<longleftrightarrow> (\<forall>i < length l. preds g (l ! i) \<subseteq> set (take i l))"

lemma ordered_append: "ordered g l \<Longrightarrow> \<forall>m \<in> set ns. preds g m \<subseteq> set l \<Longrightarrow> ordered g (l @ ns)"
  unfolding ordered_def
proof (intro allI impI)
  fix i assume l: "\<forall>i < length l. preds g (l ! i) \<subseteq> set (take i l)" and ns: "\<forall>m \<in> set ns. preds g m \<subseteq> set l"
    and i: "i < length (l @ ns)"
  show "preds g ((l @ ns) ! i) \<subseteq> set (take i (l @ ns))"
  proof (cases "i < length l")
    case True
    then show ?thesis using l by (simp add: nth_append)
  next
    case False
    then have "(l @ ns) ! i \<in> set ns" using i by (simp add: nth_append)
    then show ?thesis using ns False by auto
  qed
qed

definition loop_inv :: "topo_graph \<Rightarrow> (int, int) omap \<Rightarrow> int list \<Rightarrow> int list \<Rightarrow> bool" where
  "loop_inv g d q res \<longleftrightarrow>
     om_ok d \<and> distinct (res @ q) \<and> set (res @ q) \<subseteq> nodes g \<and>
     (\<forall>n. degree d n = int (card (preds g n - set res))) \<and>
     (\<forall>n \<in> nodes g. n \<in> set (res @ q) \<longleftrightarrow> degree d n = 0) \<and> ordered g (res @ q)"

lemma card_preds_snoc:
  assumes "n \<notin> set res"
  shows "int (card (preds g m - set (res @ [n]))) = int (card (preds g m - set res)) - of_bool (n \<in> preds g m)"
proof (cases "n \<in> preds g m")
  case True
  then have "n \<in> preds g m - set res" using assms by simp
  moreover have "preds g m - set (res @ [n]) = (preds g m - set res) - {n}" by auto
  ultimately have "card (preds g m - set (res @ [n])) = card (preds g m - set res) - 1" "0 < card (preds g m - set res)"
    using finite_preds[of g m] by (auto simp: card_gt_0_iff)
  then show ?thesis using True by simp
next
  case False
  then have "preds g m - set (res @ [n]) = preds g m - set res" by auto
  then show ?thesis using False by simp
qed

lemma loop_step:
  assumes g: "graph_ok g" and I: "loop_inv g d (n # q) res" and r: "relax (edges_of g n) d q = (d', q')"
  shows "loop_inv g d' q' (res @ [n])"
proof -
  have ok: "om_ok d" and dst: "distinct (res @ n # q)" and sub: "set (res @ n # q) \<subseteq> nodes g"
    and deg: "\<And>m. degree d m = int (card (preds g m - set res))"
    and zero: "\<And>m. m \<in> nodes g \<Longrightarrow> m \<in> set (res @ n # q) \<longleftrightarrow> degree d m = 0" and ord: "ordered g (res @ n # q)"
    using I by (auto simp: loop_inv_def)
  have es: "distinct (edges_of g n)" "set (edges_of g n) \<subseteq> nodes g" using g by (auto simp: graph_ok_def)
  from relax_ok[OF r ok es(1)] obtain ns where
    R: "om_ok d'" "\<And>m. degree d' m = degree d m - of_bool (m \<in> set (edges_of g n))" "q' = q @ ns" "distinct ns"
      "set ns = {m \<in> set (edges_of g n). degree d m = 1}" by auto
  have edge: "m \<in> set (edges_of g n) \<longleftrightarrow> n \<in> preds g m" for m by (simp add: preds_def)
  have deg': "degree d' m = int (card (preds g m - set (res @ [n])))" for m
    using card_preds_snoc[of n res g m] dst R(2)[of m] deg[of m] by (simp add: edge)
  have pos: "degree d m \<noteq> 0" if "m \<in> set (edges_of g n)" for m
  proof -
    have "n \<in> preds g m - set res" using that dst by (simp add: edge)
    then show ?thesis using deg[of m] finite_preds[of g m] by auto
  qed
  have old: "m \<notin> set (edges_of g n)" if "m \<in> set (res @ n # q)" for m
    using that zero[of m] pos[of m] sub by blast
  have new: "m \<notin> set (res @ n # q)" if "m \<in> set ns" for m using that R(5) old by blast
  have "distinct ((res @ [n]) @ q')" using dst R(3,4) new by auto
  moreover have "set ((res @ [n]) @ q') \<subseteq> nodes g" using sub es(2) R(3,5) by auto
  moreover have "m \<in> set ((res @ [n]) @ q') \<longleftrightarrow> degree d' m = 0" if "m \<in> nodes g" for m
  proof (cases "m \<in> set (edges_of g n)")
    case True
    then show ?thesis using R(2)[of m] R(3,5) old[of m] by auto
  next
    case False
    then show ?thesis using R(2)[of m] R(3,5) zero[OF that] by auto
  qed
  moreover have "ordered g ((res @ n # q) @ ns)"
  proof (rule ordered_append[OF ord], rule ballI)
    fix m assume "m \<in> set ns"
    then have m: "degree d' m = 0" using R(2)[of m] R(5) by auto
    then have "preds g m - set (res @ [n]) = {}" using deg'[of m] finite_preds[of g m] by simp
    then show "preds g m \<subseteq> set (res @ n # q)" by auto
  qed
  ultimately show ?thesis using R(1,3) deg' by (simp add: loop_inv_def)
qed

lemma topo_loop_returns:
  assumes g: "graph_ok g" and I: "loop_inv g d q res"
  shows "\<exists>res' d'. topo_loop g d q res = Some (res', d') \<and> loop_inv g d' [] res'"
  using I
proof (induction "card (nodes g - set res)" arbitrary: d q res rule: less_induct)
  case less
  show ?case
  proof (cases q)
    case Nil
    then show ?thesis using less.prems by (subst topo_loop.simps) simp
  next
    case (Cons n q1)
    obtain d1 q2 where r: "relax (edges_of g n) d q1 = (d1, q2)" by fastforce
    have n: "n \<in> nodes g - set res" using less.prems Cons by (auto simp: loop_inv_def)
    have "nodes g - set (res @ [n]) = (nodes g - set res) - {n}" by auto
    then have "card (nodes g - set (res @ [n])) < card (nodes g - set res)"
      using card_Diff1_less[OF _ n] finite_nodes[of g] by simp
    from less.hyps[OF this loop_step[OF g less.prems[unfolded Cons] r]] show ?thesis
      using Cons r by (subst topo_loop.simps) simp
  qed
qed

lemma start_inv:
  assumes g: "graph_ok g"
  shows "loop_inv g (in_degree g) (map fst (filter (\<lambda>(_, k). k = 0) (in_degree g))) []"
proof -
  let ?q = "map fst (filter (\<lambda>(_, k). k = 0) (in_degree g))"
  have ok: "om_ok (in_degree g)" and dom: "dom (map_of (in_degree g)) = nodes g"
    and deg: "\<And>n. degree (in_degree g) n = int (card (preds g n))"
    using g by (auto simp: graph_ok_def)
  have mem: "n \<in> set ?q \<longleftrightarrow> n \<in> nodes g \<and> degree (in_degree g) n = 0" for n
  proof -
    have "n \<in> set ?q \<longleftrightarrow> (n, 0) \<in> set (in_degree g)" by (auto simp: image_iff)
    also have "\<dots> \<longleftrightarrow> map_of (in_degree g) n = Some 0" using map_of_eq_Some_iff[OF om_ok_distinct[OF ok]] by simp
    also have "\<dots> \<longleftrightarrow> n \<in> nodes g \<and> degree (in_degree g) n = 0"
      by (auto simp: degree_def dom[symmetric] split: option.splits)
    finally show ?thesis .
  qed
  have "distinct ?q" using om_ok_distinct[OF ok] by (simp add: distinct_map inj_on_def)
  moreover have "preds g n = {}" if "n \<in> set ?q" for n
    using mem[of n] that deg[of n] finite_preds[of g n] by simp
  then have "\<forall>m \<in> set ?q. preds g m \<subseteq> set []" by blast
  then have "ordered g ([] @ ?q)" by (intro ordered_append) (simp_all add: ordered_def)
  ultimately show ?thesis using ok deg mem by (auto simp: loop_inv_def)
qed

section \<open>Properties\<close>

text \<open>The nodes no cycle leads to: those whose chains of predecessors all end.\<close>

definition edge_rel :: "topo_graph \<Rightarrow> (int \<times> int) set" where
  "edge_rel g = {(m, n). n \<in> set (edges_of g m)}"

lemma sorted_acc:
  assumes "ordered g l" "i < length l"
  shows "l ! i \<in> Wellfounded.acc (edge_rel g)"
  using assms(2)
proof (induction i rule: less_induct)
  case (less i)
  show ?case
  proof (rule accI)
    fix m assume "(m, l ! i) \<in> edge_rel g"
    then have "m \<in> set (take i l)" using assms(1) less.prems by (auto simp: ordered_def preds_def edge_rel_def)
    then obtain j where "j < i" "m = l ! j" using less.prems by (auto simp: in_set_conv_nth)
    then show "m \<in> Wellfounded.acc (edge_rel g)" using less by simp
  qed
qed

lemma acc_sorted:
  assumes inv: "loop_inv g d [] res" and a: "n \<in> Wellfounded.acc (edge_rel g)" and n: "n \<in> nodes g"
  shows "n \<in> set res"
  using a n
proof (induction rule: acc.induct)
  case (accI n)
  have "preds g n \<subseteq> set res"
  proof
    fix m assume m: "m \<in> preds g n"
    then have "m \<in> nodes g" using preds_nodes by blast
    then show "m \<in> set res" using accI.IH[of m] m by (simp add: edge_rel_def preds_def)
  qed
  then have "preds g n - set res = {}" by blast
  then have "degree d n = 0" using inv unfolding loop_inv_def by (metis card.empty of_nat_0)
  then show ?case using inv accI.prems by (auto simp: loop_inv_def)
qed

lemma topo_sort_ok:
  assumes g: "graph_ok g"
  shows "\<exists>res g'. topo_sort g = Some (res, g') \<and> distinct res \<and> ordered g res \<and>
    set res = nodes g \<inter> Wellfounded.acc (edge_rel g)"
proof -
  obtain res d where t: "topo_loop g (in_degree g) (map fst (filter (\<lambda>(_, k). k = 0) (in_degree g))) [] = Some (res, d)"
    and I: "loop_inv g d [] res"
    using topo_loop_returns[OF g start_inv[OF g]] by blast
  have o: "distinct res" "ordered g res" "set res \<subseteq> nodes g" using I by (auto simp: loop_inv_def)
  moreover have "set res \<subseteq> Wellfounded.acc (edge_rel g)"
  proof
    fix n assume "n \<in> set res"
    then obtain i where "i < length res" "n = res ! i" by (auto simp: in_set_conv_nth)
    then show "n \<in> Wellfounded.acc (edge_rel g)" using sorted_acc[OF o(2)] by simp
  qed
  ultimately have "set res = nodes g \<inter> Wellfounded.acc (edge_rel g)" using acc_sorted[OF I] by blast
  with o t show ?thesis by (simp add: topo_sort_def)
qed

definition build :: "(int \<times> int) list \<Rightarrow> topo_graph" where
  "build es = fold (\<lambda>(a, b). add_edge a b) es new_graph"

lemma build_ok:
  "graph_ok (build es) \<and> nodes (build es) = fst ` set es \<union> snd ` set es \<and> edge_rel (build es) = set es"
proof (induction es rule: rev_induct)
  case Nil
  then show ?case by (simp add: build_def new_graph_ok) (simp add: nodes_def new_graph_def edge_rel_def edges_of_def)
next
  case (snoc e es)
  obtain a b where e: "e = (a, b)" by fastforce
  have s: "build (es @ [(a, b)]) = add_edge a b (build es)" by (simp add: build_def)
  have ok: "graph_ok (build es)" using snoc.IH by simp
  note A = add_edge_ok[OF ok, of a b]
  have "edge_rel (add_edge a b (build es)) = insert (a, b) (edge_rel (build es))"
    by (auto simp: edge_rel_def A(3) split: if_splits)
  then show ?case using A(1,2) snoc.IH unfolding e s by auto
qed

lemma ordered_before:
  assumes "ordered (build es) res" "(a, b) \<in> set es" "res = xs @ b # ys"
  shows "a \<in> set xs"
proof -
  have e: "edge_rel (build es) = set es" using build_ok by auto
  have "a \<in> preds (build es) b" using assms(2) unfolding e[symmetric] by (simp add: edge_rel_def preds_def)
  moreover have "preds (build es) (res ! length xs) \<subseteq> set (take (length xs) res)"
    using assms(1)[unfolded ordered_def, rule_format, of "length xs"] assms(3) by simp
  ultimately show ?thesis using assms(3) by auto
qed

text \<open>A finite relation is acyclic exactly when everything it relates is accessible.\<close>

lemma acyclic_iff_acc: "finite r \<Longrightarrow> acyclic r \<longleftrightarrow> fst ` r \<union> snd ` r \<subseteq> Wellfounded.acc r"
proof
  assume "finite r" "acyclic r"
  then have "wf r" by (rule finite_acyclic_wf)
  then show "fst ` r \<union> snd ` r \<subseteq> Wellfounded.acc r" by (auto dest: acc_wfD)
next
  assume s: "fst ` r \<union> snd ` r \<subseteq> Wellfounded.acc r"
  have "x \<in> Wellfounded.acc r" for x
  proof (cases "x \<in> snd ` r")
    case False
    then show ?thesis by - (rule acc.accI, force)
  next
    case True
    then show ?thesis using subsetD[OF s, of x] by simp
  qed
  then have "wf r" by (simp add: wf_iff_acc)
  then show "acyclic r" by (rule wf_acyclic)
qed

text \<open>C14. \<open>topo_sort\<close> on any graph that \<open>add_edge\<close> builds returns, and lists, each once and every source before its
  targets, exactly the nodes that no cycle leads to. So an acyclic graph is sorted completely, and the nodes on or
  behind a cycle are silently left out. A node without edges is not in the graph at all.\<close>

theorem topo_sort_correct:
  "\<exists>res g'. topo_sort (build es) = Some (res, g') \<and> distinct res \<and>
     set res = (fst ` set es \<union> snd ` set es) \<inter> Wellfounded.acc (set es) \<and>
     (acyclic (set es) \<longleftrightarrow> set res = fst ` set es \<union> snd ` set es) \<and>
     list_all (\<lambda>(a, b). \<not> (\<exists>xs ys. res = xs @ b # ys \<and> a \<notin> set xs)) es"
proof -
  have ok: "graph_ok (build es)" and n: "nodes (build es) = fst ` set es \<union> snd ` set es" and e: "edge_rel (build es) = set es"
    using build_ok by auto
  obtain res g' where t: "topo_sort (build es) = Some (res, g')" "distinct res" "ordered (build es) res"
    and r: "set res = (fst ` set es \<union> snd ` set es) \<inter> Wellfounded.acc (set es)"
    using topo_sort_ok[OF ok] unfolding n e by blast
  have "list_all (\<lambda>(a, b). \<not> (\<exists>xs ys. res = xs @ b # ys \<and> a \<notin> set xs)) es"
    using ordered_before[OF t(3)] by (auto simp: list_all_iff)
  moreover have "acyclic (set es) \<longleftrightarrow> set res = fst ` set es \<union> snd ` set es"
    using acyclic_iff_acc[of "set es"] r by auto
  ultimately show ?thesis using t(1,2) r by blast
qed

text \<open>\<open>topo_sort\<close> uses up the in-degrees: sorting the same graph a second time gives an order that is not
  topological, here for a single edge from \<open>2\<close> to \<open>1\<close>.\<close>

theorem topo_sort_once:
  "\<exists>g'. topo_sort (build [(2, 1)]) = Some ([2, 1], g') \<and> (\<exists>g''. topo_sort g' = Some ([1, 2], g''))"
proof -
  have b: "build [(2, 1)] = \<lparr>graph = [(1, []), (2, [1])], in_degree = [(1, 1), (2, 0)]\<rparr>"
    by (simp add: build_def add_edge_def add_node_def new_graph_def edges_of_def degree_def)
  have "topo_sort (build [(2, 1)]) = Some ([2, 1], \<lparr>graph = [(1, []), (2, [1])], in_degree = [(1, 0), (2, 0)]\<rparr>)"
    unfolding b by (simp add: topo_sort_def topo_loop.simps edges_of_def degree_def Let_def)
  moreover have "\<exists>g''. topo_sort \<lparr>graph = [(1, []), (2, [1])], in_degree = [(1, 0), (2, 0)]\<rparr> = Some ([1, 2], g'')"
    by (simp add: topo_sort_def topo_loop.simps edges_of_def degree_def Let_def)
  ultimately show ?thesis by blast
qed

end
