(* ===== verification/Express_Sql.thy ===== *)
theory Express_Sql
  imports Express_Schema Topo_Graph
begin

text \<open>
  The generator of SQL (\<open>PgSQLGenerator\<close> in \<open>express_parser/express_parser_cli.cpp\<close>): the SQL type of an EXPRESS
  type, the function that creates the table of an entity, and the script for a schema, with its tables in the order
  of inheritance. The SQL type of a derived type is found by recursion through its bases, a partial function:
  \<open>None\<close> is a recursion that does not end.
\<close>

section \<open>Types\<close>

abbreviation nl :: string where "nl \<equiv> [CHR 0x0A]"

definition in_quotes :: "char \<Rightarrow> string \<Rightarrow> string" where
  "in_quotes q s = q # s @ [q]"

definition to_lower :: "string \<Rightarrow> string" where
  "to_lower = map tolower"

text \<open>Making a \<open>std::string\<close> of a null pointer is undefined.\<close>

definition cstring :: "string option \<Rightarrow> string res" where
  "cstring p = (case p of None \<Rightarrow> Inl Undefined | Some s \<Rightarrow> Inr s)"

fun comma_quoted :: "string list \<Rightarrow> string" where
  "comma_quoted [] = []"
| "comma_quoted [x] = in_quotes (CHR 0x27) x"
| "comma_quoted (x # xs) = in_quotes (CHR 0x27) x @ '', '' @ comma_quoted xs"

definition create_pgsql_for_enum :: "exp_type \<Rightarrow> string res" where
  "create_pgsql_for_enum t =
     rbind (cstring (ty_name t)) (\<lambda>n.
       Inr (''CREATE TYPE '' @ n @ '' AS ENUM ('' @ comma_quoted (enum_list t) @ '');''))"

text \<open>The switch of \<open>typecast_express_to_sql\<close> without its recursive case.\<close>

definition sql_base :: "exp_type \<Rightarrow> string res" where
  "sql_base t =
     (case ty_kind t of
        T_INTEGER \<Rightarrow> Inr ''INTEGER''
      | T_NUMBER \<Rightarrow> Inr ''NUMERIC''
      | T_REAL \<Rightarrow> Inr ''REAL''
      | T_BINARY \<Rightarrow> Inr ''VARCHAR''
      | T_LOGICAL \<Rightarrow> Inr ''VARCHAR''
      | T_STRING \<Rightarrow> Inr ''VARCHAR''
      | T_BOOLEAN \<Rightarrow> Inr ''BOOLEAN''
      | T_ENUM \<Rightarrow> cstring (ty_name t)
      | T_SELECT \<Rightarrow> Inr ''SPF_SELECT''
      | T_REFERENCE \<Rightarrow> Inr ''OID''
      | _ \<Rightarrow> Inl (Exit_called 1))"

definition list_suffix :: "exp_type \<Rightarrow> string" where
  "list_suffix t = (if is_list t then ''[]'' else [])"

text \<open>A derived type may be derived from an entity, which the cast then takes for a type of kind \<open>T_ENTITY\<close>.\<close>

partial_function (option) typecast_express_to_sql :: "exp_schema \<Rightarrow> nat \<Rightarrow> string res option" where
  "typecast_express_to_sql s a =
     (let t = type_store s ! a
      in if ty_kind t = T_DERIVED then
           (case ref_type t of
              None \<Rightarrow> Some (Inl Undefined)
            | Some (EntityDesc _) \<Rightarrow> Some (Inl (Exit_called 1))
            | Some (TypeDesc b) \<Rightarrow>
                Option.bind (typecast_express_to_sql s b) (\<lambda>r. Some (rbind r (\<lambda>x. Inr (x @ list_suffix t)))))
         else Some (rbind (sql_base t) (\<lambda>x. Inr (x @ list_suffix t))))"

section \<open>Entities and schemas\<close>

definition obind :: "'a res option \<Rightarrow> ('a \<Rightarrow> 'b res option) \<Rightarrow> 'b res option" where
  "obind m f = (case m of None \<Rightarrow> None | Some (Inl e) \<Rightarrow> Some (Inl e) | Some (Inr x) \<Rightarrow> f x)"

fun each :: "('a \<Rightarrow> 'b res option) \<Rightarrow> 'a list \<Rightarrow> 'b list res option" where
  "each f [] = Some (Inr [])"
| "each f (x # xs) = obind (f x) (\<lambda>y. obind (each f xs) (\<lambda>ys. Some (Inr (y # ys))))"

definition sql_column :: "exp_schema \<Rightarrow> exp_attr \<Rightarrow> string res option" where
  "sql_column s x =
     obind (typecast_express_to_sql s (attr_type x)) (\<lambda>t.
       Some (Inr ('' '' @ in_quotes (CHR 0x22) (attr_name x) @ '' '' @ t @ (if is_optional x then [] else '' NOT NULL''))))"

fun comma_list :: "string list \<Rightarrow> string" where
  "comma_list [] = []"
| "comma_list [x] = x"
| "comma_list (x # xs) = x @ '', '' @ comma_list xs"

text \<open>The attribute counter of an entity without a body was never written.\<close>

definition create_pgsql_for_entity :: "exp_schema \<Rightarrow> exp_entity \<Rightarrow> string res option" where
  "create_pgsql_for_entity s e =
     (if \<not> assigned e then Some (Inl Undefined)
      else obind (each (sql_column s) (attrs e)) (\<lambda>cols.
        let sup = map_option (\<lambda>i. en_name (entities s ! i)) (supertype e);
            name = to_lower (en_name e)
        in Some (Inr
             (''CREATE FUNCTION create_'' @ name @ ''() RETURNS BOOLEAN AS $$'' @ nl @ ''BEGIN'' @ nl @
              (case sup of None \<Rightarrow> [] | Some p \<Rightarrow> ''PERFORM create_'' @ to_lower p @ ''();'' @ nl) @
              ''CREATE TABLE IF NOT EXISTS '' @ name @ ''('' @ comma_list cols @ '')'' @
              (case sup of None \<Rightarrow> [] | Some p \<Rightarrow> '' INHERITS ('' @ p @ '')'') @ '';'' @ nl @
              ''RETURN TRUE;'' @ nl @ ''END;'' @ nl @ ''$$ LANGUAGE plpgsql;''))))"

definition sql_preamble :: string where
  "sql_preamble =
     ''CREATE TYPE express_type AS ENUM ('' @
     comma_quoted [''INTEGER'', ''REAL'', ''STRING'', ''BOOLEAN'', ''ENUM'', ''SELECT'', ''ENTITY''] @ '');'' @ nl @
     ''CREATE TYPE spf_select AS (type express_type,value bytea,label text);'' @ nl"

definition sql_enums :: "exp_schema \<Rightarrow> string res" where
  "sql_enums s =
     rbind (rmap (\<lambda>a. rbind (create_pgsql_for_enum (type_store s ! a)) (\<lambda>x. Inr (x @ nl)))
              (filter (\<lambda>a. ty_kind (type_store s ! a) = T_ENUM) (types s)))
       (\<lambda>xs. Inr (concat xs))"

text \<open>The edges of the graph of inheritance, in the order of their insertion. The number of a subtype that is not
  known is \<open>-1\<close>.\<close>

definition subtype_edges :: "exp_schema \<Rightarrow> (int \<times> int) list" where
  "subtype_edges s =
     concat (map (\<lambda>(i, e). map (\<lambda>p. (int i, get_entity_id p)) (subtypes e)) (zip [0..<length (entities s)] (entities s)))"

definition generate_pgsql_for_schema :: "exp_schema \<Rightarrow> string res option" where
  "generate_pgsql_for_schema s =
     obind (Some (sql_enums s)) (\<lambda>enums.
       if \<not> list_all assigned (entities s) then Some (Inl Undefined)
       else
         (case topo_sort (build (subtype_edges s)) of
            None \<Rightarrow> None
          | Some ([], _) \<Rightarrow> Some (Inl Undefined)
          | Some (i # order, _) \<Rightarrow>
              (case find_entity_by_id i s of
                 None \<Rightarrow> Some (Inl Undefined)
               | Some e \<Rightarrow>
                   if supertype e \<noteq> None then Some (Inl Assert_failed)
                   else obind (each (\<lambda>k. case find_entity_by_id k s of
                                           None \<Rightarrow> Some (Inl Undefined)
                                         | Some e \<Rightarrow> create_pgsql_for_entity s e) (i # order))
                          (\<lambda>stmts. Some (Inr (sql_preamble @ enums @ concat (map (\<lambda>x. x @ nl) stmts)))))))"


section \<open>The SQL type of a derived type\<close>

text \<open>\<open>(b, a)\<close>: the type at \<open>a\<close> is derived from the type at \<open>b\<close>.\<close>

definition derivation :: "exp_schema \<Rightarrow> (nat \<times> nat) set" where
  "derivation s = {(b, a). ty_kind (type_store s ! a) = T_DERIVED \<and> ref_type (type_store s ! a) = Some (TypeDesc b)}"

lemma typecast_simp:
  "typecast_express_to_sql s a =
     (let t = type_store s ! a
      in if ty_kind t = T_DERIVED then
           (case ref_type t of
              None \<Rightarrow> Some (Inl Undefined)
            | Some (EntityDesc _) \<Rightarrow> Some (Inl (Exit_called 1))
            | Some (TypeDesc b) \<Rightarrow>
                Option.bind (typecast_express_to_sql s b) (\<lambda>r. Some (rbind r (\<lambda>x. Inr (x @ list_suffix t)))))
         else Some (rbind (sql_base t) (\<lambda>x. Inr (x @ list_suffix t))))"
  by (rule typecast_express_to_sql.simps)

lemma typecast_returns_iff:
  "(typecast_express_to_sql s a \<noteq> None) \<longleftrightarrow> a \<in> Wellfounded.acc (derivation s)"
proof
  assume "typecast_express_to_sql s a \<noteq> None"
  then obtain r where "typecast_express_to_sql s a = Some r" by blast
  then show "a \<in> Wellfounded.acc (derivation s)"
  proof (induction rule: typecast_express_to_sql.raw_induct[rotated, consumes 1, case_names 1])
    case (1 f s a r)
    show ?case
    proof (rule accI)
      fix b assume "(b, a) \<in> derivation s"
      then have "f s b \<noteq> None" using 1(2) by (auto simp: derivation_def Let_def split: bind_splits)
      then show "b \<in> Wellfounded.acc (derivation s)" using 1(1) by blast
    qed
  qed
next
  assume "a \<in> Wellfounded.acc (derivation s)"
  then show "typecast_express_to_sql s a \<noteq> None"
  proof (induction rule: acc.induct)
    case (accI a)
    show ?case
    proof (cases "ty_kind (type_store s ! a) = T_DERIVED \<and> (\<exists>b. ref_type (type_store s ! a) = Some (TypeDesc b))")
      case True
      then obtain b where b: "ty_kind (type_store s ! a) = T_DERIVED" "ref_type (type_store s ! a) = Some (TypeDesc b)"
        by blast
      then have "typecast_express_to_sql s b \<noteq> None" using accI.IH by (simp add: derivation_def)
      then show ?thesis using b by (subst typecast_simp) (auto simp: Let_def)
    next
      case False
      then show ?thesis by (subst typecast_simp) (auto simp: Let_def split: option.splits exp_desc.splits)
    qed
  qed
qed

text \<open>\<open>chain s a b k\<close>: the chain of bases of \<open>a\<close> ends in \<open>b\<close>, with \<open>k\<close> lists on the way.\<close>

inductive chain :: "exp_schema \<Rightarrow> nat \<Rightarrow> nat \<Rightarrow> nat \<Rightarrow> bool" where
  chain_end: "ty_kind (type_store s ! a) \<noteq> T_DERIVED \<Longrightarrow> chain s a a (if is_list (type_store s ! a) then 1 else 0)"
| chain_step: "ty_kind (type_store s ! a) = T_DERIVED \<Longrightarrow> ref_type (type_store s ! a) = Some (TypeDesc c) \<Longrightarrow> chain s c b k \<Longrightarrow>
    chain s a b (k + (if is_list (type_store s ! a) then 1 else 0))"

lemma list_suffix_replicate: "list_suffix t = concat (replicate (if is_list t then 1 else 0) ''[]'')"
  by (simp add: list_suffix_def)

lemma typecast_sound:
  "typecast_express_to_sql s a = Some r \<Longrightarrow> r = Inr t \<Longrightarrow>
   \<exists>b k n. chain s a b k \<and> sql_base (type_store s ! b) = Inr n \<and> t = n @ concat (replicate k ''[]'')"
proof (induction arbitrary: t rule: typecast_express_to_sql.raw_induct[rotated, consumes 1, case_names 1])
  case (1 f s a r)
  let ?t = "type_store s ! a"
  show ?case
  proof (cases "ty_kind ?t = T_DERIVED")
    case True
    then obtain c x where c: "ref_type ?t = Some (TypeDesc c)" "f s c = Some (Inr x)" "t = x @ list_suffix ?t"
      using 1(2,3) by (auto simp: Let_def rbind_eq_Inr split: option.splits exp_desc.splits bind_splits)
    from 1(1)[OF c(2) refl] obtain b k n where
      "chain s c b k" "sql_base (type_store s ! b) = Inr n" "x = n @ concat (replicate k ''[]'')" by blast
    then have "chain s a b (k + (if is_list ?t then 1 else 0))"
      "t = n @ concat (replicate (k + (if is_list ?t then 1 else 0)) ''[]'')"
      using chain_step[OF True c(1)] c(3) by (simp_all add: list_suffix_def replicate_add)
    then show ?thesis using \<open>sql_base (type_store s ! b) = Inr n\<close> by blast
  next
    case False
    then obtain n where "sql_base ?t = Inr n" "t = n @ list_suffix ?t"
      using 1(2,3) by (auto simp: Let_def rbind_eq_Inr)
    then show ?thesis using chain_end[OF False] unfolding list_suffix_replicate by blast
  qed
qed

lemma typecast_complete:
  "chain s a b k \<Longrightarrow> sql_base (type_store s ! b) = Inr n \<Longrightarrow>
   typecast_express_to_sql s a = Some (Inr (n @ concat (replicate k ''[]'')))"
proof (induction rule: chain.induct)
  case (chain_end s a)
  then show ?case by (subst typecast_simp) (simp add: Let_def list_suffix_def)
next
  case (chain_step s a c b k)
  then show ?case by (subst typecast_simp) (simp add: Let_def list_suffix_def replicate_add)
qed

text \<open>The cast of a type returns exactly if the chain of its bases ends (on types derived from each other in a
  circle the recursion does not), and succeeds exactly if it ends in a type the switch knows; the result is the SQL
  name of that type followed by one pair of brackets for every list on the way.\<close>

theorem typecast_correct:
  "((typecast_express_to_sql s a \<noteq> None) \<longleftrightarrow> a \<in> Wellfounded.acc (derivation s)) \<and>
   ((typecast_express_to_sql s a = Some (Inr t)) \<longleftrightarrow>
    (\<exists>b k n. chain s a b k \<and> sql_base (type_store s ! b) = Inr n \<and> t = n @ concat (replicate k ''[]'')))"
  using typecast_returns_iff typecast_sound typecast_complete by blast

section \<open>The script of a schema\<close>

lemma obind_Some_Inr: "obind m f = Some (Inr y) \<longleftrightarrow> (\<exists>x. m = Some (Inr x) \<and> f x = Some (Inr y))"
  by (auto simp: obind_def split: option.splits sum.splits)

lemma obind_simps [simp]:
  "obind None f = None" "obind (Some (Inl e)) f = Some (Inl e)" "obind (Some (Inr x)) f = f x"
  by (simp_all add: obind_def)

lemma each_Some_Inr: "each f xs = Some (Inr ys) \<longleftrightarrow> list_all2 (\<lambda>x y. f x = Some (Inr y)) xs ys"
proof (induction xs arbitrary: ys)
  case Nil
  then show ?case by auto
next
  case (Cons x xs)
  then show ?case by (cases ys) (auto simp: obind_Some_Inr)
qed

definition subtype_rel :: "exp_schema \<Rightarrow> (nat \<times> nat) set" where
  "subtype_rel s = {(i, j). i < length (entities s) \<and> Some j \<in> set (subtypes (entities s ! i))}"

definition linked :: "exp_schema \<Rightarrow> nat set" where
  "linked s = {i. i < length (entities s) \<and> subtypes (entities s ! i) \<noteq> []} \<union> Range (subtype_rel s)"

lemma subtype_edges_mem:
  "(a, b) \<in> set (subtype_edges s) \<longleftrightarrow>
   (\<exists>i p. a = int i \<and> b = get_entity_id p \<and> i < length (entities s) \<and> p \<in> set (subtypes (entities s ! i)))"
  by (force simp: subtype_edges_def set_zip in_set_conv_nth)

lemma subtype_edges_into: "(a, int j) \<in> set (subtype_edges s) \<longleftrightarrow> (\<exists>i. a = int i \<and> (i, j) \<in> subtype_rel s)"
  by (auto simp: subtype_edges_mem subtype_rel_def get_entity_id_def split: option.splits)

lemma subtype_acc: "int j \<in> Wellfounded.acc (set (subtype_edges s)) \<longleftrightarrow> j \<in> Wellfounded.acc (subtype_rel s)"
proof
  assume "int j \<in> Wellfounded.acc (set (subtype_edges s))"
  then show "j \<in> Wellfounded.acc (subtype_rel s)"
  proof (induction "int j" arbitrary: j rule: acc.induct)
    case accI
    show ?case
    proof (rule acc.accI)
      fix i assume "(i, j) \<in> subtype_rel s"
      then show "i \<in> Wellfounded.acc (subtype_rel s)" using accI(2) by (simp add: subtype_edges_into)
    qed
  qed
next
  assume "j \<in> Wellfounded.acc (subtype_rel s)"
  then show "int j \<in> Wellfounded.acc (set (subtype_edges s))"
  proof (induction rule: acc.induct)
    case (accI j)
    show ?case
    proof (rule acc.accI)
      fix a assume "(a, int j) \<in> set (subtype_edges s)"
      then show "a \<in> Wellfounded.acc (set (subtype_edges s))" using accI.IH by (auto simp: subtype_edges_into)
    qed
  qed
qed

lemma subtype_nodes: "int j \<in> fst ` set (subtype_edges s) \<union> snd ` set (subtype_edges s) \<longleftrightarrow> j \<in> linked s"
proof -
  have "int j \<in> snd ` set (subtype_edges s) \<longleftrightarrow> j \<in> Range (subtype_rel s)"
  proof -
    have "int j \<in> snd ` set (subtype_edges s) \<longleftrightarrow> (\<exists>a. (a, int j) \<in> set (subtype_edges s))" by force
    then show ?thesis by (auto simp: subtype_edges_into)
  qed
  moreover have "int j \<in> fst ` set (subtype_edges s) \<longleftrightarrow> j < length (entities s) \<and> subtypes (entities s ! j) \<noteq> []"
  proof -
    have "int j \<in> fst ` set (subtype_edges s) \<longleftrightarrow> (\<exists>b. (int j, b) \<in> set (subtype_edges s))" by force
    also have "\<dots> \<longleftrightarrow> j < length (entities s) \<and> (\<exists>p. p \<in> set (subtypes (entities s ! j)))"
      unfolding subtype_edges_mem by auto
    finally show ?thesis by (metis ex_in_conv set_empty)
  qed
  ultimately show ?thesis by (auto simp: linked_def)
qed

text \<open>The order in which the entities of a schema are sorted.\<close>

lemma entity_order:
  assumes t: "topo_sort (build (subtype_edges s)) = Some (order, g)"
  shows "distinct order" "int j \<in> set order \<longleftrightarrow> j \<in> linked s \<inter> Wellfounded.acc (subtype_rel s)"
    "(i, j) \<in> subtype_rel s \<Longrightarrow> order = xs @ int j # ys \<Longrightarrow> int i \<in> set xs"
    "set order \<subseteq> fst ` set (subtype_edges s) \<union> snd ` set (subtype_edges s)"
proof -
  have b: "graph_ok (build (subtype_edges s))"
    "nodes (build (subtype_edges s)) = fst ` set (subtype_edges s) \<union> snd ` set (subtype_edges s)"
    "edge_rel (build (subtype_edges s)) = set (subtype_edges s)" using build_ok by auto
  from topo_sort_ok[OF b(1)] t have o: "distinct order" "ordered (build (subtype_edges s)) order"
    "set order = nodes (build (subtype_edges s)) \<inter> Wellfounded.acc (edge_rel (build (subtype_edges s)))" by auto
  show "distinct order" by (rule o(1))
  show "int j \<in> set order \<longleftrightarrow> j \<in> linked s \<inter> Wellfounded.acc (subtype_rel s)"
    using o(3) subtype_nodes[of j s] subtype_acc[of j s] by (simp add: b)
  show "set order \<subseteq> fst ` set (subtype_edges s) \<union> snd ` set (subtype_edges s)" using o(3) b(2) by auto
  assume i: "(i, j) \<in> subtype_rel s" and x: "order = xs @ int j # ys"
  have "int i \<in> preds (build (subtype_edges s)) (int j)"
    using i b(3) subtype_edges_into[of "int i" j s] by (auto simp: edge_rel_def preds_def)
  moreover have "preds (build (subtype_edges s)) (order ! length xs) \<subseteq> set (take (length xs) order)"
    using o(2)[unfolded ordered_def, rule_format, of "length xs"] x by simp
  ultimately show "int i \<in> set xs" using x by auto
qed

text \<open>The tables: entity numbers with their statements.\<close>

lemma tables_of:
  assumes "each (\<lambda>k. case find_entity_by_id k s of None \<Rightarrow> Some (Inl Undefined) | Some e \<Rightarrow> create_pgsql_for_entity s e) order =
    Some (Inr stmts)"
  shows "\<exists>is. order = map int is \<and> (\<forall>i \<in> set is. i < length (entities s)) \<and>
    list_all2 (\<lambda>i x. create_pgsql_for_entity s (entities s ! i) = Some (Inr x)) is stmts"
  using assms[unfolded each_Some_Inr]
proof (induction rule: list_all2_induct)
  case (Cons k order x stmts)
  then obtain "is" where i: "order = map int is" "\<forall>i \<in> set is. i < length (entities s)"
    "list_all2 (\<lambda>i x. create_pgsql_for_entity s (entities s ! i) = Some (Inr x)) is stmts" by blast
  have k: "\<not> (k < 0 \<or> k \<ge> int (length (entities s)))" "create_pgsql_for_entity s (entities s ! nat k) = Some (Inr x)"
    using Cons(1) by (auto simp: find_entity_by_id_def split: if_splits)
  then show ?case using i by (intro exI[of _ "nat k # is"]) auto
qed (auto intro: exI[of _ "[]"])

text \<open>C16. A script that is generated consists of the two fixed types, the enumerations, and one statement per entity
  that has or is a subtype: each once, every supertype before the subtypes it lists. Entities outside every hierarchy
  get no table at all, and neither do those on or behind a cycle.\<close>

theorem sql_orders_tables:
  assumes "generate_pgsql_for_schema s = Some (Inr script)"
  shows "\<exists>order stmts enums. script = sql_preamble @ enums @ concat (map (\<lambda>x. x @ nl) stmts) \<and> sql_enums s = Inr enums \<and>
    list_all2 (\<lambda>i x. create_pgsql_for_entity s (entities s ! i) = Some (Inr x)) order stmts \<and>
    distinct order \<and> set order = linked s \<inter> Wellfounded.acc (subtype_rel s) \<and>
    (\<forall>(i, j) \<in> subtype_rel s. \<forall>xs ys. order = xs @ j # ys \<longrightarrow> i \<in> set xs)"
proof -
  let ?f = "\<lambda>k. case find_entity_by_id k s of None \<Rightarrow> Some (Inl Undefined) | Some e \<Rightarrow> create_pgsql_for_entity s e"
  obtain enums order g stmts where en: "sql_enums s = Inr enums" and t: "topo_sort (build (subtype_edges s)) = Some (order, g)"
    and st: "each ?f order = Some (Inr stmts)" and sc: "script = sql_preamble @ enums @ concat (map (\<lambda>x. x @ nl) stmts)"
    using assms unfolding generate_pgsql_for_schema_def
    by (auto simp: obind_Some_Inr simp del: each.simps split: if_splits option.splits list.splits)
  obtain "is" where i: "order = map int is" "\<forall>i \<in> set is. i < length (entities s)"
    "list_all2 (\<lambda>i x. create_pgsql_for_entity s (entities s ! i) = Some (Inr x)) is stmts"
    using tables_of[OF st] by blast
  note o = entity_order[OF t]
  have "distinct is" using o(1) i(1) by (simp add: distinct_map)
  moreover have "set is = linked s \<inter> Wellfounded.acc (subtype_rel s)"
  proof (rule set_eqI)
    fix j show "j \<in> set is \<longleftrightarrow> j \<in> linked s \<inter> Wellfounded.acc (subtype_rel s)" using o(2)[of j] i(1) by auto
  qed
  moreover have "a \<in> set xs" if "(a, b) \<in> subtype_rel s" "is = xs @ b # ys" for a b xs ys
    using o(3)[OF that(1), of "map int xs" "map int ys"] that(2) i(1) by auto
  ultimately show ?thesis using sc en i(3) by (intro exI[of _ "is"] exI[of _ stmts] exI[of _ enums]) auto
qed


lemma each_returns: "(\<And>x. x \<in> set xs \<Longrightarrow> \<exists>y. f x = Some (Inr y)) \<Longrightarrow> \<exists>ys. each f xs = Some (Inr ys)"
proof (induction xs)
  case (Cons x xs)
  obtain y where "f x = Some (Inr y)" using Cons.prems by force
  moreover obtain ys where "each f xs = Some (Inr ys)" using Cons by force
  ultimately show ?case by simp
qed simp

text \<open>A schema as the grammar builds it from a consistent source: every entity has its body, every subtype is known
  and names its supertype, there is a hierarchy and it has no cycle, and the types of attributes end in a type with an
  SQL name.\<close>

definition castable :: "exp_schema \<Rightarrow> nat \<Rightarrow> bool" where
  "castable s a \<longleftrightarrow> (\<exists>b k n. chain s a b k \<and> sql_base (type_store s ! b) = Inr n)"

definition complete :: "exp_schema \<Rightarrow> bool" where
  "complete s \<longleftrightarrow>
     schema_ok s \<and> acyclic (subtype_rel s) \<and> subtype_rel s \<noteq> {} \<and>
     (\<forall>e \<in> set (entities s). assigned e \<and> None \<notin> set (subtypes e) \<and> (\<forall>x \<in> set (attrs e). castable s (attr_type x))) \<and>
     (\<forall>j < length (entities s). \<forall>i. supertype (entities s ! j) = Some i \<longrightarrow> (i, j) \<in> subtype_rel s)"

lemma completeD:
  assumes "complete s"
  shows "schema_ok s" "acyclic (subtype_rel s)" "subtype_rel s \<noteq> {}"
    "e \<in> set (entities s) \<Longrightarrow> assigned e \<and> None \<notin> set (subtypes e) \<and> (\<forall>x \<in> set (attrs e). castable s (attr_type x))"
    "j < length (entities s) \<Longrightarrow> supertype (entities s ! j) = Some i \<Longrightarrow> (i, j) \<in> subtype_rel s"
  using assms unfolding complete_def by blast+

lemma subtype_rel_range: "schema_ok s \<Longrightarrow> (i, j) \<in> subtype_rel s \<Longrightarrow> i < length (entities s) \<and> j < length (entities s)"
proof -
  assume ok: "schema_ok s" and r: "(i, j) \<in> subtype_rel s"
  then have "entity_ok s (entities s ! i)" by (simp add: schema_ok_def subtype_rel_def)
  then show ?thesis using r by (auto simp: entity_ok_def subtype_rel_def)
qed

lemma create_returns:
  assumes "assigned e" "\<forall>x \<in> set (attrs e). castable s (attr_type x)"
  shows "\<exists>x. create_pgsql_for_entity s e = Some (Inr x)"
proof -
  have "\<exists>cols. each (sql_column s) (attrs e) = Some (Inr cols)"
  proof (rule each_returns)
    fix x assume "x \<in> set (attrs e)"
    then show "\<exists>y. sql_column s x = Some (Inr y)"
      using assms(2) typecast_complete[of s "attr_type x"] by (fastforce simp: castable_def sql_column_def)
  qed
  then show ?thesis using assms(1) by (auto simp: create_pgsql_for_entity_def Let_def)
qed

lemma rmap_returns: "(\<And>x. x \<in> set xs \<Longrightarrow> \<exists>y. f x = Inr y) \<Longrightarrow> \<exists>ys. rmap f xs = Inr ys"
proof (induction xs)
  case (Cons x xs)
  obtain y where "f x = Inr y" using Cons.prems by force
  moreover obtain ys where "rmap f xs = Inr ys" using Cons by force
  ultimately show ?case by simp
qed simp

lemma enums_return:
  assumes ok: "schema_ok s"
  shows "\<exists>enums. sql_enums s = Inr enums"
proof -
  have "\<exists>ys. rmap (\<lambda>a. rbind (create_pgsql_for_enum (type_store s ! a)) (\<lambda>x. Inr (x @ nl)))
      (filter (\<lambda>a. ty_kind (type_store s ! a) = T_ENUM) (types s)) = Inr ys"
  proof (rule rmap_returns)
    fix a assume "a \<in> set (filter (\<lambda>a. ty_kind (type_store s ! a) = T_ENUM) (types s))"
    then obtain n where "ty_name (type_store s ! a) = Some n" using ok by (auto simp: schema_ok_def)
    then show "\<exists>y. rbind (create_pgsql_for_enum (type_store s ! a)) (\<lambda>x. Inr (x @ nl)) = Inr y"
      by (simp add: create_pgsql_for_enum_def cstring_def)
  qed
  then show ?thesis by (auto simp: sql_enums_def)
qed

lemma complete_acc: "complete s \<Longrightarrow> j \<in> Wellfounded.acc (subtype_rel s)"
proof -
  assume c: "complete s"
  then have ok: "schema_ok s" and acy: "acyclic (subtype_rel s)" by (auto simp: complete_def)
  have "finite (subtype_rel s)"
  proof (rule finite_subset)
    show "subtype_rel s \<subseteq> {..<length (entities s)} \<times> {..<length (entities s)}"
      by (rule subrelI) (use subtype_rel_range[OF ok] in simp)
  qed simp
  then show ?thesis by (rule acc_wfD[OF finite_acyclic_wf[OF _ acy]])
qed

lemma complete_linked:
  assumes c: "complete s"
  shows "linked s = Field (subtype_rel s)"
proof -
  have "\<exists>j. (i, j) \<in> subtype_rel s" if "i < length (entities s)" "subtypes (entities s ! i) \<noteq> []" for i
  proof -
    have "hd (subtypes (entities s ! i)) \<noteq> None"
      using c that nth_mem[of i "entities s"] unfolding complete_def by (metis list.set_sel(1))
    then show ?thesis using that by (auto simp: subtype_rel_def) (metis list.set_sel(1))
  qed
  then show ?thesis by (auto simp: linked_def Field_def subtype_rel_def)
qed

lemma complete_edge:
  assumes "complete s" "(x, y) \<in> set (subtype_edges s)"
  shows "\<exists>i j. x = int i \<and> y = int j"
  using assms by (fastforce simp: subtype_edges_mem get_entity_id_def complete_def split: option.splits)

text \<open>The order of the tables of a consistent schema: the entities of its hierarchies, and first one without a
  supertype.\<close>

lemma complete_order:
  assumes c: "complete s" and t: "topo_sort (build (subtype_edges s)) = Some (order, g)"
  shows "\<exists>is. order = map int is \<and> distinct is \<and> set is = Field (subtype_rel s)"
proof -
  note o = entity_order[OF t]
  have at: "int j \<in> set order \<longleftrightarrow> j \<in> Field (subtype_rel s)" for j
    using o(2)[of j] complete_acc[OF c] complete_linked[OF c] by auto
  have "\<exists>i. k = int i" if "k \<in> set order" for k
    using o(4) that complete_edge[OF c] by fastforce
  then obtain f where "\<And>k. k \<in> set order \<Longrightarrow> k = int (f k)" by metis
  then have i: "order = map int (map f order)" by (simp add: map_idI)
  define "is" where "is = map f order"
  have om: "order = map int is" unfolding is_def by (rule i)
  then have "distinct is" using o(1) by (simp add: distinct_map)
  moreover have "set is = Field (subtype_rel s)"
    using at by (auto simp: om image_iff)
  ultimately show ?thesis using om by blast
qed

lemma complete_first:
  assumes c: "complete s" and t: "topo_sort (build (subtype_edges s)) = Some (int r # rest, g)"
    and r: "r < length (entities s)"
  shows "supertype (entities s ! r) = None"
proof (rule ccontr)
  assume "supertype (entities s ! r) \<noteq> None"
  then obtain i where "(i, r) \<in> subtype_rel s" using completeD(5)[OF c r] by blast
  from entity_order(3)[OF t this, of "[]" rest] show False by simp
qed

lemma tables_return:
  assumes c: "complete s" and r: "\<forall>i \<in> set is. i < length (entities s)"
  shows "\<exists>stmts. each (\<lambda>k. case find_entity_by_id k s of None \<Rightarrow> Some (Inl Undefined)
    | Some e \<Rightarrow> create_pgsql_for_entity s e) (map int is) = Some (Inr stmts)"
proof (rule each_returns)
  fix k assume "k \<in> set (map int is)"
  then obtain j where j: "k = int j" "j < length (entities s)" using r by auto
  then have "\<exists>x. create_pgsql_for_entity s (entities s ! j) = Some (Inr x)"
    using c by (intro create_returns) (auto simp: complete_def)
  then show "\<exists>y. (case find_entity_by_id k s of None \<Rightarrow> Some (Inl Undefined)
      | Some e \<Rightarrow> create_pgsql_for_entity s e) = Some (Inr y)"
    using j by (simp add: find_entity_by_id_def)
qed

text \<open>C38. For a consistent schema the script is generated, and it has a table for every entity that has or is a
  subtype.\<close>

theorem sql_generated:
  assumes c: "complete s"
  shows "\<exists>script order stmts enums. generate_pgsql_for_schema s = Some (Inr script) \<and>
    script = sql_preamble @ enums @ concat (map (\<lambda>x. x @ nl) stmts) \<and>
    list_all2 (\<lambda>i x. create_pgsql_for_entity s (entities s ! i) = Some (Inr x)) order stmts \<and>
    distinct order \<and> set order = Field (subtype_rel s)"
proof -
  have ok: "schema_ok s" using c by (simp add: complete_def)
  have len: "j < length (entities s)" if "j \<in> Field (subtype_rel s)" for j
    using that subtype_rel_range[OF ok] by (auto simp: Field_def)
  obtain enums where en: "sql_enums s = Inr enums" using enums_return[OF ok] by blast
  obtain order g where t: "topo_sort (build (subtype_edges s)) = Some (order, g)"
    using topo_sort_ok build_ok by blast
  obtain "is" where i: "order = map int is" "distinct is" "set is = Field (subtype_rel s)"
    using complete_order[OF c t] by blast
  have "Field (subtype_rel s) \<noteq> {}" using c by (auto simp: complete_def Field_def)
  then obtain r rest where r: "is = r # rest" "r \<in> Field (subtype_rel s)"
    using i(3) by (cases "is") auto
  have root: "supertype (entities s ! r) = None"
    by (rule complete_first[OF c _ len[OF r(2)]]) (use t i(1) r(1) in simp)
  obtain stmts where st: "each (\<lambda>k. case find_entity_by_id k s of None \<Rightarrow> Some (Inl Undefined)
      | Some e \<Rightarrow> create_pgsql_for_entity s e) order = Some (Inr stmts)"
    using tables_return[OF c] len i(1,3) by blast
  have gen: "generate_pgsql_for_schema s = Some (Inr (sql_preamble @ enums @ concat (map (\<lambda>x. x @ nl) stmts)))"
    using en t st i(1) r(1) root len[OF r(2)] c
    by (simp add: generate_pgsql_for_schema_def find_entity_by_id_def complete_def list_all_iff del: each.simps)
  obtain js where j: "order = map int js"
    "list_all2 (\<lambda>i x. create_pgsql_for_entity s (entities s ! i) = Some (Inr x)) js stmts"
    using tables_of[OF st] by blast
  have "js = is" using i(1) j(1) by (simp add: inj_map_eq_map[OF inj_of_nat])
  then show ?thesis using gen j(2) i(2,3) by blast
qed


text \<open>A schema with one hierarchy, \<open>D\<close> below \<open>B\<close> with an attribute, and an entity outside of it.\<close>

definition family :: exp_schema where
  "family =
     \<lparr>type_store = [new_type\<lparr>ty_name := Some ''a'', ty_schema := True, ty_kind := T_REAL, is_list := True\<rparr>,
                    new_type\<lparr>ty_name := Some ''m'', ty_schema := True, ty_kind := T_DERIVED, ref_type := Some (TypeDesc 0)\<rparr>],
      types = [0, 1],
      entities = [(new_entity ''D'')\<lparr>assigned := True, supertype := Some 1,
                     attrs := [\<lparr>attr_name = ''c'', attr_type = 1, is_optional = False\<rparr>]\<rparr>,
                  (new_entity ''B'')\<lparr>assigned := True, subtypes := [Some 0]\<rparr>,
                  (new_entity ''E'')\<lparr>assigned := True\<rparr>]\<rparr>"

lemma family_rel: "subtype_rel family = {(1, 0)}"
  by (auto simp: subtype_rel_def family_def new_entity_def nth_Cons less_Suc_eq split: nat.splits if_splits)

lemma family_complete: "complete family"
proof -
  have ok: "schema_ok family"
    by (auto simp: schema_ok_def type_ok_def entity_ok_def desc_ok_def family_def new_type_def new_entity_def max_nums)
  have "chain family 0 0 1" using chain_end[of family 0] by (simp add: family_def new_type_def)
  then have "chain family 1 0 1" using chain_step[of family 1 0 0 1] by (simp add: family_def new_type_def)
  moreover have "sql_base (type_store family ! 0) = Inr ''REAL''" by (simp add: family_def new_type_def sql_base_def)
  ultimately have "castable family 1" unfolding castable_def by blast
  moreover have "acyclic (subtype_rel family)" by (simp add: family_rel acyclic_insert) (simp add: acyclic_def)
  moreover have "\<forall>e \<in> set (entities family). assigned e \<and> None \<notin> set (subtypes e) \<and> (\<forall>x \<in> set (attrs e). castable family (attr_type x))"
    using \<open>castable family 1\<close> by (simp add: family_def new_entity_def)
  moreover have "\<forall>j < length (entities family). \<forall>i. supertype (entities family ! j) = Some i \<longrightarrow> (i, j) \<in> subtype_rel family"
    unfolding family_rel by (auto simp: family_def new_entity_def nth_Cons less_Suc_eq split: nat.splits)
  ultimately show ?thesis using ok unfolding complete_def family_rel by blast
qed

theorem sql_generated_witness:
  "complete family \<and> (\<exists>script order. generate_pgsql_for_schema family = Some (Inr script) \<and> distinct order \<and> set order = {1, 0 :: nat})"
proof -
  have "Field (subtype_rel family) = {1, 0}" by (simp add: family_rel)
  moreover obtain script order where "generate_pgsql_for_schema family = Some (Inr script)" "distinct order"
      "set order = Field (subtype_rel family)"
    using sql_generated[OF family_complete] by blast
  ultimately show ?thesis using family_complete by blast
qed

lemma family_sort: "topo_sort (build (subtype_edges family)) = Some ([1, 0], \<lparr>graph = [(0, []), (1, [0])], in_degree = [(0, 0), (1, 0)]\<rparr>)"
proof -
  have "subtype_edges family = [(1, 0)]"
    by (simp add: subtype_edges_def family_def new_entity_def get_entity_id_def upt_rec)
  then have "build (subtype_edges family) = \<lparr>graph = [(0, []), (1, [0])], in_degree = [(0, 1), (1, 0)]\<rparr>"
    by (simp add: build_def add_edge_def add_node_def new_graph_def edges_of_def degree_def)
  then show ?thesis by (simp add: topo_sort_def topo_loop.simps edges_of_def degree_def Let_def)
qed

lemma family_script: "\<exists>script. generate_pgsql_for_schema family = Some (Inr script)"
proof -
  have "\<exists>x. create_pgsql_for_entity family (entities family ! i) = Some (Inr x)" if "i < length (entities family)" for i
    using family_complete that by (intro create_returns) (auto simp: complete_def)
  from this[of 0] this[of 1] obtain x y where
    "create_pgsql_for_entity family (entities family ! 0) = Some (Inr x)"
    "create_pgsql_for_entity family (entities family ! 1) = Some (Inr y)"
    by (auto simp: family_def)
  moreover obtain enums where "sql_enums family = Inr enums" using enums_return[OF completeD(1)[OF family_complete]] by blast
  moreover have "list_all assigned (entities family)" "length (entities family) = 3" "supertype (entities family ! 1) = None"
    by (simp_all add: family_def new_entity_def)
  ultimately show ?thesis by (simp add: generate_pgsql_for_schema_def family_sort find_entity_by_id_def)
qed

theorem sql_orders_tables_witness:
  "\<exists>script order. generate_pgsql_for_schema family = Some (Inr script) \<and> set order \<subseteq> linked family \<and> order \<noteq> [] \<and>
     (\<forall>xs ys. order = xs @ 0 # ys \<longrightarrow> 1 \<in> set xs)"
proof -
  obtain script where s: "generate_pgsql_for_schema family = Some (Inr script)" using family_script by blast
  from sql_orders_tables[OF s] obtain order where o: "set order = linked family \<inter> Wellfounded.acc (subtype_rel family)"
    "\<forall>(i, j) \<in> subtype_rel family. \<forall>xs ys. order = xs @ j # ys \<longrightarrow> i \<in> set xs" by blast
  have "1 \<in> linked family" by (simp add: linked_def family_def new_entity_def)
  moreover have "1 \<in> Wellfounded.acc (subtype_rel family)" by (rule acc.accI) (simp add: family_rel)
  ultimately have "1 \<in> set order" using o(1) by blast
  then show ?thesis using s o by (intro exI[of _ script] exI[of _ order]) (auto simp: family_rel)
qed

end
