(* ===== verification/Express_Print.thy ===== *)
theory Express_Print
  imports Express_Sql
begin

text \<open>
  Printing a type (\<open>serialize_type_tree\<close> in \<open>express_parser/express_defs.c\<close>): a recursion through the bases and
  choices of a type that writes with \<open>snprintf\<close> into a buffer of limited size. The text in the buffer is cut where it
  is full; the buffer grows before a child is appended, but not for the items of an enumeration. \<open>None\<close> is a recursion
  that does not end.
\<close>

section \<open>The buffer\<close>

definition BUFFER_SIZE :: nat where "BUFFER_SIZE = 1024"

record print_buffer =
  written :: string
  buf_size :: nat

definition snprint :: "string \<Rightarrow> print_buffer \<Rightarrow> print_buffer" where
  "snprint x b = b\<lparr>written := written b @ take (buf_size b - length (written b) - 1) x\<rparr>"

definition resize_buffer :: "nat \<Rightarrow> print_buffer \<Rightarrow> print_buffer" where
  "resize_buffer new_size b = (if new_size > buf_size b then b\<lparr>buf_size := new_size\<rparr> else b)"

text \<open>The room \<open>resize_buffer\<close> is asked for, on top of what is written.\<close>

definition snprint_resized :: "nat \<Rightarrow> string \<Rightarrow> print_buffer \<Rightarrow> print_buffer" where
  "snprint_resized extra x b = snprint x (resize_buffer (length (written b) + extra) b)"

section \<open>The tree\<close>

definition TYPE_NAMES :: "string list" where
  "TYPE_NAMES =
     [''REAL'', ''NUMBER'', ''INTEGER'', ''BOOLEAN'', ''BINARY'', ''LOGICAL'', ''STRING'', ''ENTITY'', ''ENUM'', ''SELECT'',
      ''UNKNOWN'']"

text \<open>The value of the enumerator; the last two kinds have no name in the array.\<close>

fun kind_index :: "TypeEnum \<Rightarrow> nat" where
  "kind_index T_REAL = 0"
| "kind_index T_NUMBER = 1"
| "kind_index T_INTEGER = 2"
| "kind_index T_BOOLEAN = 3"
| "kind_index T_BINARY = 4"
| "kind_index T_LOGICAL = 5"
| "kind_index T_STRING = 6"
| "kind_index T_ENTITY = 7"
| "kind_index T_ENUM = 8"
| "kind_index T_SELECT = 9"
| "kind_index T_DERIVED = 10"
| "kind_index T_REFERENCE = 11"
| "kind_index T_UNKNOWN = 12"

definition kind_name :: "TypeEnum \<Rightarrow> string res" where
  "kind_name k = (if kind_index k < length TYPE_NAMES then Inr (TYPE_NAMES ! kind_index k) else Inl Undefined)"

definition desc_name :: "exp_schema \<Rightarrow> exp_desc \<Rightarrow> string res" where
  "desc_name s d =
     (case d of TypeDesc a \<Rightarrow> cstring (ty_name (type_store s ! a)) | EntityDesc i \<Rightarrow> Inr (en_name (entities s ! i)))"

definition child_of :: "exp_schema \<Rightarrow> exp_desc \<Rightarrow> exp_desc option" where
  "child_of s d =
     (case d of
        TypeDesc a \<Rightarrow> if ty_kind (type_store s ! a) = T_DERIVED then ref_type (type_store s ! a) else Some d
      | EntityDesc _ \<Rightarrow> Some d)"

text \<open>One choice of a select type. \<open>rec\<close> prints a type of its own.\<close>

definition put_choice :: "(nat \<Rightarrow> string res option) \<Rightarrow> exp_schema \<Rightarrow> exp_desc \<Rightarrow> print_buffer \<Rightarrow> print_buffer res option" where
  "put_choice rec s d b =
     (case child_of s d of
        None \<Rightarrow> Some (Inl Undefined)
      | Some (EntityDesc i) \<Rightarrow>
          (let n = en_name (entities s ! i) in Some (Inr (snprint_resized (length n + 20) (''[ENTITY '' @ n @ '']'') b)))
      | Some (TypeDesc a) \<Rightarrow>
          (let t = type_store s ! a
           in if ty_kind t = T_SELECT \<or> ty_kind t = T_ENUM \<or> ty_kind t \<noteq> T_ENTITY \<and> is_list t then
                obind (rec a) (\<lambda>x. Some (Inr (snprint_resized (length x + 2) x b)))
              else
                obind (Some (cstring (ty_name t))) (\<lambda>n.
                  if ty_kind t = T_ENTITY then Some (Inr (snprint_resized (length n + 20) (''[ENTITY '' @ n @ '']'') b))
                  else obind (Some (kind_name (ty_kind t))) (\<lambda>k.
                    Some (Inr (snprint_resized (length n + length k + 5) (''['' @ n @ '' '' @ k @ '']'') b))))))"

fun put_choices :: "(nat \<Rightarrow> string res option) \<Rightarrow> exp_schema \<Rightarrow> exp_desc list \<Rightarrow> print_buffer \<Rightarrow> print_buffer res option" where
  "put_choices rec s [] b = Some (Inr b)"
| "put_choices rec s (d # ds) b =
     obind (put_choice rec s d b) (\<lambda>b1. put_choices rec s ds (snprint (if ds = [] then '')'' else ''|'') b1))"

fun put_items :: "string list \<Rightarrow> print_buffer \<Rightarrow> print_buffer" where
  "put_items [] b = b"
| "put_items (x # xs) b = put_items xs (snprint (if xs = [] then ''>'' else '','') (snprint x b))"

lemma obind_bind: "obind m g = Option.bind m (\<lambda>r. case r of Inl e \<Rightarrow> Some (Inl e) | Inr x \<Rightarrow> g x)"
  by (simp add: obind_def split: option.splits sum.splits)

lemma obind_mono [partial_function_mono]:
  assumes "mono_option A" "\<And>y. mono_option (\<lambda>f. B f y)"
  shows "mono_option (\<lambda>f. obind (A f) (B f))"
proof -
  have "mono_option (\<lambda>f. case r of Inl e \<Rightarrow> Some (Inl e) | Inr x \<Rightarrow> B f x)" for r
    using assms(2) by (cases r) (simp_all add: option.const_mono)
  then show ?thesis unfolding obind_bind using assms(1) by (intro bind_mono)
qed

lemma put_choice_mono [partial_function_mono]:
  assumes "\<And>a. mono_option (\<lambda>f. G f a)"
  shows "mono_option (\<lambda>f. put_choice (G f) s d b)"
proof (cases "child_of s d")
  case (Some c)
  show ?thesis
  proof (cases c)
    case (TypeDesc a)
    let ?t = "type_store s ! a"
    show ?thesis
    proof (cases "ty_kind ?t = T_SELECT \<or> ty_kind ?t = T_ENUM \<or> ty_kind ?t \<noteq> T_ENTITY \<and> is_list ?t")
      case True
      then show ?thesis using assms Some TypeDesc by (simp add: put_choice_def option.const_mono obind_mono)
    next
      case False
      show ?thesis
        unfolding put_choice_def Some TypeDesc Let_def option.case exp_desc.case if_not_P[OF False] by (rule option.const_mono)
    qed
  qed (simp add: Some put_choice_def option.const_mono)
qed (simp add: put_choice_def option.const_mono)

lemma put_choices_mono [partial_function_mono]:
  "(\<And>a. mono_option (\<lambda>f. G f a)) \<Longrightarrow> mono_option (\<lambda>f. put_choices (G f) s ds b)"
  by (induction ds arbitrary: b) (simp_all add: option.const_mono obind_mono put_choice_mono)

text \<open>The beginning, common to all kinds: an opening bracket, the list flag and, but for a reference, the name.\<close>

definition open_bracket :: "exp_type \<Rightarrow> print_buffer" where
  "open_bracket t =
     (let b = snprint '' '' (snprint ''['' \<lparr>written = [], buf_size = BUFFER_SIZE\<rparr>)
      in if is_list t then snprint ''LIST OF '' b else b)"

partial_function (option) serialize_type_tree :: "exp_schema \<Rightarrow> nat \<Rightarrow> string res option" where
  "serialize_type_tree s a =
     (let t = type_store s ! a;
          b = open_bracket t;
          b1 = (case ty_name t of None \<Rightarrow> b | Some n \<Rightarrow> snprint n b)
      in if ty_kind t = T_REFERENCE then
           (case ref_type t of
              None \<Rightarrow> Some (Inl Undefined)
            | Some d \<Rightarrow> obind (Some (desc_name s d)) (\<lambda>n. Some (Inr (written (snprint (''ENTITY '' @ n @ '']'') b)))))
         else if ty_kind t = T_DERIVED then
           (case ref_type t of
              None \<Rightarrow> Some (Inl Assert_failed)
            | Some (EntityDesc _) \<Rightarrow> Some (Inl Undefined)
            | Some (TypeDesc c) \<Rightarrow>
                obind (serialize_type_tree s c) (\<lambda>x. Some (Inr (written (snprint_resized (length x + 2) x b1)))))
         else if ty_kind t = T_SELECT then
           (if select_list t = [] then Some (Inl Assert_failed)
            else obind (put_choices (\<lambda>c. serialize_type_tree s c) s (select_list t) (snprint ''SELECT OF ('' b1)) (\<lambda>b2.
              Some (Inr (written (snprint '']'' b2)))))
         else if ty_kind t = T_ENUM then
           (if enum_list t = [] then Some (Inl Assert_failed)
            else Some (Inr (written (snprint '']'' (put_items (enum_list t) (snprint ''ENUMERATION OF <'' b1))))))
         else obind (Some (kind_name (ty_kind t))) (\<lambda>k. Some (Inr (written (snprint '']'' (snprint k b1))))))"


section \<open>What is printed\<close>

text \<open>The specification: the words of the printed text and where it is cut, written without the tables and the buffer
  of the printer. A text of its own ends where the first buffer is full; the text of a part is always complete.\<close>

fun joined :: "string \<Rightarrow> string list \<Rightarrow> string" where
  "joined sep [] = []"
| "joined sep [x] = x"
| "joined sep (x # xs) = x @ sep @ joined sep xs"

definition shorten :: "string \<Rightarrow> string" where "shorten x = take 1023 x"

fun printed_kind :: "TypeEnum \<Rightarrow> string option" where
  "printed_kind T_REAL = Some ''REAL''"
| "printed_kind T_NUMBER = Some ''NUMBER''"
| "printed_kind T_INTEGER = Some ''INTEGER''"
| "printed_kind T_BOOLEAN = Some ''BOOLEAN''"
| "printed_kind T_BINARY = Some ''BINARY''"
| "printed_kind T_LOGICAL = Some ''LOGICAL''"
| "printed_kind T_STRING = Some ''STRING''"
| "printed_kind T_ENTITY = Some ''ENTITY''"
| "printed_kind T_ENUM = Some ''ENUM''"
| "printed_kind T_SELECT = Some ''SELECT''"
| "printed_kind T_DERIVED = Some ''UNKNOWN''"
| "printed_kind T_REFERENCE = None"
| "printed_kind T_UNKNOWN = None"

fun named :: "exp_schema \<Rightarrow> exp_desc \<Rightarrow> string \<Rightarrow> bool" where
  "named s (TypeDesc a) n \<longleftrightarrow> ty_name (type_store s ! a) = Some n"
| "named s (EntityDesc i) n \<longleftrightarrow> n = en_name (entities s ! i)"

text \<open>A derived type stands for its base, any other choice for itself.\<close>

fun stands_for :: "exp_schema \<Rightarrow> exp_desc \<Rightarrow> exp_desc \<Rightarrow> bool" where
  "stands_for s (EntityDesc i) c \<longleftrightarrow> c = EntityDesc i"
| "stands_for s (TypeDesc a) c \<longleftrightarrow>
     ty_kind (type_store s ! a) = T_DERIVED \<and> ref_type (type_store s ! a) = Some c \<or>
     ty_kind (type_store s ! a) \<noteq> T_DERIVED \<and> c = TypeDesc a"

definition head_text :: "exp_type \<Rightarrow> string" where
  "head_text t = ''[ '' @ (if is_list t then ''LIST OF '' else [])"

definition name_text :: "exp_type \<Rightarrow> string" where
  "name_text t = (case ty_name t of None \<Rightarrow> [] | Some n \<Rightarrow> n)"

definition nested :: "exp_type \<Rightarrow> bool" where
  "nested t \<longleftrightarrow> ty_kind t = T_SELECT \<or> ty_kind t = T_ENUM \<or> ty_kind t \<noteq> T_ENTITY \<and> is_list t"

text \<open>The room there is after the choices of a select type: each is written with some characters to spare, and is
  followed by one separator. The closing bracket of the type needs what the last choices have left.\<close>

fun select_room :: "nat \<Rightarrow> nat \<Rightarrow> (string \<times> nat) list \<Rightarrow> nat" where
  "select_room w n [] = n"
| "select_room w n ((x, k) # ys) = select_room (w + length x + 1) (max n (w + length x + k)) ys"

definition closing :: "string \<Rightarrow> nat \<Rightarrow> string" where
  "closing x room = (if length x + 1 < room then x @ '']'' else x)"

inductive tree_text :: "exp_schema \<Rightarrow> nat \<Rightarrow> string \<Rightarrow> bool"
  and choice_text :: "exp_schema \<Rightarrow> exp_desc \<Rightarrow> string \<Rightarrow> nat \<Rightarrow> bool" where
  reference_text: "t = type_store s ! a \<Longrightarrow> ty_kind t = T_REFERENCE \<Longrightarrow> ref_type t = Some d \<Longrightarrow> named s d n \<Longrightarrow>
    tree_text s a (shorten (head_text t @ ''ENTITY '' @ n @ '']''))"
| derived_text: "t = type_store s ! a \<Longrightarrow> ty_kind t = T_DERIVED \<Longrightarrow> ref_type t = Some (TypeDesc c) \<Longrightarrow> tree_text s c x \<Longrightarrow>
    tree_text s a (shorten (head_text t @ name_text t) @ x)"
| select_text: "t = type_store s ! a \<Longrightarrow> ty_kind t = T_SELECT \<Longrightarrow> select_list t \<noteq> [] \<Longrightarrow>
    list_all2 (\<lambda>d y. choice_text s d (fst y) (snd y)) (select_list t) ys \<Longrightarrow>
    w = shorten (head_text t @ name_text t @ ''SELECT OF ('') \<Longrightarrow>
    tree_text s a (closing (w @ joined ''|'' (map fst ys) @ '')'') (select_room (length w) 1024 ys))"
| enum_text: "t = type_store s ! a \<Longrightarrow> ty_kind t = T_ENUM \<Longrightarrow> enum_list t \<noteq> [] \<Longrightarrow>
    tree_text s a (shorten (head_text t @ name_text t @ ''ENUMERATION OF <'' @ joined '','' (enum_list t) @ ''>]''))"
| simple_text: "t = type_store s ! a \<Longrightarrow> ty_kind t \<notin> {T_REFERENCE, T_DERIVED, T_SELECT, T_ENUM} \<Longrightarrow>
    printed_kind (ty_kind t) = Some k \<Longrightarrow> tree_text s a (shorten (head_text t @ name_text t @ k @ '']''))"
| entity_choice: "stands_for s d (EntityDesc i) \<Longrightarrow> choice_text s d (''[ENTITY '' @ en_name (entities s ! i) @ '']'') 11"
| nested_choice: "stands_for s d (TypeDesc a) \<Longrightarrow> nested (type_store s ! a) \<Longrightarrow> tree_text s a x \<Longrightarrow> choice_text s d x 2"
| typed_entity_choice: "stands_for s d (TypeDesc a) \<Longrightarrow> \<not> nested (type_store s ! a) \<Longrightarrow> ty_name (type_store s ! a) = Some n \<Longrightarrow>
    ty_kind (type_store s ! a) = T_ENTITY \<Longrightarrow> choice_text s d (''[ENTITY '' @ n @ '']'') 11"
| simple_choice: "stands_for s d (TypeDesc a) \<Longrightarrow> \<not> nested (type_store s ! a) \<Longrightarrow> ty_name (type_store s ! a) = Some n \<Longrightarrow>
    ty_kind (type_store s ! a) \<noteq> T_ENTITY \<Longrightarrow> printed_kind (ty_kind (type_store s ! a)) = Some k \<Longrightarrow>
    choice_text s d (''['' @ n @ '' '' @ k @ '']'') 2"

inductive_cases choice_textE: "choice_text s d x k"

text \<open>The tables of the printer say what the specification says.\<close>

lemma kind_name_iff: "kind_name k = Inr n \<longleftrightarrow> printed_kind k = Some n"
  by (cases k) (auto simp: kind_name_def TYPE_NAMES_def)

lemma desc_name_iff: "desc_name s d = Inr n \<longleftrightarrow> named s d n"
  by (cases d) (auto simp: desc_name_def cstring_def split: option.splits)

lemma child_of_iff: "child_of s d = Some c \<longleftrightarrow> stands_for s d c"
  by (cases d) (auto simp: child_of_def)

lemma cstring_iff: "cstring n = Inr x \<longleftrightarrow> n = Some x"
  by (cases n) (auto simp: cstring_def)

lemma obind_Inr: "obind m f = Some (Inr y) \<longleftrightarrow> (\<exists>x. m = Some (Inr x) \<and> f x = Some (Inr y))"
  by (auto simp: obind_def split: option.splits sum.splits)

text \<open>Writing into the first buffer, which cuts, and after \<open>resize_buffer\<close>, which does not.\<close>

definition first_buffer :: "string \<Rightarrow> print_buffer \<Rightarrow> bool" where
  "first_buffer x b \<longleftrightarrow> buf_size b = 1024 \<and> written b = shorten x"

lemma put_first: "first_buffer x b \<Longrightarrow> first_buffer (x @ y) (snprint y b)"
  by (cases "length x \<le> 1023") (auto simp: first_buffer_def shorten_def snprint_def)

lemma put_items_first: "first_buffer x b \<Longrightarrow> xs \<noteq> [] \<Longrightarrow> first_buffer (x @ joined '','' xs @ ''>'') (put_items xs b)"
proof (induction xs arbitrary: b x)
  case (Cons y ys)
  note 2 = put_first[OF put_first[OF Cons.prems(1), of y], of "if ys = [] then ''>'' else '',''"]
  show ?case
  proof (cases ys)
    case Nil
    then show ?thesis using 2 by simp
  next
    case (Cons z zs)
    then show ?thesis using Cons.IH[OF 2] by simp
  qed
qed simp

definition put_all :: "string \<Rightarrow> nat \<Rightarrow> print_buffer \<Rightarrow> print_buffer" where
  "put_all x k b = \<lparr>written = written b @ x, buf_size = max (buf_size b) (length (written b) + length x + k)\<rparr>"

lemma put_resized: "0 < k \<Longrightarrow> e = length x + k \<Longrightarrow> snprint_resized e x b = put_all x k b"
  by (cases b) (auto simp: put_all_def snprint_resized_def resize_buffer_def snprint_def max_def)

lemma put_separator: "2 \<le> k \<Longrightarrow> snprint [z] (put_all x k b) =
    \<lparr>written = written b @ x @ [z], buf_size = max (buf_size b) (length (written b) + length x + k)\<rparr>"
  by (auto simp: put_all_def snprint_def max_def)

lemma open_bracket_first: "first_buffer (head_text t) (open_bracket t)"
  by (simp add: first_buffer_def shorten_def head_text_def open_bracket_def snprint_def Let_def BUFFER_SIZE_def)

definition started :: "exp_type \<Rightarrow> print_buffer" where
  "started t = (case ty_name t of None \<Rightarrow> open_bracket t | Some n \<Rightarrow> snprint n (open_bracket t))"

lemma started_first: "first_buffer (head_text t @ name_text t) (started t)"
  using open_bracket_first put_first[OF open_bracket_first] by (simp add: started_def name_text_def split: option.split)

text \<open>The text of each kind of type.\<close>

lemma first_written: "first_buffer x b \<Longrightarrow> written b = shorten x"
  by (simp add: first_buffer_def)

lemma reference_prints: "written (snprint (''ENTITY '' @ n @ '']'') (open_bracket t)) = shorten (head_text t @ ''ENTITY '' @ n @ '']'')"
  by (rule first_written[OF put_first[OF open_bracket_first]])

lemma derived_prints: "written (snprint_resized (length x + 2) x (started t)) = shorten (head_text t @ name_text t) @ x"
  using first_written[OF started_first[of t]] by (simp add: put_resized[where k = 2] put_all_def)

lemma enum_prints: "xs \<noteq> [] \<Longrightarrow> written (snprint '']'' (put_items xs (snprint ''ENUMERATION OF <'' (started t)))) =
    shorten (head_text t @ name_text t @ ''ENUMERATION OF <'' @ joined '','' xs @ ''>]'')"
  using first_written[OF put_first[OF put_items_first[OF put_first[OF started_first[of t]]]], of xs "'']''"] by simp

lemma simple_prints: "written (snprint '']'' (snprint k (started t))) = shorten (head_text t @ name_text t @ k @ '']'')"
  using first_written[OF put_first[OF put_first[OF started_first[of t]]], of "'']''"] by simp

text \<open>The choices of a select type.\<close>

lemma choice_text_room: "choice_text s d x k \<Longrightarrow> 2 \<le> k"
  by (auto elim: choice_textE)

definition put_select :: "(string \<times> nat) list \<Rightarrow> print_buffer \<Rightarrow> print_buffer" where
  "put_select ys b = \<lparr>written = written b @ joined ''|'' (map fst ys) @ '')'',
     buf_size = select_room (length (written b)) (buf_size b) ys\<rparr>"

lemma put_select_Cons: "2 \<le> k \<Longrightarrow>
  put_select ((x, k) # ys) b = (if ys = [] then snprint '')'' (put_all x k b) else put_select ys (snprint ''|'' (put_all x k b)))"
  by (cases ys) (simp_all add: put_select_def put_separator)

lemma put_choices_prints:
  assumes "list_all2 (\<lambda>d y. 2 \<le> snd y \<and> (\<forall>b. put_choice f s d b = Some (Inr (put_all (fst y) (snd y) b)))) ds ys" "ds \<noteq> []"
  shows "put_choices f s ds b = Some (Inr (put_select ys b))"
  using assms
proof (induction ds ys arbitrary: b rule: list_all2_induct)
  case (Cons d ds y ys)
  obtain x k where y: "y = (x, k)" by (cases y)
  have h: "2 \<le> k" "put_choice f s d b = Some (Inr (put_all x k b))" using Cons(1) y by auto
  show ?case
  proof (cases "ds = []")
    case True
    then have "ys = []" using Cons(2) by simp
    then show ?thesis using True h y by (simp add: put_select_Cons)
  next
    case False
    then have "ys \<noteq> []" using Cons(2) by auto
    then show ?thesis using Cons.IH[OF False] False h y by (simp add: put_select_Cons)
  qed
qed simp

lemma put_choice_text:
  assumes f: "\<And>a x. f a = Some (Inr x) \<Longrightarrow> tree_text s a x" and p: "put_choice f s d b = Some (Inr b')"
  shows "\<exists>x k. choice_text s d x k \<and> b' = put_all x k b"
proof (cases "child_of s d")
  case None
  then show ?thesis using p by (simp add: put_choice_def)
next
  case (Some c)
  note st = Some[unfolded child_of_iff]
  show ?thesis
  proof (cases c)
    case (EntityDesc i)
    then show ?thesis using p Some entity_choice[of s d i] st
      by (auto simp: put_choice_def Let_def put_resized[where k = 11])
  next
    case (TypeDesc a)
    let ?t = "type_store s ! a"
    show ?thesis
    proof (cases "nested ?t")
      case True
      then obtain x where "f a = Some (Inr x)" "b' = snprint_resized (length x + 2) x b"
        using p Some TypeDesc by (auto simp: put_choice_def nested_def Let_def obind_Inr)
      then show ?thesis using nested_choice[of s d a x] st TypeDesc True f by (auto simp: put_resized[where k = 2])
    next
      case False
      then show ?thesis
        using p Some TypeDesc st typed_entity_choice[of s d a] simple_choice[of s d a]
        by (cases "ty_kind ?t = T_ENTITY")
          (auto simp: put_choice_def nested_def Let_def obind_Inr cstring_iff kind_name_iff
            put_resized[where k = 11] put_resized[where k = 2])
    qed
  qed
qed

lemma put_choices_text:
  assumes f: "\<And>a x. f a = Some (Inr x) \<Longrightarrow> tree_text s a x"
  shows "put_choices f s ds b = Some (Inr b') \<Longrightarrow> ds \<noteq> [] \<Longrightarrow>
    \<exists>ys. list_all2 (\<lambda>d y. choice_text s d (fst y) (snd y)) ds ys \<and> b' = put_select ys b"
proof (induction ds arbitrary: b)
  case (Cons d ds)
  obtain b1 where b1: "put_choice f s d b = Some (Inr b1)"
    "put_choices f s ds (snprint (if ds = [] then '')'' else ''|'') b1) = Some (Inr b')"
    using Cons.prems(1) by (auto simp: obind_Inr)
  obtain x k where x: "choice_text s d x k" "b1 = put_all x k b" using put_choice_text[OF f b1(1)] by blast
  note k = choice_text_room[OF x(1)]
  show ?case
  proof (cases "ds = []")
    case True
    then show ?thesis using b1(2) x k by (intro exI[of _ "[(x, k)]"]) (simp add: put_select_Cons)
  next
    case False
    then obtain ys where ys: "list_all2 (\<lambda>d y. choice_text s d (fst y) (snd y)) ds ys" "b' = put_select ys (snprint ''|'' b1)"
      using Cons.IH[of "snprint ''|'' b1"] b1(2) by auto
    moreover have "ys \<noteq> []" using ys(1) False by auto
    ultimately show ?thesis using x k by (intro exI[of _ "(x, k) # ys"]) (simp add: put_select_Cons)
  qed
qed simp

lemma put_closing: "written (snprint '']'' \<lparr>written = x, buf_size = n\<rparr>) = closing x n"
  by (auto simp: snprint_def closing_def take_Cons')

lemma select_prints:
  assumes "w = shorten (head_text t @ name_text t @ ''SELECT OF ('')"
  shows "written (snprint '']'' (put_select ys (snprint ''SELECT OF ('' (started t)))) =
    closing (w @ joined ''|'' (map fst ys) @ '')'') (select_room (length w) 1024 ys)"
proof -
  have "first_buffer (head_text t @ name_text t @ ''SELECT OF ('') (snprint ''SELECT OF ('' (started t))"
    using put_first[OF started_first[of t], of "''SELECT OF (''"] by (simp only: append_assoc)
  then have "put_select ys (snprint ''SELECT OF ('' (started t)) =
      \<lparr>written = w @ joined ''|'' (map fst ys) @ '')'', buf_size = select_room (length w) 1024 ys\<rparr>"
    unfolding put_select_def first_buffer_def assms by (elim conjE) (simp only:)
  then show ?thesis by (simp only: put_closing)
qed

text \<open>The equation of the printer, with the beginning named.\<close>

definition print_body :: "(nat \<Rightarrow> string res option) \<Rightarrow> exp_schema \<Rightarrow> nat \<Rightarrow> string res option" where
  "print_body f s a =
     (let t = type_store s ! a; b = open_bracket t; b1 = started t
      in if ty_kind t = T_REFERENCE then
           (case ref_type t of
              None \<Rightarrow> Some (Inl Undefined)
            | Some d \<Rightarrow> obind (Some (desc_name s d)) (\<lambda>n. Some (Inr (written (snprint (''ENTITY '' @ n @ '']'') b)))))
         else if ty_kind t = T_DERIVED then
           (case ref_type t of
              None \<Rightarrow> Some (Inl Assert_failed)
            | Some (EntityDesc _) \<Rightarrow> Some (Inl Undefined)
            | Some (TypeDesc c) \<Rightarrow>
                obind (f c) (\<lambda>x. Some (Inr (written (snprint_resized (length x + 2) x b1)))))
         else if ty_kind t = T_SELECT then
           (if select_list t = [] then Some (Inl Assert_failed)
            else obind (put_choices f s (select_list t) (snprint ''SELECT OF ('' b1)) (\<lambda>b2.
              Some (Inr (written (snprint '']'' b2)))))
         else if ty_kind t = T_ENUM then
           (if enum_list t = [] then Some (Inl Assert_failed)
            else Some (Inr (written (snprint '']'' (put_items (enum_list t) (snprint ''ENUMERATION OF <'' b1))))))
         else obind (Some (kind_name (ty_kind t))) (\<lambda>k. Some (Inr (written (snprint '']'' (snprint k b1))))))"

lemma serialize_body: "serialize_type_tree s a = print_body (serialize_type_tree s) s a"
  by (subst serialize_type_tree.simps) (simp only: started_def print_body_def Let_def)

lemmas serialize_simp = serialize_body[unfolded print_body_def]

lemma text_serialized:
  "tree_text s a x \<Longrightarrow> serialize_type_tree s a = Some (Inr x)"
  "choice_text s d y k \<Longrightarrow> \<forall>b. put_choice (serialize_type_tree s) s d b = Some (Inr (put_all y k b))"
proof (induction rule: tree_text_choice_text.inducts)
  case (reference_text t s a d n)
  then have "desc_name s d = Inr n" by (simp only: desc_name_iff)
  then show ?case using reference_text(1-3) reference_prints[of n t]
    by (subst serialize_simp) (simp add: Let_def)
next
  case (derived_text t s a c x)
  then show ?case using derived_prints[of x t] by (subst serialize_simp) (simp add: Let_def)
next
  case (select_text t s a ys w)
  have "list_all2 (\<lambda>d y. 2 \<le> snd y \<and> (\<forall>b. put_choice (serialize_type_tree s) s d b = Some (Inr (put_all (fst y) (snd y) b))))
      (select_list t) ys"
    using select_text.IH by (rule list_all2_mono) (auto dest: choice_text_room)
  note p = put_choices_prints[OF this select_text(3), of "snprint ''SELECT OF ('' (started t)"]
  show ?case using select_text(1-3) p select_prints[OF select_text.hyps(4), of ys]
    by (subst serialize_simp) (simp add: Let_def)
next
  case (enum_text t s a)
  then show ?case by (subst serialize_simp) (simp add: Let_def enum_prints)
next
  case (simple_text t s a k)
  then show ?case by (subst serialize_simp) (simp add: Let_def kind_name_iff[THEN iffD2] simple_prints)
next
  case (entity_choice s d i)
  then show ?case by (simp add: put_choice_def Let_def child_of_iff[THEN iffD2] put_resized[where k = 11])
next
  case (nested_choice s d a x)
  then show ?case
    by (simp add: put_choice_def nested_def[symmetric] Let_def child_of_iff[THEN iffD2] put_resized[where k = 2])
next
  case (typed_entity_choice s d a n)
  then show ?case
    by (simp add: put_choice_def nested_def[symmetric] Let_def child_of_iff[THEN iffD2] cstring_def put_resized[where k = 11])
next
  case (simple_choice s d a n k)
  then show ?case
    by (simp add: put_choice_def nested_def[symmetric] Let_def child_of_iff[THEN iffD2] kind_name_iff[THEN iffD2] cstring_def
      put_resized[where k = 2])
qed

lemma body_text:
  assumes f: "\<And>c y. f c = Some (Inr y) \<Longrightarrow> tree_text s c y"
    and b: "print_body f s a = Some (Inr x)"
  shows "tree_text s a x"
proof -
  let ?t = "type_store s ! a"
  consider (r) "ty_kind ?t = T_REFERENCE" | (d) "ty_kind ?t = T_DERIVED" | (s) "ty_kind ?t = T_SELECT" | (e) "ty_kind ?t = T_ENUM"
    | (o) "ty_kind ?t \<notin> {T_REFERENCE, T_DERIVED, T_SELECT, T_ENUM}" by blast
  then show ?thesis
  proof cases
    case r
    then obtain d n where "ref_type ?t = Some d" "desc_name s d = Inr n"
      "x = written (snprint (''ENTITY '' @ n @ '']'') (open_bracket ?t))"
      using b by (auto simp: print_body_def Let_def obind_Inr split: option.splits)
    then show ?thesis using reference_text[OF refl r] by (simp only: reference_prints desc_name_iff)
  next
    case d
    then obtain c y where "ref_type ?t = Some (TypeDesc c)" "f c = Some (Inr y)"
      "x = written (snprint_resized (length y + 2) y (started ?t))"
      using b by (auto simp: print_body_def Let_def obind_Inr split: option.splits exp_desc.splits)
    then show ?thesis using derived_text[OF refl d] f by (simp only: derived_prints)
  next
    case s
    then obtain b2 where n: "select_list ?t \<noteq> []" and b2: "x = written (snprint '']'' b2)"
      "put_choices f s (select_list ?t) (snprint ''SELECT OF ('' (started ?t)) = Some (Inr b2)"
      using b by (auto simp: print_body_def Let_def obind_Inr split: if_splits)
    obtain ys where "list_all2 (\<lambda>d y. choice_text s d (fst y) (snd y)) (select_list ?t) ys"
      "b2 = put_select ys (snprint ''SELECT OF ('' (started ?t))"
      using put_choices_text[OF f b2(2) n] by blast
    then show ?thesis using select_text[OF refl s n] b2(1) by (simp only: select_prints[OF refl])
  next
    case e
    then have n: "enum_list ?t \<noteq> []" using b by (auto simp: print_body_def Let_def split: if_splits)
    then have "x = written (snprint '']'' (put_items (enum_list ?t) (snprint ''ENUMERATION OF <'' (started ?t))))"
      using b e by (simp add: print_body_def Let_def)
    then show ?thesis using enum_text[OF refl e n] by (simp only: enum_prints[OF n])
  next
    case o
    then obtain k where "kind_name (ty_kind ?t) = Inr k" "x = written (snprint '']'' (snprint k (started ?t)))"
      using b by (auto simp: print_body_def Let_def obind_Inr)
    then show ?thesis using simple_text[OF refl o] by (simp only: simple_prints kind_name_iff)
  qed
qed

lemmas serialize_induct = serialize_type_tree.raw_induct[unfolded Let_def, folded started_def, folded print_body_def[unfolded Let_def]]

lemma serialized_text:
  assumes "serialize_type_tree s a = Some (Inr x)"
  shows "tree_text s a x"
proof -
  have "\<forall>x. r = Inr x \<longrightarrow> tree_text s a x" if "serialize_type_tree s a = Some r" for r
  proof (rule serialize_induct[where P = "\<lambda>s a r. \<forall>x. r = Inr x \<longrightarrow> tree_text s a x", OF _ that])
    fix f :: "exp_schema \<Rightarrow> nat \<Rightarrow> string res option" and s a r
    assume "\<And>s a r. f s a = Some r \<Longrightarrow> \<forall>x. r = Inr x \<longrightarrow> tree_text s a x"
    then have "f s c = Some (Inr y) \<Longrightarrow> tree_text s c y" for c y by blast
    then have "print_body (f s) s a = Some (Inr x) \<Longrightarrow> tree_text s a x" for x by (rule body_text)
    then show "print_body (f s) s a = Some r \<Longrightarrow> \<forall>x. r = Inr x \<longrightarrow> tree_text s a x" by blast
  qed
  then show ?thesis using assms by blast
qed

text \<open>C39. The printer prints exactly the text the specification describes, at every length: it returns a text if and
  only if the specification gives the type that text. The specification has its own names for the kinds and says where
  a text is cut: the text of a simple type, a reference or an enumeration after 1023 characters (the buffer does not
  grow for the items of an enumeration), the beginning of a derived or select type too, a part of one never, and the
  last bracket of a select type when the room asked for the choices is used up. A derived type has no closing bracket,
  and a choice that is a derived type of a derived type is called \<open>UNKNOWN\<close>.\<close>

theorem serialize_text: "serialize_type_tree s a = Some (Inr x) \<longleftrightarrow> tree_text s a x"
  using serialized_text text_serialized(1) by blast

definition choices :: exp_schema where
  "choices =
     \<lparr>type_store = [new_type\<lparr>ty_name := Some ''a'', ty_schema := True, ty_kind := T_REAL\<rparr>,
                    new_type\<lparr>ty_name := Some ''m'', ty_schema := True, ty_kind := T_DERIVED, ref_type := Some (TypeDesc 0)\<rparr>,
                    new_type\<lparr>ty_name := Some ''s'', ty_schema := True, ty_kind := T_SELECT,
                      select_list := [TypeDesc 1, EntityDesc 0]\<rparr>,
                    new_type\<lparr>ty_name := Some (replicate 2000 CHR ''x''), ty_schema := True, ty_kind := T_DERIVED,
                      ref_type := Some (TypeDesc 0)\<rparr>],
      types = [0, 1, 2, 3], entities = [new_entity ''e'']\<rparr>"

theorem serialize_text_witness:
  "serialize_type_tree choices 2 = Some (Inr ''[ sSELECT OF ([a REAL]|[ENTITY e])]'') \<and>
   serialize_type_tree choices 3 = Some (Inr (''[ '' @ replicate 1021 CHR ''x'' @ ''[ aREAL]''))"
proof -
  have "choice_text choices (TypeDesc 1) ''[a REAL]'' 2"
    using simple_choice[of choices "TypeDesc 1" 0 "''a''" "''REAL''"] by (simp add: choices_def new_type_def nested_def)
  moreover have "choice_text choices (EntityDesc 0) ''[ENTITY e]'' 11"
    using entity_choice[of choices "EntityDesc 0" 0] by (simp add: choices_def new_entity_def)
  ultimately have s: "tree_text choices 2 ''[ sSELECT OF ([a REAL]|[ENTITY e])]''"
    using select_text[of _ choices 2 "[(''[a REAL]'', 2), (''[ENTITY e]'', 11)]", OF refl _ _ _ refl]
    by (simp add: choices_def head_text_def name_text_def new_type_def shorten_def closing_def)
  have "tree_text choices 0 ''[ aREAL]''"
    using simple_text[of _ choices 0 "''REAL''", OF refl]
    by (simp add: choices_def head_text_def name_text_def new_type_def shorten_def)
  then have d: "tree_text choices 3 (''[ '' @ replicate 1021 CHR ''x'' @ ''[ aREAL]'')"
    using derived_text[of _ choices 3 0, OF refl]
    by (simp add: choices_def head_text_def name_text_def new_type_def shorten_def)
  show ?thesis using serialize_text[of choices 2] serialize_text[of choices 3] s d by blast
qed

section \<open>When the printer returns\<close>

definition part_rel :: "exp_schema \<Rightarrow> (nat \<times> nat) set" where
  "part_rel s =
     {(c, a). ty_kind (type_store s ! a) = T_DERIVED \<and> ref_type (type_store s ! a) = Some (TypeDesc c) \<or>
       ty_kind (type_store s ! a) = T_SELECT \<and>
         (\<exists>d \<in> set (select_list (type_store s ! a)). child_of s d = Some (TypeDesc c) \<and> nested (type_store s ! c))}"

lemma obind_returns: "m \<noteq> None \<Longrightarrow> (\<And>x. m = Some (Inr x) \<Longrightarrow> f x \<noteq> None) \<Longrightarrow> obind m f \<noteq> None"
  by (auto simp: obind_def split: sum.splits option.splits)

lemma put_choice_returns:
  assumes "\<And>c. child_of s d = Some (TypeDesc c) \<Longrightarrow> nested (type_store s ! c) \<Longrightarrow> f c \<noteq> None"
  shows "put_choice f s d b \<noteq> None"
proof (cases "\<exists>c. child_of s d = Some (TypeDesc c) \<and> nested (type_store s ! c)")
  case True
  then obtain c where c: "child_of s d = Some (TypeDesc c)" "nested (type_store s ! c)" by blast
  have "f c \<noteq> None" by (rule assms[OF c])
  then show ?thesis using c by (simp add: put_choice_def nested_def Let_def obind_returns)
next
  case False
  then show ?thesis
    by (cases "child_of s d"; simp add: put_choice_def split: exp_desc.split)
      (auto simp: nested_def Let_def cstring_def kind_name_def split: option.splits)
qed

lemma put_choices_returns:
  "(\<And>c d. d \<in> set ds \<Longrightarrow> child_of s d = Some (TypeDesc c) \<Longrightarrow> nested (type_store s ! c) \<Longrightarrow> f c \<noteq> None) \<Longrightarrow>
   put_choices f s ds b \<noteq> None"
proof (induction ds arbitrary: b)
  case (Cons d ds)
  have "put_choice f s d b \<noteq> None" by (rule put_choice_returns) (use Cons.prems in auto)
  moreover have "put_choices f s ds b' \<noteq> None" for b' by (rule Cons.IH) (use Cons.prems in auto)
  ultimately show ?case by (simp add: obind_returns)
qed simp

lemma serialize_returns:
  "a \<in> Wellfounded.acc (part_rel s) \<Longrightarrow> serialize_type_tree s a \<noteq> None"
proof (induction rule: acc.induct)
  case (accI a)
  let ?t = "type_store s ! a"
  consider (d) c where "ty_kind ?t = T_DERIVED" "ref_type ?t = Some (TypeDesc c)" | (s) "ty_kind ?t = T_SELECT"
    | (o) "ty_kind ?t \<noteq> T_SELECT" "\<not> (ty_kind ?t = T_DERIVED \<and> (\<exists>c. ref_type ?t = Some (TypeDesc c)))" by blast
  then show ?case
  proof cases
    case d
    then have "serialize_type_tree s c \<noteq> None" using accI.IH by (simp add: part_rel_def)
    then show ?thesis using d by (subst serialize_simp) (simp add: Let_def obind_returns)
  next
    case s
    have "put_choices (serialize_type_tree s) s (select_list ?t) b \<noteq> None" for b
      by (rule put_choices_returns) (use s accI.IH in \<open>auto simp: part_rel_def\<close>)
    then have "obind (put_choices (serialize_type_tree s) s (select_list ?t) b) (\<lambda>b2. Some (Inr (written (snprint '']'' b2)))) \<noteq> None"
      for b by (rule obind_returns) simp
    then show ?thesis using s by (subst serialize_simp) (simp add: Let_def)
  next
    case o
    then show ?thesis
      by (subst serialize_simp)
        (auto simp: Let_def desc_name_def cstring_def kind_name_def split: option.splits exp_desc.splits)
  qed
qed

end
