(* ===== verification/Express_Cli.thy ===== *)
theory Express_Cli
  imports Express_Print
begin

text \<open>
  The command line of the EXPRESS parser (\<open>main\<close> in \<open>express_parser/express_parser_cli.cpp\<close>): it parses a file and
  answers the commands \<open>type\<close>, \<open>entity\<close>, \<open>sql\<close> and \<open>exit\<close>. What is printed and written is a list of events, without
  those of a command that crashes or does not return; the option parser, the generated parser and the files are arguments.
\<close>

section \<open>Events\<close>

datatype cli_event = Print string | Write_file string string

text \<open>How a run ends. At the end of the input \<open>getline\<close> leaves the command empty, so that the loop reports an invalid
  command for ever.\<close>

datatype cli_end = Quit | Crashed cxx_error | Hangs | Input_over

definition colored :: "string \<Rightarrow> string \<Rightarrow> string" where
  "colored code s = CHR 0x1B # ''['' @ code @ ''m'' @ s @ CHR 0x1B # ''[0m''"

section \<open>Commands\<close>

definition attr_line :: "exp_schema \<Rightarrow> exp_attr \<Rightarrow> string res option" where
  "attr_line s x =
     obind (serialize_type_tree s (attr_type x)) (\<lambda>t. Some (Inr (colored ''34'' (attr_name x) @ '' : '' @ t @ nl)))"

definition attr_lines :: "exp_schema \<Rightarrow> exp_entity \<Rightarrow> string res option" where
  "attr_lines s e =
     (if \<not> assigned e then Some (Inl Undefined)
      else obind (each (attr_line s) (attrs e)) (\<lambda>xs. Some (Inr (concat xs))))"

text \<open>The stack of an entity and its supertypes, in the order of its elements from the top.\<close>

partial_function (option) entity_stack :: "exp_schema \<Rightarrow> nat option \<Rightarrow> nat list option" where
  "entity_stack s cur =
     (case cur of
        None \<Rightarrow> Some []
      | Some i \<Rightarrow> Option.bind (entity_stack s (supertype (entities s ! i))) (\<lambda>st. Some (st @ [i])))"

definition inherited :: "exp_schema \<Rightarrow> nat \<Rightarrow> string res option" where
  "inherited s i =
     (let e = entities s ! i
      in obind (attr_lines s e) (\<lambda>x. Some (Inr (''Inherits from '' @ en_name e @ nl @ x))))"

definition subtype_text :: "exp_schema \<Rightarrow> nat option \<Rightarrow> string res" where
  "subtype_text s p = (case p of None \<Rightarrow> Inl Undefined | Some j \<Rightarrow> Inr (colored ''31'' (en_name (entities s ! j)) @ '', ''))"

definition entity_command :: "exp_schema \<Rightarrow> nat \<Rightarrow> string res option" where
  "entity_command s i =
     (let e = entities s ! i
      in if \<not> assigned e then Some (Inl Undefined)
         else obind (Some (rmap (subtype_text s) (subtypes e))) (\<lambda>subs.
           (case (if supertype e \<noteq> None then entity_stack s (Some i) else Some []) of
              None \<Rightarrow> None
            | Some st \<Rightarrow>
                obind (each (inherited s) st) (\<lambda>inh.
                obind (attr_lines s e) (\<lambda>own.
                  Some (Inr
                    (colored ''32'' (en_name e) @ nl @
                     (case supertype e of
                        None \<Rightarrow> []
                      | Some p \<Rightarrow> ''Supertypes: '' @ nl @ colored ''33'' (en_name (entities s ! p)) @ nl) @
                     ''Subtypes: '' @ nl @ concat subs @ nl @ ''Attributes: '' @ nl @ concat inh @ en_name e @ own)))))))"

text \<open>The argument of a command: what follows its first space, or all of it (the position that is not found is the
  greatest value of \<open>size_t\<close>, and its successor zero).\<close>

definition command_arg :: "string \<Rightarrow> string res" where
  "command_arg cmd = substr cmd (find_first_of cmd (CHR '' '') + 1) npos"

definition dest_path :: "string \<Rightarrow> string res" where
  "dest_path file =
     (let slash = find_last_of file (CHR ''/''); basename_len = find_last_of file (CHR ''.'') - slash
      in rbind (substr file slash basename_len) (\<lambda>base. Inr (''../../resources/express/'' @ base @ ''.sql'')))"

definition run_command :: "string \<Rightarrow> string \<Rightarrow> parser_context \<Rightarrow> (cli_event list \<times> parser_context) res option" where
  "run_command file cmd c =
     (let s = schema_of c
      in if take 4 cmd = ''type'' then
           obind (Some (command_arg cmd)) (\<lambda>name. let (i, m) = index_at name (type_id_index c)
             in if i < length (types s) then
                  obind (serialize_type_tree s (types s ! i)) (\<lambda>x. Some (Inr ([Print (x @ nl)], c\<lparr>type_id_index := m\<rparr>)))
                else Some (Inl Undefined))
         else if take 6 cmd = ''entity'' then
           obind (Some (command_arg cmd)) (\<lambda>name. let (i, m) = index_at name (entity_id_index c)
             in if i < length (entities s) then
                  obind (entity_command s i) (\<lambda>x. Some (Inr ([Print x], c\<lparr>entity_id_index := m\<rparr>)))
                else Some (Inl Undefined))
         else if cmd = ''sql'' then
           obind (Some (dest_path file)) (\<lambda>path.
           obind (generate_pgsql_for_schema s) (\<lambda>script.
             Some (Inr ([Write_file path script, Print (''SQL file generated.'' @ path @ nl)], c))))
         else Some (Inr ([Print (''Invalid command: '' @ cmd @ nl)], c)))"

section \<open>The loop\<close>

fun cli :: "string \<Rightarrow> string list \<Rightarrow> parser_context \<Rightarrow> cli_event list \<times> cli_end" where
  "cli file [] c = ([Print ''--> ''], Input_over)"
| "cli file (cmd # lines) c =
     (if cmd = ''exit'' then ([Print ''--> ''], Quit)
      else case run_command file cmd c of
             None \<Rightarrow> ([Print ''--> ''], Hangs)
           | Some (Inl e) \<Rightarrow> ([Print ''--> ''], Crashed e)
           | Some (Inr (evs, c1)) \<Rightarrow> (let (evs2, r) = cli file lines c1 in (Print ''--> '' # evs @ evs2, r)))"

text \<open>\<open>content\<close> is what \<open>read_file\<close> finds; it exits when the file cannot be opened.\<close>

definition cli_main ::
    "(string \<Rightarrow> parser_call list) \<Rightarrow> string \<Rightarrow> string option \<Rightarrow> string list \<Rightarrow> cli_event list \<times> cli_end" where
  "cli_main express_parse file content lines =
     (case content of
        None \<Rightarrow> ([], Crashed (Exit_called 1))
      | Some text \<Rightarrow>
          (case parse express_parse text of
             Inl e \<Rightarrow> ([], Crashed e)
           | Inr c \<Rightarrow>
               if card (dom (entity_id_index c)) \<noteq> length (entities (schema_of c)) then ([], Crashed Assert_failed)
               else cli file lines c))"


section \<open>The commands on a parsed schema\<close>

lemma find_first_of_type: "find_first_of (''type '' @ n) (CHR '' '') = 4"
  by (simp add: find_first_of_def find_pos_def)

lemma type_arg: "int (length n) < npos - 10 \<Longrightarrow> command_arg (''type '' @ n) = Inr n"
  unfolding command_arg_def find_first_of_type
  by (simp add: substr_def to_size_def npos_def Let_def)

definition known_names :: "parser_context \<Rightarrow> parser_context \<Rightarrow> bool" where
  "known_names c0 c \<longleftrightarrow>
     type_id_index c0 \<subseteq>\<^sub>m type_id_index c \<and> dom (entity_id_index c) = dom (entity_id_index c0) \<and>
     types (schema_of c) = types (schema_of c0) \<and>
     map en_name (entities (schema_of c)) = map en_name (entities (schema_of c0))"

lemma index_at_le: "index_at n m = (i, m') \<Longrightarrow> m \<subseteq>\<^sub>m m'"
  by (auto simp: index_at_def map_le_def split: option.splits)

definition all_indexed :: "parser_context \<Rightarrow> bool" where
  "all_indexed c \<longleftrightarrow> dom (entity_id_index c) = set (map en_name (entities (schema_of c)))"

lemma do_call_known:
  assumes ok: "context_ok c" "all_indexed c" and r: "do_call x c = Inr c'"
  shows "known_names c c'" "all_indexed c'"
proof -
  have "known_names c c'"
  proof (cases x)
    case (Call_type n args)
    then obtain i m where "index_at n (type_id_index c) = (i, m)" "type_id_index c' = m" "entity_id_index c' = entity_id_index c"
      using r by (auto simp: init_type_def rbind_eq_Inr Let_def split: prod.splits if_splits)
    then show ?thesis using do_call_ok(2,3)[OF ok(1) r] index_at_le by (auto simp: known_names_def)
  next
    case (Call_entity n args)
    then obtain i m where i: "index_at n (entity_id_index c) = (i, m)" "entity_id_index c' = m" "type_id_index c' = type_id_index c"
      "i < length (entities (schema_of c))" "en_name (entities (schema_of c) ! i) = n"
      using r by (auto simp: init_entity_def rbind_eq_Inr Let_def split: prod.splits if_splits)
    have "n \<in> dom (entity_id_index c)" using i(4,5) ok(2) by (auto simp: all_indexed_def)
    then have "dom m = dom (entity_id_index c)" using i(1) by (auto simp: index_at_def split: option.splits)
    then show ?thesis using do_call_ok(2,3)[OF ok(1) r] i(2,3) by (simp add: known_names_def)
  qed
  then show "known_names c c'" "all_indexed c'"
    using ok(2) by (auto simp: all_indexed_def known_names_def)
qed

lemma known_trans: "known_names a b \<Longrightarrow> known_names b c \<Longrightarrow> known_names a c"
  by (auto simp: known_names_def intro: map_le_trans)

lemma do_calls_known:
  "rfold do_call xs c = Inr c' \<Longrightarrow> context_ok c \<Longrightarrow> all_indexed c \<Longrightarrow> known_names c c' \<and> all_indexed c'"
proof (induction xs arbitrary: c)
  case (Cons x xs)
  then obtain c1 where 1: "do_call x c = Inr c1" "rfold do_call xs c1 = Inr c'" by (auto simp: rbind_eq_Inr)
  note A = do_call_known[OF Cons.prems(2,3) 1(1)]
  show ?case using Cons.IH[OF 1(2) do_call_ok(1)[OF Cons.prems(2) 1(1)] A(2)] A(1) known_trans by blast
qed (simp add: known_names_def)


lemma last_pos_dom: "dom (last_pos ns) = set ns"
proof -
  have "set (zip ns [0..<length ns]) = {(ns ! i, i) | i. i < length ns}" by (force simp: set_zip)
  then show ?thesis by (force simp: last_pos_def dom_map_of_conv_image_fst in_set_conv_nth)
qed

lemma parse_known:
  assumes "parse express_parse content = Inr c"
  shows "last_pos (declared ''TYPE'' ''ENTITY'' (words content)) n = Some i \<Longrightarrow> type_id_index c n = Some i"
    "types (schema_of c) = [0..<length (declared ''TYPE'' ''ENTITY'' (words content))]"
    "dom (entity_id_index c) = set (declared ''ENTITY'' ''TYPE'' (words content))"
    "map en_name (entities (schema_of c)) = declared ''ENTITY'' ''TYPE'' (words content)"
proof -
  obtain c0 where c0: "preprocess content new_context = Inr c0" "rfold do_call (express_parse content) c0 = Inr c"
    using assms by (auto simp: parse_def rbind_eq_Inr)
  note h = preprocess_holds[OF c0(1), unfolded holds_decls_def]
  have e0: "map en_name (entities (schema_of c0)) = declared ''ENTITY'' ''TYPE'' (words content)"
    using h by (simp add: new_entity_def o_def)
  have "all_indexed c0" unfolding all_indexed_def e0 using h by (simp add: last_pos_dom)
  from do_calls_known[OF c0(2) preprocess_ok[OF c0(1)] this] have k: "known_names c0 c" by blast
  show "last_pos (declared ''TYPE'' ''ENTITY'' (words content)) n = Some i \<Longrightarrow> type_id_index c n = Some i"
    using k h by (auto simp: known_names_def map_le_def dest: bspec[where x = n])
  show "types (schema_of c) = [0..<length (declared ''TYPE'' ''ENTITY'' (words content))]"
    "dom (entity_id_index c) = set (declared ''ENTITY'' ''TYPE'' (words content))"
    "map en_name (entities (schema_of c)) = declared ''ENTITY'' ''TYPE'' (words content)"
    using k h e0 by (simp_all add: known_names_def last_pos_dom)
qed

lemma run_type:
  assumes "type_id_index c n = Some i" "i < length (types (schema_of c))" "tree_text (schema_of c) (types (schema_of c) ! i) x"
    "int (length n) < npos - 10"
  shows "run_command file (''type '' @ n) c = Some (Inr ([Print (x @ nl)], c))"
proof -
  have "serialize_type_tree (schema_of c) (types (schema_of c) ! i) = Some (Inr x)"
    by (rule text_serialized(1)[OF assms(3)])
  then show ?thesis using assms(1,2) type_arg[OF assms(4)] by (simp add: run_command_def index_at_def Let_def)
qed

text \<open>A name that is not declared is entered in the index for the first type, which is then printed; the stack of
  supertypes is complete exactly when it has an end.\<close>

lemma run_unknown_type:
  assumes "type_id_index c n = None" "types (schema_of c) = a # as" "tree_text (schema_of c) a x"
    "int (length n) < npos - 10"
  shows "run_command file (''type '' @ n) c = Some (Inr ([Print (x @ nl)], c\<lparr>type_id_index := (type_id_index c)(n \<mapsto> 0)\<rparr>))"
proof -
  have "serialize_type_tree (schema_of c) a = Some (Inr x)"
    by (rule text_serialized(1)[OF assms(3)])
  then show ?thesis using assms(1,2) type_arg[OF assms(4)] by (simp add: run_command_def index_at_def Let_def)
qed

lemma entity_stack_returns:
  assumes "i \<in> Wellfounded.acc {(p, i). supertype (entities s ! i) = Some p}"
  shows "\<exists>st. entity_stack s (Some i) = Some (st @ [i])"
  using assms
proof (induction rule: acc.induct)
  case (accI i)
  show ?case
  proof (cases "supertype (entities s ! i)")
    case None
    then show ?thesis by (simp add: entity_stack.simps)
  next
    case (Some p)
    then obtain st where "entity_stack s (Some p) = Some (st @ [p])" using accI.IH by blast
    then show ?thesis using Some by (subst entity_stack.simps) simp
  qed
qed

text \<open>C40. The tool from end to end: on a file that parses and declares no entity twice, the commands
  \<open>type <name>\<close> for declared types print the text of the type last declared under that name (at every length, cut
  where the specification of the text cuts it), each after a prompt, and \<open>exit\<close> ends the run.\<close>

theorem cli_prints_types:
  assumes "parse express_parse text = Inr c" "distinct (declared ''ENTITY'' ''TYPE'' (words text))"
    "\<forall>n \<in> set names. int (length n) < npos - 10 \<and>
       (\<exists>i. last_pos (declared ''TYPE'' ''ENTITY'' (words text)) n = Some i \<and> tree_text (schema_of c) i (f n))"
  shows "cli_main express_parse file (Some text) (map (\<lambda>n. ''type '' @ n) names @ [''exit'']) =
    (concat (map (\<lambda>n. [Print ''--> '', Print (f n @ nl)]) names) @ [Print ''--> ''], Quit)"
proof -
  note k = parse_known[OF assms(1)]
  have "card (dom (entity_id_index c)) = length (entities (schema_of c))"
    using k(3,4) distinct_card[OF assms(2)] by (metis length_map)
  then have m: "cli_main express_parse file (Some text) lines = cli file lines c" for lines
    using assms(1) by (simp add: cli_main_def)
  have run: "run_command file (''type '' @ n) c = Some (Inr ([Print (f n @ nl)], c))" if n: "n \<in> set names" for n
  proof -
    obtain i where i: "last_pos (declared ''TYPE'' ''ENTITY'' (words text)) n = Some i" "tree_text (schema_of c) i (f n)"
      using assms(3) n by blast
    have "i < length (declared ''TYPE'' ''ENTITY'' (words text))" using last_pos_Some[OF i(1)] by simp
    then show ?thesis using run_type[OF k(1)[OF i(1)]] i(2) k(2) assms(3) n by simp
  qed
  have "cli file (map (\<lambda>n. ''type '' @ n) ns @ [''exit'']) c =
      (concat (map (\<lambda>n. [Print ''--> '', Print (f n @ nl)]) ns) @ [Print ''--> ''], Quit)" if "set ns \<subseteq> set names" for ns
    using that run by (induction ns) auto
  then show ?thesis unfolding m by blast
qed

theorem cli_prints_types_witness:
  "cli_main (\<lambda>_. sample_calls) ''x.exp'' (Some sample_schema) [''type a'', ''exit''] =
     ([Print ''--> '', Print (''[ aREAL]'' @ nl), Print ''--> ''], Quit)"
proof -
  have t: "tree_text s 1 ''[ aREAL]''"
    if "type_store s ! 1 = new_type\<lparr>ty_name := Some ''a'', ty_schema := True, ty_kind := T_REAL\<rparr>" for s
    using simple_text[of _ s 1 "''REAL''", OF refl] that
    by (simp add: head_text_def name_text_def new_type_def shorten_def)
  show ?thesis
    using cli_prints_types[OF sample_parse, of "[''a'']" "\<lambda>_. ''[ aREAL]''" "''x.exp''"] t
    by (simp add: sample_words last_pos_def npos_def)
qed

end
