(* ===== verification/Datastore.thy ===== *)
theory Datastore
  imports Prelude
begin

text \<open>
  The key-value store (\<open>storage/datastore/datastore_interface.h\<close>, \<open>wiredtiger_datastore_impl.h\<close> and \<open>.cpp\<close>):
  sessions with a cursor of the storage engine. The engine is a library: its calls are the fields of a record of
  functions on an engine state, and \<open>engine_ok\<close> states what its manual promises of them. The interface of a session is
  a locale, interpreted on the sessions of the engine.
\<close>

section \<open>The engine\<close>

text \<open>Every call returns an error code, zero for success. \<open>get_value\<close> reads the record the cursor is on.\<close>

record 's wt_engine =
  wt_open :: "string \<Rightarrow> 's \<Rightarrow> int \<times> bool \<times> 's"
  wt_open_session :: "'s \<Rightarrow> int \<times> 's"
  wt_close :: "'s \<Rightarrow> int \<times> 's"
  wt_create :: "string \<Rightarrow> 's \<Rightarrow> int \<times> 's"
  wt_open_cursor :: "string \<Rightarrow> 's \<Rightarrow> int \<times> 's"
  wt_set_key :: "string \<Rightarrow> 's \<Rightarrow> 's"
  wt_set_value :: "string \<Rightarrow> 's \<Rightarrow> 's"
  wt_search :: "'s \<Rightarrow> int \<times> 's"
  wt_get_value :: "'s \<Rightarrow> int \<times> string \<times> 's"
  wt_insert :: "'s \<Rightarrow> int \<times> 's"
  wt_remove :: "'s \<Rightarrow> int \<times> 's"

text \<open>\<open>CheckOp\<close> of a session ends the process; that of the store only logs.\<close>

definition check_op :: "int \<Rightarrow> unit res" where
  "check_op ret = (if ret \<noteq> 0 then Inl (Exit_called 1) else Inr ())"

section \<open>The store\<close>

record datastore_config =
  data_home_dir :: string
  table_name :: string

record data_store =
  conn :: bool
  store_config :: "datastore_config option"
  store_table :: string

definition new_data_store :: data_store where
  "new_data_store = \<lparr>conn = False, store_config = None, store_table = []\<rparr>"

text \<open>The second result of \<open>wt_open\<close> is whether the connection pointer was set. The creation of the directory is left
  out.\<close>

definition open_datastore_instance :: "'s wt_engine \<Rightarrow> datastore_config \<Rightarrow> data_store \<Rightarrow> 's \<Rightarrow> int \<times> data_store \<times> 's" where
  "open_datastore_instance eng config ds w =
     (let (_, set, w1) = wt_open eng (data_home_dir config) w
      in (0, \<lparr>conn = set \<or> conn ds, store_config = Some config, store_table = ''table:'' @ table_name config\<rparr>, w1))"

definition close_datastore_instance :: "'s wt_engine \<Rightarrow> data_store \<Rightarrow> 's \<Rightarrow> (int \<times> 's) res" where
  "close_datastore_instance eng ds w = (if conn ds then Inr (wt_close eng w) else Inl Undefined)"

section \<open>Sessions\<close>

record 's wt_session =
  cursor :: bool
  session_table :: string
  wt :: 's

definition open_cursor :: "'s wt_engine \<Rightarrow> 's wt_session \<Rightarrow> 's wt_session res" where
  "open_cursor eng ss =
     (let (ret, w) = wt_open_cursor eng (session_table ss) (wt ss)
      in rbind (check_op ret) (\<lambda>_. Inr (ss\<lparr>cursor := True, wt := w\<rparr>)))"

definition new_session :: "'s wt_engine \<Rightarrow> string \<Rightarrow> 's \<Rightarrow> 's wt_session res" where
  "new_session eng table w =
     (let (ret, w1) = wt_create eng table w
      in rbind (check_op ret) (\<lambda>_. open_cursor eng \<lparr>cursor = False, session_table = table, wt = w1\<rparr>))"

definition new_datastore_session :: "'s wt_engine \<Rightarrow> data_store \<Rightarrow> 's \<Rightarrow> 's wt_session res" where
  "new_datastore_session eng ds w =
     (if \<not> conn ds then Inl Runtime_error
      else let (ret, w1) = wt_open_session eng w
           in if ret \<noteq> 0 then Inl Undefined else new_session eng (store_table ds) w1)"

definition with_cursor :: "'s wt_engine \<Rightarrow> 's wt_session \<Rightarrow> 's wt_session res" where
  "with_cursor eng ss = (if cursor ss then Inr ss else open_cursor eng ss)"

definition get :: "'s wt_engine \<Rightarrow> string \<Rightarrow> 's wt_session \<Rightarrow> (string option \<times> 's wt_session) res" where
  "get eng key ss =
     rbind (with_cursor eng ss) (\<lambda>ss1.
       let (ret, w) = wt_search eng (wt_set_key eng key (wt ss1))
       in if ret = 0 then
            (let (ret2, value, w1) = wt_get_value eng w in rbind (check_op ret2) (\<lambda>_. Inr (Some value, ss1\<lparr>wt := w1\<rparr>)))
          else Inr (None, ss1\<lparr>wt := w\<rparr>))"

definition upsert_kv :: "'s wt_engine \<Rightarrow> string \<Rightarrow> string \<Rightarrow> 's wt_session \<Rightarrow> 's wt_session res" where
  "upsert_kv eng key value ss =
     rbind (with_cursor eng ss) (\<lambda>ss1.
       let (ret, w) = wt_insert eng (wt_set_value eng value (wt_set_key eng key (wt ss1)))
       in rbind (check_op ret) (\<lambda>_. Inr (ss1\<lparr>wt := w\<rparr>)))"

definition insert_kv :: "'s wt_engine \<Rightarrow> string \<Rightarrow> string \<Rightarrow> 's wt_session \<Rightarrow> (bool \<times> 's wt_session) res" where
  "insert_kv eng key value ss =
     rbind (with_cursor eng ss) (\<lambda>ss1.
       let (found, w) = wt_search eng (wt_set_key eng key (wt ss1))
       in if found = 0 then Inr (False, ss1\<lparr>wt := w\<rparr>)
          else let (ret, w1) = wt_insert eng (wt_set_value eng value w)
               in rbind (check_op ret) (\<lambda>_. Inr (True, ss1\<lparr>wt := w1\<rparr>)))"

definition delete_kv :: "'s wt_engine \<Rightarrow> string \<Rightarrow> 's wt_session \<Rightarrow> 's wt_session res" where
  "delete_kv eng key ss =
     rbind (with_cursor eng ss) (\<lambda>ss1.
       let (ret, w) = wt_remove eng (wt_set_key eng key (wt ss1))
       in rbind (check_op ret) (\<lambda>_. Inr (ss1\<lparr>wt := w\<rparr>)))"

section \<open>The promises of the engine\<close>

text \<open>The records of the table, and the key and value set on the cursor. A search that finds nothing leaves the key set;
  an insert overwrites; the removal of a record that is there succeeds, and a removal that succeeds leaves no record. Whether the
  removal of an absent record succeeds is left open: it depends on the version of the engine.\<close>

record 's wt_view =
  tbl :: "'s \<Rightarrow> string \<rightharpoonup> string"
  key_of :: "'s \<Rightarrow> string option"
  value_of :: "'s \<Rightarrow> string option"

definition engine_ok :: "'s wt_engine \<Rightarrow> 's wt_view \<Rightarrow> bool" where
  "engine_ok eng v \<longleftrightarrow>
     (\<forall>w t. fst (wt_open_cursor eng t w) = 0 \<and> tbl v (snd (wt_open_cursor eng t w)) = tbl v w) \<and>
     (\<forall>w t. fst (wt_create eng t w) = 0 \<and> tbl v (snd (wt_create eng t w)) = tbl v w) \<and>
     (\<forall>w. fst (wt_open_session eng w) = 0 \<and> tbl v (snd (wt_open_session eng w)) = tbl v w) \<and>
     (\<forall>w k. tbl v (wt_set_key eng k w) = tbl v w \<and> key_of v (wt_set_key eng k w) = Some k) \<and>
     (\<forall>w x. tbl v (wt_set_value eng x w) = tbl v w \<and> key_of v (wt_set_value eng x w) = key_of v w \<and>
        value_of v (wt_set_value eng x w) = Some x) \<and>
     (\<forall>w k. key_of v w = Some k \<longrightarrow>
        tbl v (snd (wt_search eng w)) = tbl v w \<and>
        (case tbl v w k of
           None \<Rightarrow> fst (wt_search eng w) \<noteq> 0 \<and> key_of v (snd (wt_search eng w)) = Some k
         | Some x \<Rightarrow> fst (wt_search eng w) = 0 \<and>
             (\<exists>w1. wt_get_value eng (snd (wt_search eng w)) = (0, x, w1) \<and> tbl v w1 = tbl v w))) \<and>
     (\<forall>w k x. key_of v w = Some k \<longrightarrow> value_of v w = Some x \<longrightarrow>
        fst (wt_insert eng w) = 0 \<and> tbl v (snd (wt_insert eng w)) = (tbl v w)(k \<mapsto> x)) \<and>
     (\<forall>w k. key_of v w = Some k \<longrightarrow>
        (tbl v w k \<noteq> None \<longrightarrow> fst (wt_remove eng w) = 0) \<and>
        (fst (wt_remove eng w) = 0 \<longrightarrow> tbl v (snd (wt_remove eng w)) = (tbl v w)(k := None)))"


lemma engine_laws:
  assumes "engine_ok eng v"
  shows
    "fst (wt_open_cursor eng t w) = 0" "tbl v (snd (wt_open_cursor eng t w)) = tbl v w"
    "fst (wt_create eng t w) = 0" "tbl v (snd (wt_create eng t w)) = tbl v w"
    "fst (wt_open_session eng w) = 0" "tbl v (snd (wt_open_session eng w)) = tbl v w"
    "tbl v (wt_set_key eng k w) = tbl v w" "key_of v (wt_set_key eng k w) = Some k"
    "tbl v (wt_set_value eng x w) = tbl v w" "key_of v (wt_set_value eng x w) = key_of v w"
    "value_of v (wt_set_value eng x w) = Some x"
    "key_of v w = Some k \<Longrightarrow> tbl v (snd (wt_search eng w)) = tbl v w"
    "key_of v w = Some k \<Longrightarrow> tbl v w k = None \<Longrightarrow> fst (wt_search eng w) \<noteq> 0 \<and> key_of v (snd (wt_search eng w)) = Some k"
    "key_of v w = Some k \<Longrightarrow> tbl v w k = Some x \<Longrightarrow> fst (wt_search eng w) = 0 \<and>
       (\<exists>w1. wt_get_value eng (snd (wt_search eng w)) = (0, x, w1) \<and> tbl v w1 = tbl v w)"
    "key_of v w = Some k \<Longrightarrow> value_of v w = Some x \<Longrightarrow> fst (wt_insert eng w) = 0 \<and>
       tbl v (snd (wt_insert eng w)) = (tbl v w)(k \<mapsto> x)"
    "key_of v w = Some k \<Longrightarrow> (tbl v w k \<noteq> None \<longrightarrow> fst (wt_remove eng w) = 0) \<and>
       (fst (wt_remove eng w) = 0 \<longrightarrow> tbl v (snd (wt_remove eng w)) = (tbl v w)(k := None))"
proof -
  note ok = assms[unfolded engine_ok_def]
  show "fst (wt_open_cursor eng t w) = 0" "tbl v (snd (wt_open_cursor eng t w)) = tbl v w"
    "fst (wt_create eng t w) = 0" "tbl v (snd (wt_create eng t w)) = tbl v w"
    "fst (wt_open_session eng w) = 0" "tbl v (snd (wt_open_session eng w)) = tbl v w"
    "tbl v (wt_set_key eng k w) = tbl v w" "key_of v (wt_set_key eng k w) = Some k"
    "tbl v (wt_set_value eng x w) = tbl v w" "key_of v (wt_set_value eng x w) = key_of v w"
    "value_of v (wt_set_value eng x w) = Some x"
    using ok by blast+
  have S: "tbl v (snd (wt_search eng w)) = tbl v w \<and>
      (case tbl v w k of
         None \<Rightarrow> fst (wt_search eng w) \<noteq> 0 \<and> key_of v (snd (wt_search eng w)) = Some k
       | Some x \<Rightarrow> fst (wt_search eng w) = 0 \<and>
           (\<exists>w1. wt_get_value eng (snd (wt_search eng w)) = (0, x, w1) \<and> tbl v w1 = tbl v w))" if "key_of v w = Some k"
    using ok that by blast
  show "key_of v w = Some k \<Longrightarrow> tbl v (snd (wt_search eng w)) = tbl v w" using S by blast
  show "key_of v w = Some k \<Longrightarrow> tbl v w k = None \<Longrightarrow> fst (wt_search eng w) \<noteq> 0 \<and> key_of v (snd (wt_search eng w)) = Some k"
    "key_of v w = Some k \<Longrightarrow> tbl v w k = Some x \<Longrightarrow> fst (wt_search eng w) = 0 \<and>
       (\<exists>w1. wt_get_value eng (snd (wt_search eng w)) = (0, x, w1) \<and> tbl v w1 = tbl v w)"
    using S by simp_all
  show "key_of v w = Some k \<Longrightarrow> value_of v w = Some x \<Longrightarrow> fst (wt_insert eng w) = 0 \<and>
       tbl v (snd (wt_insert eng w)) = (tbl v w)(k \<mapsto> x)"
    "key_of v w = Some k \<Longrightarrow> (tbl v w k \<noteq> None \<longrightarrow> fst (wt_remove eng w) = 0) \<and>
       (fst (wt_remove eng w) = 0 \<longrightarrow> tbl v (snd (wt_remove eng w)) = (tbl v w)(k := None))"
    using ok by blast+
qed

section \<open>The interface of a session\<close>

datatype kv_op = Get string | Upsert string string | Insert string string | Delete string
datatype kv_answer = Value "string option" | Inserted bool | Done

text \<open>What the operations mean for a map.\<close>

fun spec_op :: "kv_op \<Rightarrow> (string \<rightharpoonup> string) \<Rightarrow> kv_answer \<times> (string \<rightharpoonup> string)" where
  "spec_op (Get k) m = (Value (m k), m)"
| "spec_op (Upsert k x) m = (Done, m(k \<mapsto> x))"
| "spec_op (Insert k x) m = (Inserted (m k = None), if m k = None then m(k \<mapsto> x) else m)"
| "spec_op (Delete k) m = (Done, m(k := None))"

fun spec_run :: "kv_op list \<Rightarrow> (string \<rightharpoonup> string) \<Rightarrow> kv_answer list \<times> (string \<rightharpoonup> string)" where
  "spec_run [] m = ([], m)"
| "spec_run (x # xs) m = (let (a, m1) = spec_op x m; (as, m2) = spec_run xs m1 in (a # as, m2))"

fun kv_run :: "(kv_op \<Rightarrow> 's \<Rightarrow> (kv_answer \<times> 's) res) \<Rightarrow> kv_op list \<Rightarrow> 's \<Rightarrow> (kv_answer list \<times> 's) res" where
  "kv_run f [] s = Inr ([], s)"
| "kv_run f (x # xs) s = rbind (f x s) (\<lambda>(a, s1). rbind (kv_run f xs s1) (\<lambda>(as, s2). Inr (a # as, s2)))"

text \<open>The environment of the operations, here the engine, is fixed by the first argument of each.\<close>

locale kv_session =
  fixes get_op :: "'e \<Rightarrow> string \<Rightarrow> 's \<Rightarrow> (string option \<times> 's) res"
    and upsert_op :: "'e \<Rightarrow> string \<Rightarrow> string \<Rightarrow> 's \<Rightarrow> 's res"
    and insert_op :: "'e \<Rightarrow> string \<Rightarrow> string \<Rightarrow> 's \<Rightarrow> (bool \<times> 's) res"
    and delete_op :: "'e \<Rightarrow> string \<Rightarrow> 's \<Rightarrow> 's res"
    and view :: "'e \<Rightarrow> 's \<Rightarrow> string \<rightharpoonup> string"
    and env_ok :: "'e \<Rightarrow> bool"
  assumes get_law: "env_ok e \<Longrightarrow> \<exists>s'. get_op e k s = Inr (view e s k, s') \<and> view e s' = view e s"
    and upsert_law: "env_ok e \<Longrightarrow> \<exists>s'. upsert_op e k x s = Inr s' \<and> view e s' = (view e s)(k \<mapsto> x)"
    and insert_law: "env_ok e \<Longrightarrow> \<exists>s'. insert_op e k x s = Inr (view e s k = None, s') \<and>
      view e s' = (if view e s k = None then (view e s)(k \<mapsto> x) else view e s)"
    and delete_law: "env_ok e \<Longrightarrow> (\<exists>s'. delete_op e k s = Inr s' \<and> view e s' = (view e s)(k := None)) \<or>
      view e s k = None \<and> delete_op e k s = Inl (Exit_called 1)"
begin

fun op_step :: "'e \<Rightarrow> kv_op \<Rightarrow> 's \<Rightarrow> (kv_answer \<times> 's) res" where
  "op_step e (Get k) s = rbind (get_op e k s) (\<lambda>(x, s1). Inr (Value x, s1))"
| "op_step e (Upsert k x) s = rbind (upsert_op e k x s) (\<lambda>s1. Inr (Done, s1))"
| "op_step e (Insert k x) s = rbind (insert_op e k x s) (\<lambda>(b, s1). Inr (Inserted b, s1))"
| "op_step e (Delete k) s = rbind (delete_op e k s) (\<lambda>s1. Inr (Done, s1))"

lemma op_step_spec:
  "env_ok e \<Longrightarrow>
   (\<exists>s'. op_step e x s = Inr (fst (spec_op x (view e s)), s') \<and> view e s' = snd (spec_op x (view e s))) \<or>
   (\<exists>k. x = Delete k \<and> view e s k = None \<and> op_step e x s = Inl (Exit_called 1))"
proof (cases x)
  case (Delete k)
  assume "env_ok e"
  from delete_law[OF this, of k s] show ?thesis by (auto simp: Delete)
qed (use get_law[of e _ s] upsert_law[of e _ _ s] insert_law[of e _ _ s] in \<open>fastforce simp: rbind_eq_Inr\<close>)+

text \<open>A run answers as the map, up to its end or to the first removal that is refused.\<close>

lemma run_spec:
  "env_ok e \<Longrightarrow>
   (\<exists>s'. kv_run (op_step e) xs s = Inr (fst (spec_run xs (view e s)), s') \<and> view e s' = snd (spec_run xs (view e s))) \<or>
   (\<exists>ys k zs s'. xs = ys @ Delete k # zs \<and> kv_run (op_step e) ys s = Inr (fst (spec_run ys (view e s)), s') \<and>
      view e s' = snd (spec_run ys (view e s)) \<and> view e s' k = None \<and>
      op_step e (Delete k) s' = Inl (Exit_called 1) \<and> kv_run (op_step e) xs s = Inl (Exit_called 1))"
proof (induction xs arbitrary: s)
  case (Cons x xs)
  from op_step_spec[OF Cons.prems, of x s] show ?case
  proof
    assume "\<exists>s'. op_step e x s = Inr (fst (spec_op x (view e s)), s') \<and> view e s' = snd (spec_op x (view e s))"
    then obtain s1 where s1: "op_step e x s = Inr (fst (spec_op x (view e s)), s1)" "view e s1 = snd (spec_op x (view e s))"
      by blast
    from Cons.IH[OF Cons.prems, of s1] show ?thesis
    proof
      assume "\<exists>s'. kv_run (op_step e) xs s1 = Inr (fst (spec_run xs (view e s1)), s') \<and> view e s' = snd (spec_run xs (view e s1))"
      then show ?thesis using s1 by (intro disjI1) (auto simp: Let_def case_prod_unfold)
    next
      assume "\<exists>ys k zs s'. xs = ys @ Delete k # zs \<and> kv_run (op_step e) ys s1 = Inr (fst (spec_run ys (view e s1)), s') \<and>
        view e s' = snd (spec_run ys (view e s1)) \<and> view e s' k = None \<and>
        op_step e (Delete k) s' = Inl (Exit_called 1) \<and> kv_run (op_step e) xs s1 = Inl (Exit_called 1)"
      then obtain ys k zs s' where r: "xs = ys @ Delete k # zs" "kv_run (op_step e) ys s1 = Inr (fst (spec_run ys (view e s1)), s')"
        "view e s' = snd (spec_run ys (view e s1))" "view e s' k = None"
        "op_step e (Delete k) s' = Inl (Exit_called 1)" "kv_run (op_step e) xs s1 = Inl (Exit_called 1)" by blast
      have "kv_run (op_step e) (x # ys) s = Inr (fst (spec_run (x # ys) (view e s)), s')"
        "view e s' = snd (spec_run (x # ys) (view e s))" "kv_run (op_step e) (x # xs) s = Inl (Exit_called 1)"
        using s1 r(2,3,6) by (simp_all add: Let_def case_prod_unfold)
      with r(1,4,5) show ?thesis by (intro disjI2 exI[of _ "x # ys"] exI[of _ k] exI[of _ zs] exI[of _ s']) simp
    qed
  next
    assume "\<exists>k. x = Delete k \<and> view e s k = None \<and> op_step e x s = Inl (Exit_called 1)"
    then obtain k where "x = Delete k" "view e s k = None" "op_step e x s = Inl (Exit_called 1)" by blast
    then show ?thesis by (intro disjI2 exI[of _ "[]"] exI[of _ k] exI[of _ xs] exI[of _ s]) simp
  qed
qed simp

end

section \<open>Sessions of the engine\<close>

definition session_view :: "'s wt_engine \<times> 's wt_view \<Rightarrow> 's wt_session \<Rightarrow> string \<rightharpoonup> string" where
  "session_view e ss = tbl (snd e) (wt ss)"

lemma with_cursor_ok:
  "engine_ok eng v \<Longrightarrow> \<exists>ss1. with_cursor eng ss = Inr ss1 \<and> tbl v (wt ss1) = tbl v (wt ss)"
  using engine_laws(1,2)[of eng v "session_table ss" "wt ss"]
  by (auto simp: with_cursor_def open_cursor_def check_op_def split: prod.splits)

text \<open>Every operation opens the cursor and sets its key first.\<close>

lemma keyed:
  assumes ok: "engine_ok eng v"
  shows "\<exists>ss1 w. with_cursor eng ss = Inr ss1 \<and> wt_set_key eng k (wt ss1) = w \<and>
    tbl v w = tbl v (wt ss) \<and> key_of v w = Some k"
proof -
  obtain ss1 where "with_cursor eng ss = Inr ss1" "tbl v (wt ss1) = tbl v (wt ss)"
    using with_cursor_ok[OF ok] by blast
  then show ?thesis using engine_laws(7,8)[OF ok, of k "wt ss1"] by simp
qed

lemma get_ok:
  assumes ok: "engine_ok eng v"
  shows "\<exists>ss'. get eng k ss = Inr (tbl v (wt ss) k, ss') \<and> tbl v (wt ss') = tbl v (wt ss)"
proof -
  obtain ss1 w where c: "with_cursor eng ss = Inr ss1" "wt_set_key eng k (wt ss1) = w"
    and w: "tbl v w = tbl v (wt ss)" "key_of v w = Some k" using keyed[OF ok] by blast
  show ?thesis
  proof (cases "tbl v w k")
    case None
    then show ?thesis using engine_laws(12,13)[OF ok w(2)] c w
      by (auto simp: get_def split: prod.splits)
  next
    case (Some x)
    then obtain w1 where "wt_get_value eng (snd (wt_search eng w)) = (0, x, w1)" "tbl v w1 = tbl v w" "fst (wt_search eng w) = 0"
      using engine_laws(14)[OF ok w(2)] by blast
    then show ?thesis using Some c w by (auto simp: get_def check_op_def split: prod.splits)
  qed
qed

lemma upsert_kv_ok:
  assumes ok: "engine_ok eng v"
  shows "\<exists>ss'. upsert_kv eng k x ss = Inr ss' \<and> tbl v (wt ss') = (tbl v (wt ss))(k \<mapsto> x)"
proof -
  obtain ss1 w0 where c: "with_cursor eng ss = Inr ss1" "wt_set_key eng k (wt ss1) = w0"
    and w0: "tbl v w0 = tbl v (wt ss)" "key_of v w0 = Some k" using keyed[OF ok] by blast
  define w where "w = wt_set_value eng x w0"
  have w: "tbl v w = tbl v (wt ss)" "key_of v w = Some k" "value_of v w = Some x"
    using engine_laws(9-11)[OF ok] w0 by (simp_all add: w_def)
  show ?thesis using engine_laws(15)[OF ok w(2,3)] c w
    by (auto simp: upsert_kv_def check_op_def w_def[symmetric] split: prod.splits)
qed

lemma insert_kv_ok:
  assumes ok: "engine_ok eng v"
  shows "\<exists>ss'. insert_kv eng k x ss = Inr (tbl v (wt ss) k = None, ss') \<and>
    tbl v (wt ss') = (if tbl v (wt ss) k = None then (tbl v (wt ss))(k \<mapsto> x) else tbl v (wt ss))"
proof -
  obtain ss1 w where c: "with_cursor eng ss = Inr ss1" "wt_set_key eng k (wt ss1) = w"
    and w: "tbl v w = tbl v (wt ss)" "key_of v w = Some k" using keyed[OF ok] by blast
  have s: "tbl v (snd (wt_search eng w)) = tbl v w" by (rule engine_laws(12)[OF ok w(2)])
  show ?thesis
  proof (cases "tbl v w k")
    case None
    define w2 where "w2 = wt_set_value eng x (snd (wt_search eng w))"
    have n: "fst (wt_search eng w) \<noteq> 0" "key_of v (snd (wt_search eng w)) = Some k"
      using engine_laws(13)[OF ok w(2) None] by auto
    have w2: "tbl v w2 = tbl v (wt ss)" "key_of v w2 = Some k" "value_of v w2 = Some x"
      using engine_laws(9-11)[OF ok] n s w(1) by (simp_all add: w2_def)
    have i: "fst (wt_insert eng w2) = 0" "tbl v (snd (wt_insert eng w2)) = (tbl v (wt ss))(k \<mapsto> x)"
      using engine_laws(15)[OF ok w2(2,3)] w2(1) by auto
    show ?thesis using None n i c w
      by (auto simp: insert_kv_def check_op_def w2_def split: prod.splits)
  next
    case (Some y)
    then have "fst (wt_search eng w) = 0" using engine_laws(14)[OF ok w(2)] by blast
    then show ?thesis using Some s c w by (auto simp: insert_kv_def split: prod.splits)
  qed
qed

lemma delete_kv_ok:
  assumes ok: "engine_ok eng v"
  shows "(\<exists>ss'. delete_kv eng k ss = Inr ss' \<and> tbl v (wt ss') = (tbl v (wt ss))(k := None)) \<or>
    tbl v (wt ss) k = None \<and> delete_kv eng k ss = Inl (Exit_called 1)"
proof -
  obtain ss1 w where c: "with_cursor eng ss = Inr ss1" "wt_set_key eng k (wt ss1) = w"
    and w: "tbl v w = tbl v (wt ss)" "key_of v w = Some k" using keyed[OF ok] by blast
  from engine_laws(16)[OF ok w(2)] c w show ?thesis
    by (cases "fst (wt_remove eng w) = 0") (auto simp: delete_kv_def check_op_def split: prod.splits)
qed

interpretation wt: kv_session "\<lambda>e. get (fst e)" "\<lambda>e. upsert_kv (fst e)" "\<lambda>e. insert_kv (fst e)" "\<lambda>e. delete_kv (fst e)"
  session_view "\<lambda>e. engine_ok (fst e) (snd e)"
  by unfold_locales (unfold session_view_def, rule get_ok upsert_kv_ok insert_kv_ok delete_kv_ok; assumption)+

text \<open>One operation of the session, as a client calls it.\<close>

fun run_op :: "'s wt_engine \<Rightarrow> kv_op \<Rightarrow> 's wt_session \<Rightarrow> (kv_answer \<times> 's wt_session) res" where
  "run_op eng (Get k) ss = rbind (get eng k ss) (\<lambda>(x, s1). Inr (Value x, s1))"
| "run_op eng (Upsert k x) ss = rbind (upsert_kv eng k x ss) (\<lambda>s1. Inr (Done, s1))"
| "run_op eng (Insert k x) ss = rbind (insert_kv eng k x ss) (\<lambda>(b, s1). Inr (Inserted b, s1))"
| "run_op eng (Delete k) ss = rbind (delete_kv eng k ss) (\<lambda>s1. Inr (Done, s1))"

lemma run_op_step: "run_op eng = wt.op_step (eng, v)"
proof (intro ext)
  fix x ss show "run_op eng x ss = wt.op_step (eng, v) x ss" by (cases x) simp_all
qed


text \<open>The engine in memory: the table and what is set on the cursor.\<close>

type_synonym mem = "(string \<rightharpoonup> string) \<times> string option \<times> string option"

definition mem_engine :: "mem wt_engine" where
  "mem_engine =
     \<lparr>wt_open = (\<lambda>_ w. (0, True, w)), wt_open_session = (\<lambda>w. (0, w)), wt_close = (\<lambda>w. (0, w)),
      wt_create = (\<lambda>_ w. (0, w)), wt_open_cursor = (\<lambda>_ w. (0, w)),
      wt_set_key = (\<lambda>k (t, _, x). (t, Some k, x)), wt_set_value = (\<lambda>x (t, k, _). (t, k, Some x)),
      wt_search = (\<lambda>(t, k, x). (if t (the k) = None then -1 else 0, (t, k, x))),
      wt_get_value = (\<lambda>(t, k, x). (0, the (t (the k)), (t, k, x))),
      wt_insert = (\<lambda>(t, k, x). (0, (t(the k \<mapsto> the x), k, x))),
      wt_remove = (\<lambda>(t, k, x). (if t (the k) = None then -1 else 0, (t(the k := None), k, x)))\<rparr>"

definition mem_view :: "mem wt_view" where
  "mem_view = \<lparr>tbl = fst, key_of = (\<lambda>w. fst (snd w)), value_of = (\<lambda>w. snd (snd w))\<rparr>"

lemma mem_engine_ok: "engine_ok mem_engine mem_view"
  by (auto simp: engine_ok_def mem_engine_def mem_view_def split: option.splits)


text \<open>What is not a map: opening reports success whatever the engine says, and the first session then throws; a removal
  the engine refuses ends the process.\<close>

lemma open_hides_failure:
  "wt_open eng (data_home_dir config) w = (r, False, w1) \<Longrightarrow>
   \<exists>ds. open_datastore_instance eng config new_data_store w = (0, ds, w1) \<and> new_datastore_session eng ds w1 = Inl Runtime_error"
  by (simp add: open_datastore_instance_def new_data_store_def new_datastore_session_def)

lemma delete_refused:
  "cursor ss \<Longrightarrow> fst (wt_remove eng (wt_set_key eng k (wt ss))) \<noteq> 0 \<Longrightarrow> delete_kv eng k ss = Inl (Exit_called 1)"
  by (simp add: delete_kv_def with_cursor_def check_op_def case_prod_unfold)

end
