(* ===== verification/Deflate.thy ===== *)
theory Deflate
  imports Prelude
begin

text \<open>
  \<open>Deflate::compress\<close> of \<open>experiments/compression_benchmark/deflate_test_runner.cpp\<close>: a file is read in chunks, each
  chunk is handed to zlib, and what zlib puts out is written, chunk by chunk, through the buffer of the C library. zlib is
  an argument; \<open>zlib_ok\<close> says what its manual promises. So are the room on the stack and on the disk. Shown: the loop
  ends, its assertions hold, and what it has written is a complete stream of the whole file, as far as it reaches the disk.
\<close>

section \<open>zlib\<close>

text \<open>\<open>deflate zl next_in avail_out finish\<close> returns the code, the number of bytes consumed, the bytes put out, and the
  new state.\<close>

record 'z zlib =
  deflateInit :: "int \<Rightarrow> int \<times> 'z"
  deflate :: "string \<Rightarrow> nat \<Rightarrow> bool \<Rightarrow> 'z \<Rightarrow> int \<times> nat \<times> string \<times> 'z"

definition Z_OK :: int where "Z_OK = 0"
definition Z_STREAM_END :: int where "Z_STREAM_END = 1"
definition Z_STREAM_ERROR :: int where "Z_STREAM_ERROR = -2"
definition Z_MEM_ERROR :: int where "Z_MEM_ERROR = -4"
definition Z_BUF_ERROR :: int where "Z_BUF_ERROR = -5"

lemmas z_codes = Z_OK_def Z_STREAM_END_def Z_STREAM_ERROR_def Z_MEM_ERROR_def Z_BUF_ERROR_def

text \<open>What a state has consumed and put out; \<open>final\<close> is the input left after a call with \<open>Z_FINISH\<close>, with which the
  next call must go on.\<close>

record 'z zlib_view =
  consumed :: "'z \<Rightarrow> string"
  produced :: "'z \<Rightarrow> string"
  final :: "'z \<Rightarrow> string option"

text \<open>The manual: \<open>deflateInit\<close> succeeds with a known level if there is memory; \<open>deflate\<close> stops when the input is used up or the output is full; its output is bounded
  (\<open>deflateBound\<close>); a call with \<open>Z_FINISH\<close> that leaves room in the output has put out a complete stream, which
  \<open>inflate\<close> turns back into the input; a call without room does nothing.\<close>

definition deflate_ok :: "'z zlib_view \<Rightarrow> (string \<Rightarrow> string option) \<Rightarrow> (nat \<Rightarrow> nat) \<Rightarrow> string \<Rightarrow> nat \<Rightarrow> bool \<Rightarrow> 'z
    \<Rightarrow> int \<times> nat \<times> string \<times> 'z \<Rightarrow> bool" where
  "deflate_ok v inflate bound inp n finish z r \<longleftrightarrow>
     (case r of (ret, c, p, z1) \<Rightarrow>
        ret \<noteq> Z_STREAM_ERROR \<and> c \<le> length inp \<and> length p \<le> n \<and>
        consumed v z1 = consumed v z @ take c inp \<and> produced v z1 = produced v z @ p \<and>
        final v z1 = (if finish then Some (drop c inp) else None) \<and>
        length (produced v z1) \<le> bound (length (consumed v z1)) \<and>
        (length p < n \<longrightarrow> c = length inp \<and>
          (finish \<longrightarrow> ret = Z_STREAM_END \<and> inflate (produced v z1) = Some (consumed v z1))))"

definition zlib_ok :: "'z zlib \<Rightarrow> 'z zlib_view \<Rightarrow> (string \<Rightarrow> string option) \<Rightarrow> (nat \<Rightarrow> nat) \<Rightarrow> bool" where
  "zlib_ok zl v inflate bound \<longleftrightarrow>
     mono bound \<and>
     (\<forall>level. -1 \<le> level \<longrightarrow> level \<le> 9 \<longrightarrow>
        (case deflateInit zl level of (ret, z) \<Rightarrow>
           ret = Z_MEM_ERROR \<or> ret = Z_OK \<and> consumed v z = [] \<and> produced v z = [] \<and> final v z = None)) \<and>
     (\<forall>inp n finish z. 0 < n \<longrightarrow> final v z = None \<or> finish \<and> final v z = Some inp \<longrightarrow>
        deflate_ok v inflate bound inp n finish z (deflate zl inp n finish z)) \<and>
     (\<forall>inp finish z. deflate zl inp 0 finish z = (Z_BUF_ERROR, 0, [], z))"

section \<open>The loops\<close>

text \<open>The open output file: the room on the disk, if that is limited, and how many of the bytes written so far the C library
  has passed on to the system. A write fails when the system has no room for what is passed on; what is left in the
  buffer at the end goes to the disk in \<open>fclose\<close>, as far as there is room, and the result of \<open>fclose\<close> is not looked at.\<close>

record out_file =
  disk_room :: "nat option"
  passed_on :: "nat \<Rightarrow> nat"

definition write_fails :: "out_file \<Rightarrow> string \<Rightarrow> bool" where
  "write_fails f s = (case disk_room f of None \<Rightarrow> False | Some n \<Rightarrow> n < passed_on f (length s))"

definition close_file :: "out_file \<Rightarrow> string \<Rightarrow> string" where
  "close_file f s = (case disk_room f of None \<Rightarrow> s | Some n \<Rightarrow> take n s)"

text \<open>\<open>uInt\<close> of zlib.\<close>

definition uInt :: "nat \<Rightarrow> nat" where
  "uInt n = n mod 2 ^ 32"

text \<open>\<open>deflate_chunk\<close>: the loop over the output of one chunk of input; it returns the last code, the input left, what
  has been written, and the state. \<open>strm.avail_out\<close> is zero when the output is as long as it was set to; \<open>dest\<close> is
  \<open>None\<close> if the file could not be opened.\<close>

partial_function (option) deflate_chunk ::
    "'z zlib \<Rightarrow> nat \<Rightarrow> bool \<Rightarrow> out_file option \<Rightarrow> string \<Rightarrow> string \<Rightarrow> 'z \<Rightarrow> (int \<times> string \<times> string \<times> 'z) res option" where
  "deflate_chunk zl chunk_size finish dest inp written z =
     (let (ret, c, out, z1) = deflate zl inp (uInt chunk_size) finish z
      in if ret = Z_STREAM_ERROR then Some (Inl Assert_failed)
         else case dest of
                None \<Rightarrow> Some (Inl Undefined)
              | Some f \<Rightarrow>
                  if write_fails f (written @ out) then Some (Inl (Exit_called 1))
                  else if length out = uInt chunk_size
                       then deflate_chunk zl chunk_size finish dest (drop c inp) (written @ out) z1
                       else Some (Inr (ret, drop c inp, written @ out, z1)))"

text \<open>\<open>deflate_file\<close>: the loop over the input; \<open>fault\<close> is the number of reads until one fails. The end of the file is seen
  when a read gets less than it asked for. zlib is told the length of the chunk modulo \<open>2 ^ 32\<close>.\<close>

partial_function (option) deflate_file ::
    "'z zlib \<Rightarrow> nat \<Rightarrow> nat option \<Rightarrow> out_file option \<Rightarrow> string \<Rightarrow> string \<Rightarrow> 'z \<Rightarrow> string res option" where
  "deflate_file zl chunk_size fault dest source written z =
     (if fault = Some 0 then Some (Inl (Exit_called 1))
      else let finish = length source < chunk_size; chunk = take chunk_size source
           in case deflate_chunk zl chunk_size finish dest (take (uInt (length chunk)) chunk) written z of
                None \<Rightarrow> None
              | Some (Inl e) \<Rightarrow> Some (Inl e)
              | Some (Inr (ret, left, written1, z1)) \<Rightarrow>
                  if left \<noteq> [] then Some (Inl Assert_failed)
                  else if finish then Some (if ret = Z_STREAM_END then Inr written1 else Inl Assert_failed)
                  else deflate_file zl chunk_size (map_option (\<lambda>n. n - 1) fault) dest (drop chunk_size source) written1 z1)"

text \<open>The two buffers are arrays of the chunk size on the stack, which has room for \<open>stack\<close> bytes. The result is the text of
  the output file.\<close>

definition deflate_compress ::
    "'z zlib \<Rightarrow> nat \<Rightarrow> string option \<Rightarrow> out_file option \<Rightarrow> int \<Rightarrow> int \<Rightarrow> nat option \<Rightarrow> string res option" where
  "deflate_compress zl stack source dest level chunck_size fault =
     (if chunck_size \<le> 0 \<or> int stack < 2 * chunck_size then Some (Inl Undefined)
      else
        let (ret, z) = deflateInit zl level
        in if ret \<noteq> Z_OK then Some (Inl (Exit_called 1))
           else case source of
                  None \<Rightarrow> Some (Inl Undefined)
                | Some text \<Rightarrow>
                    (case deflate_file zl (nat chunck_size) fault dest text [] z of
                       None \<Rightarrow> None
                     | Some (Inl e) \<Rightarrow> Some (Inl e)
                     | Some (Inr written) \<Rightarrow>
                         (case dest of None \<Rightarrow> Some (Inl Undefined) | Some f \<Rightarrow> Some (Inr (close_file f written)))))"

section \<open>The file is compressed\<close>

lemma zlib_step:
  assumes "zlib_ok zl v inflate bound" "0 < n" "final v z = None \<or> finish \<and> final v z = Some inp"
  shows "\<exists>ret c out z1. deflate zl inp n finish z = (ret, c, out, z1) \<and>
    deflate_ok v inflate bound inp n finish z (ret, c, out, z1)"
proof -
  obtain ret c out z1 where e: "deflate zl inp n finish z = (ret, c, out, z1)" by (cases "deflate zl inp n finish z")
  have "deflate_ok v inflate bound inp n finish z (deflate zl inp n finish z)"
    using assms unfolding zlib_ok_def by blast
  then show ?thesis unfolding e by blast
qed

lemma zlib_init:
  assumes "zlib_ok zl v inflate bound" "-1 \<le> level" "level \<le> 9"
  shows "\<exists>ret z. deflateInit zl level = (ret, z) \<and>
    (ret = Z_MEM_ERROR \<or> ret = Z_OK \<and> consumed v z = [] \<and> produced v z = [] \<and> final v z = None)"
proof -
  have "\<forall>level. -1 \<le> level \<longrightarrow> level \<le> 9 \<longrightarrow>
        (case deflateInit zl level of (ret, z) \<Rightarrow>
           ret = Z_MEM_ERROR \<or> ret = Z_OK \<and> consumed v z = [] \<and> produced v z = [] \<and> final v z = None)"
    using assms(1) unfolding zlib_ok_def by (elim conjE)
  then show ?thesis using assms(2,3) by (cases "deflateInit zl level") force
qed

text \<open>A write only fails on a disk that is too small for the stream.\<close>

definition passes_written :: "out_file \<Rightarrow> bool" where
  "passes_written f \<longleftrightarrow> (\<forall>n. passed_on f n \<le> n)"

lemma write_fails_full:
  assumes "passes_written f" "write_fails f s" "length s \<le> b"
  shows "\<exists>k. disk_room f = Some k \<and> k < b"
proof -
  obtain k where k: "disk_room f = Some k" "k < passed_on f (length s)"
    using assms(2) by (auto simp: write_fails_def split: option.splits)
  have "passed_on f (length s) \<le> length s" using assms(1) by (simp add: passes_written_def)
  with k assms(3) show ?thesis by auto
qed

text \<open>The loop over one chunk of input ends with the chunk consumed, or because the disk is full.\<close>

lemma deflate_chunk_ok:
  assumes zl: "zlib_ok zl v inflate bound" and n: "0 < n" "n < 2 ^ 32" and f: "passes_written f"
  shows "final v z = None \<or> finish \<and> final v z = Some inp \<Longrightarrow> produced v z = written \<Longrightarrow>
    length (consumed v z) + length inp \<le> tot \<Longrightarrow>
    (deflate_chunk zl n finish (Some f) inp written z = Some (Inl (Exit_called 1)) \<and> (\<exists>k. disk_room f = Some k \<and> k < bound tot)) \<or>
    (\<exists>ret z1. deflate_chunk zl n finish (Some f) inp written z = Some (Inr (ret, [], produced v z1, z1)) \<and>
      consumed v z1 = consumed v z @ inp \<and> length (produced v z1) \<le> bound tot \<and> (final v z1 = None \<or> finish) \<and>
      (finish \<longrightarrow> ret = Z_STREAM_END \<and> inflate (produced v z1) = Some (consumed v z1)))"
proof (induction "bound tot - length written" arbitrary: inp written z rule: less_induct)
  case less
  have u: "uInt n = n" using n(2) by (simp add: uInt_def)
  obtain ret c out z1 where e: "deflate zl inp n finish z = (ret, c, out, z1)"
    and ok: "deflate_ok v inflate bound inp n finish z (ret, c, out, z1)"
    using zlib_step[OF zl n(1) less(2)] by blast
  have d: "ret \<noteq> Z_STREAM_ERROR" "c \<le> length inp" "length out \<le> n" "consumed v z1 = consumed v z @ take c inp"
    "produced v z1 = written @ out" "final v z1 = (if finish then Some (drop c inp) else None)"
    "length (produced v z1) \<le> bound (length (consumed v z1))"
    and full: "length out < n \<longrightarrow> c = length inp \<and>
      (finish \<longrightarrow> ret = Z_STREAM_END \<and> inflate (produced v z1) = Some (consumed v z1))"
    using ok[unfolded deflate_ok_def case_prod_conv less(3)] by blast+
  have len: "length (consumed v z1) + length (drop c inp) \<le> tot" using d(2,4) less(4) by simp
  have "mono bound" using zl by (simp add: zlib_ok_def)
  then have b: "length (written @ out) \<le> bound tot" using d(5,7) len monoD[of bound "length (consumed v z1)" tot] by simp
  consider "write_fails f (written @ out)" | "\<not> write_fails f (written @ out)" "length out = n"
    | "\<not> write_fails f (written @ out)" "length out < n" using d(3) by linarith
  then show ?case
  proof cases
    case 1
    then show ?thesis using write_fails_full[OF f 1 b] d(1) e by (subst deflate_chunk.simps) (simp add: u)
  next
    case 2
    then have "bound tot - length (written @ out) < bound tot - length written" using b n by simp
    moreover have "final v z1 = None \<or> finish \<and> final v z1 = Some (drop c inp)" using d(6) by simp
    moreover have "deflate_chunk zl n finish (Some f) inp written z =
        deflate_chunk zl n finish (Some f) (drop c inp) (written @ out) z1"
      using 2 d(1) e by (subst deflate_chunk.simps) (simp add: u)
    ultimately show ?thesis using less(1)[OF _ _ d(5) len] d(4) by simp
  next
    case 3
    then show ?thesis using d full e b by (subst deflate_chunk.simps) (auto simp: Let_def u)
  qed
qed

lemma deflate_file_ok:
  assumes zl: "zlib_ok zl v inflate bound" and n: "0 < n" "n < 2 ^ 32" and f: "passes_written f"
  shows "final v z = None \<Longrightarrow> produced v z = written \<Longrightarrow> length (consumed v z) + length source \<le> tot \<Longrightarrow>
    (deflate_file zl n fault (Some f) source written z = Some (Inl (Exit_called 1)) \<and>
      ((\<exists>k. fault = Some k \<and> k \<le> length source div n) \<or> (\<exists>k. disk_room f = Some k \<and> k < bound tot))) \<or>
    (\<exists>out. deflate_file zl n fault (Some f) source written z = Some (Inr out) \<and> inflate out = Some (consumed v z @ source) \<and>
       length out \<le> bound tot)"
proof (induction "length source" arbitrary: source written z fault rule: less_induct)
  case less
  let ?finish = "length source < n"
  have u: "take (uInt (length (take n source))) (take n source) = take n source"
  proof -
    have "length (take n source) < 2 ^ 32" using n(2) by simp
    then have "uInt (length (take n source)) = length (take n source)" by (simp only: uInt_def mod_less)
    then show ?thesis by (simp only: take_all order_refl)
  qed
  let ?chunk = "deflate_chunk zl n ?finish (Some f) (take n source) written z"
  have D: "deflate_file zl n fault (Some f) source written z =
     (if fault = Some 0 then Some (Inl (Exit_called 1))
      else case ?chunk of
             None \<Rightarrow> None
           | Some (Inl e) \<Rightarrow> Some (Inl e)
           | Some (Inr (ret, left, written1, z1)) \<Rightarrow>
               if left \<noteq> [] then Some (Inl Assert_failed)
               else if ?finish then Some (if ret = Z_STREAM_END then Inr written1 else Inl Assert_failed)
               else deflate_file zl n (map_option (\<lambda>n. n - 1) fault) (Some f) (drop n source) written1 z1)"
    by (subst deflate_file.simps) (simp only: Let_def u)
  have "length (consumed v z) + length (take n source) \<le> tot" using less(4) by simp
  from deflate_chunk_ok[OF zl n f disjI1[OF less(2)] less(3) this, of ?finish]
  consider "fault = Some 0" | "fault \<noteq> Some 0" "?chunk = Some (Inl (Exit_called 1))" "\<exists>k. disk_room f = Some k \<and> k < bound tot"
    | ret z1 where "fault \<noteq> Some 0" "?chunk = Some (Inr (ret, [], produced v z1, z1))" "consumed v z1 = consumed v z @ take n source"
      "length (produced v z1) \<le> bound tot" "final v z1 = None \<or> ?finish" "?finish \<longrightarrow> ret = Z_STREAM_END \<and> inflate (produced v z1) = Some (consumed v z1)"
    by blast
  then show ?case
  proof cases
    case 1
    then show ?thesis by (subst D) simp
  next
    case 2
    then show ?thesis by (subst D) simp
  next
    case c: 3
    show ?thesis
    proof (cases ?finish)
      case True
      then show ?thesis using c True by (subst D) simp
    next
      case False
      have s: "length (drop n source) < length source" "final v z1 = None" 
        "length (consumed v z1) + length (drop n source) \<le> tot" "length source div n = Suc (length (drop n source) div n)"
        using False n c(3,5) less(4) by (simp_all add: le_div_geq)
      have eq: "deflate_file zl n fault (Some f) source written z =
          deflate_file zl n (map_option (\<lambda>n. n - 1) fault) (Some f) (drop n source) (produced v z1) z1"
        using c(1,2) False by (subst D) simp
      have "consumed v z1 @ drop n source = consumed v z @ source" using c(3) by simp
      moreover have "\<exists>k. fault = Some k \<and> k \<le> length source div n"
        if "\<exists>k. map_option (\<lambda>n. n - 1) fault = Some k \<and> k \<le> length (drop n source) div n"
        using that s(4) by auto
      ultimately show ?thesis
        using less(1)[OF s(1,2) refl s(3), of "map_option (\<lambda>n. n - 1) fault"] unfolding eq by metis
    qed
  qed
qed


text \<open>A library that stores: what it consumes it puts out, then a mark for the end. Its state is the text consumed, the
  input a call with \<open>Z_FINISH\<close> left, and whether the mark is out.\<close>

definition stored :: "(string \<times> string option \<times> bool) zlib" where
  "stored =
     \<lparr>deflateInit = (\<lambda>level. (if -1 \<le> level \<and> level \<le> 9 then Z_OK else Z_STREAM_ERROR, ([], None, False))),
      deflate = (\<lambda>inp n finish (t, f, e).
        if n = 0 then (Z_BUF_ERROR, 0, [], (t, f, e))
        else if f = Some [] \<and> e then (Z_STREAM_END, 0, [], (t, f, e))
        else let c = min n (length inp); mark = (finish \<and> length inp < n)
             in (if mark then Z_STREAM_END else Z_OK, c, take c inp @ (if mark then ''!'' else []),
                 (t @ take c inp, if finish then Some (drop c inp) else None, mark)))\<rparr>"

definition stored_view :: "(string \<times> string option \<times> bool) zlib_view" where
  "stored_view = \<lparr>consumed = fst, produced = (\<lambda>(t, f, e). t @ (if f = Some [] \<and> e then ''!'' else [])), final = (\<lambda>z. fst (snd z))\<rparr>"

lemma stored_ok: "zlib_ok stored stored_view (\<lambda>s. Some (butlast s)) Suc"
  unfolding zlib_ok_def
proof (intro conjI allI impI)
  fix inp and n :: nat and finish z assume "0 < n" "final stored_view z = None \<or> finish \<and> final stored_view z = Some inp"
  then show "deflate_ok stored_view (\<lambda>s. Some (butlast s)) Suc inp n finish z (deflate stored inp n finish z)"
    by (cases z) (auto simp: deflate_ok_def stored_def stored_view_def z_codes Let_def min_def butlast_append)
qed (auto simp: stored_def stored_view_def z_codes mono_def)

definition roomy :: out_file where
  "roomy = \<lparr>disk_room = None, passed_on = id\<rparr>"


text \<open>The disk is full and nobody says so: the library keeps the stream in its buffer, and \<open>fclose\<close> writes what it can.\<close>

lemma deflate_truncates:
  "deflate_compress stored 100 (Some ''abcd'') (Some \<lparr>disk_room = Some 2, passed_on = (\<lambda>_. 0)\<rparr>) 9 3 None = Some (Inr ''ab'')"
proof -
  let ?f = "Some \<lparr>disk_room = Some 2, passed_on = (\<lambda>_. 0)\<rparr> :: out_file option"
  have 1: "deflate_chunk stored 3 False ?f ''abc'' [] ([], None, False) =
      deflate_chunk stored 3 False ?f [] ''abc'' (''abc'', None, False)"
    by (subst deflate_chunk.simps) (simp add: stored_def uInt_def write_fails_def z_codes Let_def)
  have 2: "deflate_chunk stored 3 False ?f [] ''abc'' (''abc'', None, False) = Some (Inr (Z_OK, [], ''abc'', (''abc'', None, False)))"
    by (subst deflate_chunk.simps) (simp add: stored_def uInt_def write_fails_def z_codes Let_def)
  have 3: "deflate_chunk stored 3 True ?f ''d'' ''abc'' (''abc'', None, False) =
      Some (Inr (Z_STREAM_END, [], ''abcd!'', (''abcd'', Some [], True)))"
    by (subst deflate_chunk.simps) (simp add: stored_def uInt_def write_fails_def z_codes Let_def)
  have "deflate_file stored 3 None ?f ''d'' ''abc'' (''abc'', None, False) = Some (Inr ''abcd!'')"
    by (subst deflate_file.simps) (simp add: uInt_def 3 Let_def)
  then have "deflate_file stored 3 None ?f ''abcd'' [] ([], None, False) = Some (Inr ''abcd!'')"
    by (subst deflate_file.simps) (simp add: uInt_def 1 2 Let_def)
  moreover have "deflateInit stored 9 = (Z_OK, ([], None, False))" by (simp add: stored_def)
  ultimately show ?thesis by (simp add: deflate_compress_def close_file_def)
qed

text \<open>A chunk size of \<open>2 ^ 32\<close>, on a machine whose stack has room for the buffers: zlib is told that it has no room for
  output, and the loop does not end.\<close>

lemma deflate_zero_chunk:
  assumes "zlib_ok zl v inflate bound" "uInt chunk_size = 0" "disk_room f = None"
  shows "deflate_chunk zl chunk_size finish (Some f) inp written z = None"
proof (rule ccontr)
  assume "deflate_chunk zl chunk_size finish (Some f) inp written z \<noteq> None"
  then obtain r where "deflate_chunk zl chunk_size finish (Some f) inp written z = Some r" by blast
  moreover have "\<not> (n = chunk_size \<and> dest = Some f \<and> zl' = zl)"
    if "deflate_chunk zl' n finish dest inp written z = Some r" for zl' :: "'a zlib" and n dest inp written z r
    using that
  proof (induction rule: deflate_chunk.raw_induct[rotated, consumes 1])
    case (1 g zl' n finish dest inp written z r)
    have d: "deflate zl inp 0 finish z = (Z_BUF_ERROR, 0, [], z)" for inp finish z
      using assms(1) by (simp add: zlib_ok_def)
    show ?case
    proof
      assume a: "n = chunk_size \<and> dest = Some f \<and> zl' = zl"
      then have "g zl chunk_size finish (Some f) inp written z = Some r"
        using 1(2) d assms(2,3) by (simp add: z_codes write_fails_def)
      from 1(1)[OF this] show False by simp
    qed
  qed
  ultimately show False by blast
qed

end
