(* ===== verification/Benchmark.thy ===== *)
theory Benchmark
  imports Vulcan_Param Ifc_File Deflate
begin

text \<open>
  The benchmark of \<open>src/src/experiments\<close>: \<open>traverseDir\<close> of \<open>test_util.cpp\<close> runs a converter over the files of a
  directory tree; the runners give it the IFC compressor and zlib; \<open>compress_benchmark.cpp\<close> reads the configuration.
  The contract of a converter is the locale \<open>file_converter\<close>, interpreted on both. Paths are strings; the entries of a
  directory are given in the order in which the iterator visits them, relative to it, with whether they are regular
  files. Running times are not modelled.
\<close>

section \<open>Files\<close>

record disk =
  directories :: "string list"
  contents :: files

definition parent_path :: "string \<Rightarrow> string" where
  "parent_path p = rev (drop 1 (dropWhile (\<lambda>c. c \<noteq> CHR ''/'') (rev p)))"

text \<open>\<open>path::extension\<close>: from the last dot of the file name, unless that is its first character.\<close>

definition extension :: "string \<Rightarrow> string" where
  "extension p =
     (let f = filename p
      in if f = ''..'' then []
         else case index_of (\<lambda>c. c = CHR ''.'') (rev f) of
                None \<Rightarrow> []
              | Some i \<Rightarrow> if length f = Suc i then [] else drop (length f - Suc i) f)"

definition create_directory :: "string \<Rightarrow> disk \<Rightarrow> disk" where
  "create_directory p d = (if p \<in> set (directories d) then d else d\<lparr>directories := p # directories d\<rparr>)"

text \<open>The directories above a path; \<open>create_directories\<close> makes those that are missing.\<close>

definition ancestors :: "string \<Rightarrow> string list" where
  "ancestors p = map (\<lambda>i. take i p) (filter (\<lambda>i. 0 < i \<and> p ! i = CHR ''/'') [0..<length p])"

definition create_directories :: "string \<Rightarrow> disk \<Rightarrow> disk" where
  "create_directories p d = fold create_directory (ancestors p @ [p]) d"

lemma create_directory_simps [simp]:
  "set (directories (create_directory p d)) = insert p (set (directories d))"
  "contents (create_directory p d) = contents d"
  by (auto simp: create_directory_def)

lemma create_directories_fold:
  "set (directories (fold create_directory ps d)) = set ps \<union> set (directories d) \<and> contents (fold create_directory ps d) = contents d"
  by (induction ps arbitrary: d) auto

lemma create_directories_simps [simp]:
  "set (directories (create_directories p d)) = insert p (set (ancestors p) \<union> set (directories d))"
  "contents (create_directories p d) = contents d"
  using create_directories_fold[of "ancestors p @ [p]" d] by (simp_all add: create_directories_def)

text \<open>A file that is written: nothing happens when its directory is missing.\<close>

definition write_file :: "string \<Rightarrow> string \<Rightarrow> disk \<Rightarrow> disk" where
  "write_file p s d = (if parent_path p \<in> set (directories d) then d\<lparr>contents := (contents d)(p \<mapsto> s)\<rparr> else d)"

section \<open>Traversal\<close>

text \<open>A row of \<open>profile.csv\<close>, without the times and the values computed from them.\<close>

record watcher_row =
  experiment_name :: string
  origin_size :: nat
  compress_size :: nat

type_synonym converter = "string \<Rightarrow> string \<Rightarrow> disk \<Rightarrow> disk res option"

text \<open>The name of the output: the first occurrence of the old extension in the whole path is replaced.\<close>

definition output_filename :: "string \<Rightarrow> string \<Rightarrow> string \<Rightarrow> string \<Rightarrow> string" where
  "output_filename output_dir origin_postfix target_postfix relative_path =
     (let f = path_join output_dir relative_path
      in case find_sub origin_postfix f of
           None \<Rightarrow> f @ target_postfix
         | Some replace_pos \<Rightarrow> take replace_pos f @ target_postfix @ drop (replace_pos + length origin_postfix) f)"

text \<open>Exceptions end the process; what is undefined stays so.\<close>

definition caught :: "cxx_error \<Rightarrow> cxx_error" where
  "caught e = (if e \<in> {Out_of_range, Invalid_argument, Length_error, Runtime_error} then Exit_called 1 else e)"

definition visit_entry ::
    "converter \<Rightarrow> string \<Rightarrow> string \<Rightarrow> string \<Rightarrow> string \<Rightarrow> string \<times> bool \<Rightarrow> watcher_row list \<times> disk
       \<Rightarrow> (watcher_row list \<times> disk) res option" where
  "visit_entry convert root_dir output_dir origin_postfix target_postfix entry s =
     (let (relative_path, is_regular_file) = entry; (rows, d) = s
      in if \<not> is_regular_file then
           Some (Inr (rows, create_directories (path_join output_dir relative_path) d))
         else if extension relative_path \<noteq> origin_postfix then Some (Inr (rows, d))
         else
           let input = path_join root_dir relative_path;
               output = output_filename output_dir origin_postfix target_postfix relative_path
           in case convert input output d of
                None \<Rightarrow> None
              | Some (Inl e) \<Rightarrow> Some (Inl (caught e))
              | Some (Inr d1) \<Rightarrow>
                  (case (contents d1 input, contents d1 output) of
                     (Some a, Some b) \<Rightarrow>
                       Some (Inr (rows @ [\<lparr>experiment_name = output, origin_size = length a, compress_size = length b\<rparr>], d1))
                   | _ \<Rightarrow> Some (Inl (Exit_called 1))))"

fun visit_entries ::
    "converter \<Rightarrow> string \<Rightarrow> string \<Rightarrow> string \<Rightarrow> string \<Rightarrow> (string \<times> bool) list \<Rightarrow> watcher_row list \<times> disk
       \<Rightarrow> (watcher_row list \<times> disk) res option" where
  "visit_entries convert root_dir output_dir origin_postfix target_postfix [] s = Some (Inr s)"
| "visit_entries convert root_dir output_dir origin_postfix target_postfix (e # es) s =
     (case visit_entry convert root_dir output_dir origin_postfix target_postfix e s of
        None \<Rightarrow> None
      | Some (Inl x) \<Rightarrow> Some (Inl x)
      | Some (Inr s1) \<Rightarrow> visit_entries convert root_dir output_dir origin_postfix target_postfix es s1)"

definition traverseDir ::
    "converter \<Rightarrow> string \<Rightarrow> string \<Rightarrow> string \<Rightarrow> string \<Rightarrow> (string \<times> bool) list \<Rightarrow> disk
       \<Rightarrow> (watcher_row list \<times> disk) res option" where
  "traverseDir convert root_dir output_dir origin_postfix target_postfix tree d =
     (if root_dir \<notin> set (directories d) then Some (Inl (Exit_called 1))
      else visit_entries convert root_dir output_dir origin_postfix target_postfix tree ([], d))"

section \<open>The converters\<close>

definition ifc_convert :: "bool \<Rightarrow> converter" where
  "ifc_convert fpr input_file output_file d =
     (case compress (contents d input_file) (Some fpr) of
        None \<Rightarrow> None
      | Some (Inl e) \<Rightarrow> Some (Inl e)
      | Some (Inr (text, _)) \<Rightarrow> Some (Inr (write_file output_file text d)))"

text \<open>The output of the other converter, on a disk with room; \<open>stack\<close> is the room for its buffers.\<close>

definition opened_output :: "string \<Rightarrow> disk \<Rightarrow> out_file option" where
  "opened_output p d =
     (if parent_path p \<in> set (directories d) then Some \<lparr>disk_room = None, passed_on = (\<lambda>n. n)\<rparr> else None)"

definition zip_convert :: "'z zlib \<Rightarrow> nat \<Rightarrow> int \<Rightarrow> int \<Rightarrow> converter" where
  "zip_convert zl stack level chunck_size input_file output_file d =
     (case deflate_compress zl stack (contents d input_file) (opened_output output_file d) level chunck_size None of
        None \<Rightarrow> None
      | Some (Inl e) \<Rightarrow> Some (Inl e)
      | Some (Inr text) \<Rightarrow> Some (Inr (write_file output_file text d)))"

section \<open>The contract of a converter\<close>

text \<open>The files that are converted, and where their outputs go.\<close>

definition selected :: "string \<Rightarrow> (string \<times> bool) list \<Rightarrow> string list" where
  "selected post es = map fst (filter (\<lambda>(rel, reg). reg \<and> extension rel = post) es)"

lemma selected_simps [simp]:
  "selected post [] = []"
  "selected post ((rel, reg) # es) = (if reg \<and> extension rel = post then rel # selected post es else selected post es)"
  by (simp_all add: selected_def)

text \<open>The directory of every output is there when its turn comes.\<close>

fun laid_out :: "string \<Rightarrow> string \<Rightarrow> string \<Rightarrow> (string \<times> bool) list \<Rightarrow> string set \<Rightarrow> bool" where
  "laid_out out post tpost [] ds = True"
| "laid_out out post tpost ((rel, reg) # es) ds =
     (if reg then (extension rel = post \<longrightarrow> parent_path (output_filename out post tpost rel) \<in> ds) \<and> laid_out out post tpost es ds
      else laid_out out post tpost es (insert (path_join out rel) ds))"

lemma laid_out_mono: "laid_out out post tpost es ds \<Longrightarrow> ds \<subseteq> ds' \<Longrightarrow> laid_out out post tpost es ds'"
proof (induction es arbitrary: ds ds')
  case (Cons e es)
  obtain rel reg where e: "e = (rel, reg)" by (cases e)
  let ?dir = "path_join out rel"
  have "laid_out out post tpost es (if reg then ds' else insert ?dir ds')"
    by (rule Cons.IH[of "if reg then ds else insert ?dir ds"]) (use Cons.prems e in auto)
  then show ?case using Cons.prems e by (auto split: if_splits)
qed simp

locale file_converter =
  fixes conv :: "'e \<Rightarrow> converter" and result :: "'e \<Rightarrow> string \<Rightarrow> string option"
  assumes conv_law: "contents d input = Some s \<Longrightarrow> result e s = Some t \<Longrightarrow> parent_path output \<in> set (directories d) \<Longrightarrow>
    conv e input output d = Some (Inr (d\<lparr>contents := (contents d)(output \<mapsto> t)\<rparr>))"
begin

definition row_of :: "'e \<Rightarrow> string \<Rightarrow> string \<Rightarrow> string \<Rightarrow> string \<Rightarrow> disk \<Rightarrow> string \<Rightarrow> watcher_row" where
  "row_of e root out post tpost d rel =
     (let s = the (contents d (path_join root rel))
      in \<lparr>experiment_name = output_filename out post tpost rel, origin_size = length s, compress_size = length (the (result e s))\<rparr>)"

lemma visit_selected:
  assumes "extension rel = post" "contents d (path_join root rel) = Some s" "result e s = Some t"
    and "parent_path (output_filename out post tpost rel) \<in> set (directories d)" "output_filename out post tpost rel \<noteq> path_join root rel"
  shows "visit_entry (conv e) root out post tpost (rel, True) (rows, d) =
    Some (Inr (rows @ [row_of e root out post tpost d rel],
      d\<lparr>contents := (contents d)(output_filename out post tpost rel \<mapsto> t)\<rparr>))"
  using assms conv_law[OF assms(2,3,4)] by (simp add: visit_entry_def row_of_def Let_def)

lemma visit_other:
  "\<not> (reg \<and> extension rel = post) \<Longrightarrow> visit_entry (conv e) root out post tpost (rel, reg) (rows, d) =
    Some (Inr (rows, if reg then d else create_directories (path_join out rel) d))"
  by (auto simp: visit_entry_def)

lemma visit_entries_spec:
  assumes "laid_out out post tpost es (set (directories d))"
    and "\<And>rel. rel \<in> set (selected post es) \<Longrightarrow> \<exists>s t. contents d (path_join root rel) = Some s \<and> result e s = Some t"
    and "distinct (map (output_filename out post tpost) (selected post es))"
    and "\<And>rel rel'. rel \<in> set (selected post es) \<Longrightarrow> rel' \<in> set (selected post es) \<Longrightarrow>
      output_filename out post tpost rel \<noteq> path_join root rel'"
  shows "\<exists>d'. visit_entries (conv e) root out post tpost es (rows, d) =
      Some (Inr (rows @ map (row_of e root out post tpost d) (selected post es), d')) \<and>
    (\<forall>rel \<in> set (selected post es).
      contents d' (output_filename out post tpost rel) = result e (the (contents d (path_join root rel)))) \<and>
    (\<forall>p. p \<notin> output_filename out post tpost ` set (selected post es) \<longrightarrow> contents d' p = contents d p) \<and> set (directories d) \<subseteq> set (directories d')"
  using assms
proof (induction es arbitrary: rows d)
  case (Cons en es)
  obtain rel reg where en: "en = (rel, reg)" by (cases en)
  let ?out = "output_filename out post tpost"
  show ?case
  proof (cases "reg \<and> extension rel = post")
    case True
    obtain s t where s: "contents d (path_join root rel) = Some s" "result e s = Some t" using Cons.prems(2)[of rel] True en by auto
    define d1 where "d1 = d\<lparr>contents := (contents d)(?out rel \<mapsto> t)\<rparr>"
    have ne: "?out rel \<noteq> path_join root rel'" if "rel' \<in> set (rel # selected post es)" for rel'
      using Cons.prems(4) True en that by auto
    have same: "contents d1 (path_join root rel') = contents d (path_join root rel')" if "rel' \<in> set (rel # selected post es)" for rel'
      using ne[OF that] by (simp add: d1_def)
    have v: "visit_entry (conv e) root out post tpost en (rows, d) = Some (Inr (rows @ [row_of e root out post tpost d rel], d1))"
      using visit_selected[OF _ s, of post out tpost rows] True Cons.prems(1) ne by (simp add: en d1_def)
    have r: "map (row_of e root out post tpost d1) (selected post es) = map (row_of e root out post tpost d) (selected post es)"
      using same by (simp add: row_of_def)
    have "\<exists>d'. visit_entries (conv e) root out post tpost es (rows @ [row_of e root out post tpost d rel], d1) =
        Some (Inr ((rows @ [row_of e root out post tpost d rel]) @ map (row_of e root out post tpost d1) (selected post es), d')) \<and>
      (\<forall>rel \<in> set (selected post es). contents d' (?out rel) = result e (the (contents d1 (path_join root rel)))) \<and>
      (\<forall>p. p \<notin> ?out ` set (selected post es) \<longrightarrow> contents d' p = contents d1 p) \<and> set (directories d1) \<subseteq> set (directories d')"
      by (rule Cons.IH) (use Cons.prems True en same in \<open>auto simp: d1_def\<close>)
    then obtain d' where d': "visit_entries (conv e) root out post tpost (en # es) (rows, d) =
        Some (Inr (rows @ map (row_of e root out post tpost d) (selected post (en # es)), d'))"
      "\<forall>rel \<in> set (selected post es). contents d' (?out rel) = result e (the (contents d (path_join root rel)))"
      "\<forall>p. p \<notin> ?out ` set (selected post es) \<longrightarrow> contents d' p = contents d1 p" "set (directories d) \<subseteq> set (directories d')"
      using v r same True en by (auto simp: d1_def)
    have "?out rel \<notin> ?out ` set (selected post es)" using Cons.prems(3) True en by simp
    then have "contents d' (?out rel) = result e (the (contents d (path_join root rel)))"
      using d'(3) s by (simp add: d1_def)
    then show ?thesis using d' True en by (intro exI[of _ d']) (auto simp: d1_def)
  next
    case False
    define d1 where "d1 = (if reg then d else create_directories (path_join out rel) d)"
    have v: "visit_entry (conv e) root out post tpost en (rows, d) = Some (Inr (rows, d1))"
      using visit_other[OF False] by (simp add: en d1_def)
    have same: "contents d1 = contents d" "row_of e root out post tpost d1 = row_of e root out post tpost d" 
      by (auto simp: d1_def row_of_def)
    have dirs: "set (directories d) \<subseteq> set (directories d1)" by (auto simp: d1_def)
    have "selected post (en # es) = selected post es" using False by (simp add: en)
    moreover have "laid_out out post tpost es (set (directories d1))"
      using Cons.prems(1) False by (auto simp: en d1_def split: if_splits) (erule laid_out_mono, blast)
    ultimately show ?thesis using Cons.IH[of d1 rows] Cons.prems(2-4) v dirs by (simp add: same) blast
  qed
qed simp

lemma traverse_spec:
  assumes "root \<in> set (directories d)" "laid_out out post tpost es (set (directories d))"
    and "\<And>rel. rel \<in> set (selected post es) \<Longrightarrow> \<exists>s t. contents d (path_join root rel) = Some s \<and> result e s = Some t"
    and "distinct (map (output_filename out post tpost) (selected post es))"
    and "\<And>rel rel'. rel \<in> set (selected post es) \<Longrightarrow> rel' \<in> set (selected post es) \<Longrightarrow>
      output_filename out post tpost rel \<noteq> path_join root rel'"
  shows "\<exists>rows d'. traverseDir (conv e) root out post tpost es d = Some (Inr (rows, d')) \<and>
    map experiment_name rows = map (output_filename out post tpost) (selected post es) \<and>
    (\<forall>rel \<in> set (selected post es).
      contents d' (output_filename out post tpost rel) = result e (the (contents d (path_join root rel)))) \<and>
    (\<forall>p. p \<notin> output_filename out post tpost ` set (selected post es) \<longrightarrow> contents d' p = contents d p) \<and> set (directories d) \<subseteq> set (directories d')"
proof -
  from visit_entries_spec[OF assms(2-5), of "[]"] obtain d' where
    "visit_entries (conv e) root out post tpost es ([], d) = Some (Inr (map (row_of e root out post tpost d) (selected post es), d'))"
    "\<forall>rel \<in> set (selected post es).
      contents d' (output_filename out post tpost rel) = result e (the (contents d (path_join root rel)))"
    "\<forall>p. p \<notin> output_filename out post tpost ` set (selected post es) \<longrightarrow> contents d' p = contents d p" "set (directories d) \<subseteq> set (directories d')" by auto
  then show ?thesis using assms(1) by (auto simp: traverseDir_def row_of_def Let_def)
qed

end

definition ifc_result :: "bool \<Rightarrow> string \<Rightarrow> string option" where
  "ifc_result fpr s = (case compress (Some s) (Some fpr) of Some (Inr (text, _)) \<Rightarrow> Some text | _ \<Rightarrow> None)"

definition zip_result :: "'z zlib \<times> nat \<times> int \<times> int \<Rightarrow> string \<Rightarrow> string option" where
  "zip_result e s =
     (case e of (zl, stack, level, n) \<Rightarrow>
        (case deflate_compress zl stack (Some s) (Some \<lparr>disk_room = None, passed_on = (\<lambda>n. n)\<rparr>) level n None of
           Some (Inr text) \<Rightarrow> Some text
         | _ \<Rightarrow> None))"

interpretation ifc: file_converter ifc_convert ifc_result
  by unfold_locales (auto simp: ifc_convert_def ifc_result_def write_file_def split: option.splits sum.splits)

interpretation zip: file_converter "\<lambda>(zl, stack, level, n). zip_convert zl stack level n" zip_result
  by unfold_locales
    (auto simp: zip_convert_def zip_result_def write_file_def opened_output_def split: option.splits sum.splits prod.splits if_splits)

section \<open>Outputs with the names of their inputs\<close>

lemma filename_suffix: "\<exists>a. p = a @ filename p"
proof
  have "rev (takeWhile (\<lambda>c. c \<noteq> CHR ''/'') (rev p) @ dropWhile (\<lambda>c. c \<noteq> CHR ''/'') (rev p)) = p"
    by (simp only: takeWhile_dropWhile_id rev_rev_ident)
  then show "p = rev (dropWhile (\<lambda>c. c \<noteq> CHR ''/'') (rev p)) @ filename p" unfolding rev_append filename_def by (rule sym)
qed

lemma extension_drop: "\<exists>k. extension p = drop k (filename p)"
proof -
  have "\<exists>k. [] = drop k (filename p)" by (metis drop_all order_refl)
  then show ?thesis unfolding extension_def Let_def by (auto split: option.splits)
qed

lemma extension_suffix: "\<exists>a. p = a @ extension p"
proof -
  obtain a k where "p = a @ filename p" "extension p = drop k (filename p)" using filename_suffix extension_drop by blast
  then have "p = (a @ take k (filename p)) @ extension p" by simp
  then show ?thesis by blast
qed

lemma path_join_relative: "rel \<noteq> [] \<Longrightarrow> hd rel \<noteq> CHR ''/'' \<Longrightarrow> out \<noteq> [] \<Longrightarrow> last out \<noteq> CHR ''/'' \<Longrightarrow>
    path_join out rel = out @ CHR ''/'' # rel"
  by (simp add: path_join_def)

lemma same_extension:
  assumes "extension rel = post" "post \<noteq> []"
  shows "output_filename out post post rel = path_join out rel"
proof -
  obtain a where "rel = a @ post" using extension_suffix[of rel] assms by auto
  then have "\<exists>b. path_join out rel = b @ post @ []" by (auto simp: path_join_def)
  then have "find_sub post (path_join out rel) \<noteq> None" using find_sub_occurs by metis
  then obtain i where i: "find_sub post (path_join out rel) = Some i" by blast
  from find_sub_split[OF i] show ?thesis by (simp add: output_filename_def Let_def i)
qed

lemma parent_no_slash: "CHR ''/'' \<notin> set rel \<Longrightarrow> parent_path rel = []"
proof -
  assume "CHR ''/'' \<notin> set rel"
  then have "dropWhile (\<lambda>c. c \<noteq> CHR ''/'') (rev rel) = []" by (subst dropWhile_eq_Nil_conv) auto
  then show ?thesis unfolding parent_path_def by (simp only: drop_Nil rev.simps(1))
qed

lemma parent_slash: "CHR ''/'' \<notin> set b \<Longrightarrow> parent_path (a @ CHR ''/'' # b) = a"
proof -
  assume b: "CHR ''/'' \<notin> set b"
  have "dropWhile (\<lambda>c. c \<noteq> CHR ''/'') (rev b @ CHR ''/'' # rev a) = CHR ''/'' # rev a"
    by (subst dropWhile_append2) (use b in auto)
  then show ?thesis by (simp add: parent_path_def)
qed

lemma parent_join:
  assumes r: "rel \<noteq> []" "hd rel \<noteq> CHR ''/''" and o: "out \<noteq> []" "last out \<noteq> CHR ''/''"
  shows "parent_path (path_join out rel) = (if parent_path rel = [] then out else path_join out (parent_path rel))"
proof (cases "CHR ''/'' \<in> set rel")
  case True
  then obtain a b where ab: "rel = a @ CHR ''/'' # b" "CHR ''/'' \<notin> set b" using split_list_last by force
  then have a: "a \<noteq> []" "hd a \<noteq> CHR ''/''" using r(2) by (cases a, auto)+
  have "path_join out rel = (out @ CHR ''/'' # a) @ CHR ''/'' # b" using path_join_relative[OF r o] ab(1) by simp
  then show ?thesis using a by (simp only: ab(1) parent_slash[OF ab(2)] path_join_relative[OF a o] if_False)
next
  case False
  then show ?thesis by (simp add: path_join_relative[OF r o] parent_slash parent_no_slash)
qed

text \<open>A directory tree as the iterator lists it: relative paths, no path twice, every directory before what is in it.\<close>

fun tree_ok :: "(string \<times> bool) list \<Rightarrow> string set \<Rightarrow> bool" where
  "tree_ok [] seen = True"
| "tree_ok ((rel, reg) # es) seen =
     (rel \<noteq> [] \<and> hd rel \<noteq> CHR ''/'' \<and> (parent_path rel = [] \<or> parent_path rel \<in> seen) \<and> rel \<notin> fst ` set es \<and>
      tree_ok es (if reg then seen else insert rel seen))"

lemma tree_ok_relative: "tree_ok es seen \<Longrightarrow> rel \<in> set (selected post es) \<Longrightarrow>
    rel \<noteq> [] \<and> hd rel \<noteq> CHR ''/'' \<and> extension rel = post \<and> rel \<in> fst ` set es"
  by (induction es seen rule: tree_ok.induct) (auto split: if_splits)

lemma tree_ok_distinct: "tree_ok es seen \<Longrightarrow> distinct (selected post es)"
proof (induction es seen rule: tree_ok.induct)
  case (2 rel reg es seen)
  then show ?case using tree_ok_relative[of es _ rel post] by auto
qed simp

lemma tree_laid_out:
  assumes o: "out \<noteq> []" "last out \<noteq> CHR ''/''" and p: "post \<noteq> []"
  shows "tree_ok es seen \<Longrightarrow> insert out (path_join out ` seen) \<subseteq> ds \<Longrightarrow> laid_out out post post es ds"
proof (induction es seen arbitrary: ds rule: tree_ok.induct)
  case (2 rel reg es seen)
  have "parent_path (path_join out rel) \<in> ds" using 2(2,3) parent_join[OF _ _ o, of rel] by auto
  moreover have "laid_out out post post es (if reg then ds else insert (path_join out rel) ds)"
    by (rule 2(1)) (use 2(2,3) in auto)
  ultimately show ?case using same_extension[OF _ p] by (cases reg) simp_all
qed simp

section \<open>The runs\<close>

text \<open>An \<open>int\<close> as a \<open>float\<close>: to 24 bits, to nearest, ties to even. The result is an integer again.\<close>

definition float_of_int :: "int \<Rightarrow> int" where
  "float_of_int n =
     (let a = \<bar>n\<bar>; step = 2 ^ length (filter (\<lambda>k. 2 ^ (24 + k) \<le> a) [0..<40]); q = a div step; r = a mod step
      in sgn n * ((if 2 * r > step \<or> 2 * r = step \<and> odd q then q + 1 else q) * step))"

text \<open>\<open>IfcCompressorConverter::method_name\<close>. The rates come from \<open>stoi\<close>, so that those of \<open>float\<close> are integers too.\<close>

definition method_name :: "int \<Rightarrow> string" where
  "method_name fpr = ''IfcCompressor-'' @ show_int fpr @ ''.000000''"

text \<open>\<open>IfcCompressorTestRunner::run\<close>; all runs add to the same profile.\<close>

fun ifc_runs :: "string \<Rightarrow> string \<Rightarrow> int list \<Rightarrow> (string \<times> bool) list \<Rightarrow> watcher_row list \<times> disk
    \<Rightarrow> (watcher_row list \<times> disk) res option" where
  "ifc_runs input_dir output_dir [] tree (rows, d) = Some (Inr (rows, d))"
| "ifc_runs input_dir output_dir (fpr # fprs) tree (rows, d) =
     (let out = path_join output_dir (method_name fpr)
      in case traverseDir (ifc_convert (fpr \<noteq> 0)) input_dir out ''.ifc'' ''.ifc'' tree (create_directories out d) of
           None \<Rightarrow> None
         | Some (Inl e) \<Rightarrow> Some (Inl e)
         | Some (Inr (rows1, d1)) \<Rightarrow> ifc_runs input_dir output_dir fprs tree (rows @ rows1, d1))"

definition setup_ifc :: "string \<Rightarrow> string \<Rightarrow> disk \<Rightarrow> (string \<times> disk) res" where
  "setup_ifc input_dir output_dir d =
     (let out = path_join output_dir ''IfcCompressor''
      in if input_dir \<notin> set (directories d) then Inl (Exit_called 1) else Inr (out, create_directories out d))"

definition run_ifccompressor_test :: "string \<Rightarrow> string \<Rightarrow> string list \<Rightarrow> (string \<times> bool) list \<Rightarrow> disk
    \<Rightarrow> (watcher_row list \<times> disk) res option" where
  "run_ifccompressor_test data_dir working_dir fpr_node tree d =
     (case rbind (rmap stoi fpr_node) (\<lambda>ns. Inr (map float_of_int ns)) of
        Inl e \<Rightarrow> Some (Inl (caught e))
      | Inr fpr_vector \<Rightarrow>
          (case setup_ifc data_dir working_dir d of
             Inl e \<Rightarrow> Some (Inl e)
           | Inr (out, d1) \<Rightarrow> ifc_runs data_dir out fpr_vector tree ([], d1)))"

text \<open>\<open>DeflateTestRunner::run\<close>: one run for every level and chunk size. Nothing creates the directory of a run.\<close>

definition zip_method_name :: "int \<Rightarrow> int \<Rightarrow> string" where
  "zip_method_name level chunck_size = ''Deflate-level'' @ show_int level @ ''-chksize'' @ show_int chunck_size"

fun deflate_runs :: "'z zlib \<Rightarrow> nat \<Rightarrow> string \<Rightarrow> string \<Rightarrow> (int \<times> int) list \<Rightarrow> (string \<times> bool) list \<Rightarrow> watcher_row list \<times> disk
    \<Rightarrow> (watcher_row list \<times> disk) res option" where
  "deflate_runs zl stack data_dir working_dir [] tree (rows, d) = Some (Inr (rows, d))"
| "deflate_runs zl stack data_dir working_dir ((level, chunk_size) # tasks) tree (rows, d) =
     (case traverseDir (zip_convert zl stack level chunk_size) data_dir (path_join working_dir (zip_method_name level chunk_size))
             ''.ifc'' ''.ifcZIP'' tree d of
        None \<Rightarrow> None
      | Some (Inl e) \<Rightarrow> Some (Inl e)
      | Some (Inr (rows1, d1)) \<Rightarrow> deflate_runs zl stack data_dir working_dir tasks tree (rows @ rows1, d1))"

section \<open>The configuration and the whole benchmark\<close>

record benchmark_config =
  has_global_config :: bool
  result_dir :: "string option"
  source_dir :: "string option"
  fpr :: "string list"

definition under :: "string \<Rightarrow> string \<Rightarrow> bool" where
  "under dir p \<longleftrightarrow> take (Suc (length dir)) p = dir @ ''/''"

definition clear_directory :: "string \<Rightarrow> disk \<Rightarrow> disk" where
  "clear_directory path d =
     d\<lparr>directories := filter (\<lambda>p. \<not> under path p) (directories d), contents := (\<lambda>p. if under path p then None else contents d p)\<rparr>"

text \<open>A directory with the extension of a source, in the loop below: it cannot be opened and counts as an empty text. If there is
  something in it, it cannot be removed and only the empty copy is left; otherwise an empty file takes its place.\<close>

definition convert_directory :: "string option \<Rightarrow> bool \<Rightarrow> string \<Rightarrow> disk \<Rightarrow> disk" where
  "convert_directory tmp_dir is_empty p d =
     (case tmp_dir of
        None \<Rightarrow> d
      | Some td \<Rightarrow>
          if is_empty then d\<lparr>directories := removeAll p (directories d), contents := (contents d)(p \<mapsto> [])\<rparr>
          else d\<lparr>contents := (contents d)(path_join td (filename p) \<mapsto> [])\<rparr>)"

text \<open>The loop that converts the line ends of the sources, which looks at the extension only; \<open>tmp\<close> gives the temporary
  directory of each conversion. The result has the entries as they are afterwards. What the iterator does when the directory
  it is at has become a file is left open by the standard: \<open>goes_on\<close> says whether it goes on or throws.\<close>

fun preprocess_sources :: "(string \<Rightarrow> bool) \<Rightarrow> (string \<Rightarrow> string option) \<Rightarrow> (string \<Rightarrow> bool) \<Rightarrow> string \<Rightarrow> (string \<times> bool) list \<Rightarrow> disk
    \<Rightarrow> ((string \<times> bool) list \<times> disk) res option" where
  "preprocess_sources may_write tmp goes_on dir [] d = Some (Inr ([], d))"
| "preprocess_sources may_write tmp goes_on dir ((rel, reg) # tree) d =
     (let p = path_join dir rel;
          is_empty = (rel \<notin> parent_path ` fst ` set tree);
          next_entry = (\<lambda>reg1 d1. map_option (\<lambda>r. rbind r (\<lambda>(tree1, d2). Inr ((rel, reg1) # tree1, d2)))
                          (preprocess_sources may_write tmp goes_on dir tree d1))
      in if extension rel \<noteq> ''.ifc'' then next_entry reg d
         else if reg then
           (case replace_win_newlines_to_unix may_write (tmp rel) p [] (contents d) of
              None \<Rightarrow> None
            | Some (_, fs) \<Rightarrow> next_entry True (d\<lparr>contents := fs\<rparr>))
         else if tmp rel \<noteq> None \<and> is_empty then
           (if goes_on rel then next_entry True (convert_directory (tmp rel) True p d) else Some (Inl (Exit_called 1)))
         else next_entry False (convert_directory (tmp rel) is_empty p d))"

definition load_benchmark_config :: "benchmark_config \<Rightarrow> (string \<Rightarrow> bool) \<Rightarrow> (string \<Rightarrow> string option) \<Rightarrow> (string \<Rightarrow> bool)
    \<Rightarrow> (string \<times> bool) list \<Rightarrow> disk \<Rightarrow> (string \<times> string \<times> (string \<times> bool) list \<times> disk) res option" where
  "load_benchmark_config cfg may_write tmp goes_on tree d =
     (if \<not> has_global_config cfg then Some (Inl (Exit_called 1))
      else case (result_dir cfg, source_dir cfg) of
             (Some working_dir, Some data_dir) \<Rightarrow>
               if working_dir \<notin> set (directories d) \<and> parent_path working_dir \<notin> set (directories d) then Some (Inl (Exit_called 1))
               else
                 let d1 = clear_directory working_dir (create_directory working_dir d)
                 in if data_dir \<notin> set (directories d1) then Some (Inl (Exit_called 1))
                    else map_option (\<lambda>r. rbind r (\<lambda>(tree1, d2). Inr (working_dir, data_dir, tree1, d2)))
                           (preprocess_sources may_write tmp goes_on data_dir tree d1)
           | _ \<Rightarrow> Some (Inl (Exit_called 1)))"

definition benchmark_main :: "benchmark_config \<Rightarrow> (string \<Rightarrow> bool) \<Rightarrow> (string \<Rightarrow> string option) \<Rightarrow> (string \<Rightarrow> bool)
    \<Rightarrow> (string \<times> bool) list \<Rightarrow> disk \<Rightarrow> (watcher_row list \<times> disk) res option" where
  "benchmark_main cfg may_write tmp goes_on tree d =
     (case load_benchmark_config cfg may_write tmp goes_on tree d of
        None \<Rightarrow> None
      | Some (Inl e) \<Rightarrow> Some (Inl e)
      | Some (Inr (working_dir, data_dir, tree1, d1)) \<Rightarrow> run_ifccompressor_test data_dir working_dir (fpr cfg) tree1 d1)"

section \<open>What the benchmark writes\<close>

lemma under_iff: "under dir p \<longleftrightarrow> (\<exists>s. p = dir @ CHR ''/'' # s)"
proof
  assume "under dir p"
  then show "\<exists>s. p = dir @ CHR ''/'' # s"
    using append_take_drop_id[of "Suc (length dir)" p] by (auto simp: under_def intro!: exI[of _ "drop (Suc (length dir)) p"])
qed (auto simp: under_def)

lemma under_join: "rel \<noteq> [] \<Longrightarrow> hd rel \<noteq> CHR ''/'' \<Longrightarrow> out \<noteq> [] \<Longrightarrow> last out \<noteq> CHR ''/'' \<Longrightarrow> under out (path_join out rel)"
  by (simp add: under_iff path_join_relative)

lemma under_trans: "under (path_join w m) p \<Longrightarrow> m \<noteq> [] \<Longrightarrow> hd m \<noteq> CHR ''/'' \<Longrightarrow> w \<noteq> [] \<Longrightarrow> last w \<noteq> CHR ''/'' \<Longrightarrow> under w p"
  by (auto simp: under_iff path_join_relative)

lemma show_int_no_slash: "CHR ''/'' \<notin> set (show_int n)"
proof -
  have "CHR ''/'' \<notin> set (show_dec k)" for k using show_dec_digits[of "CHR ''/''" k] by (auto simp: isdigit_def)
  then show ?thesis by (auto simp: show_int_def)
qed

lemma float_of_int_zero [simp]: "float_of_int n = 0 \<longleftrightarrow> n = 0"
proof
  assume z: "float_of_int n = 0"
  show "n = 0"
  proof (rule ccontr)
    assume n: "n \<noteq> 0"
    define ks where "ks = filter (\<lambda>k. (2::int) ^ (24 + k) \<le> \<bar>n\<bar>) [0..<40]"
    define step where "step = (2::int) ^ length ks"
    have pos: "0 < step" by (simp add: step_def)
    have "step \<le> \<bar>n\<bar>"
    proof (cases "ks = []")
      case False
      have "length ks - 1 \<le> last ks"
      proof -
        have "sorted_wrt (<) ks" unfolding ks_def by (rule sorted_wrt_filter) simp
        then have "i \<le> ks ! i" if "i < length ks" for i
          using that by (rule sorted_wrt_less_idx)
        then show ?thesis using False by (simp add: last_conv_nth)
      qed
      then have "length ks \<le> 24 + last ks" by linarith
      then have "step \<le> 2 ^ (24 + last ks)" unfolding step_def by (intro power_increasing) simp_all
      moreover have "last ks \<in> set ks" using False by simp
      then have "(2::int) ^ (24 + last ks) \<le> \<bar>n\<bar>" by (simp add: ks_def)
      ultimately show ?thesis by linarith
    qed (use n in \<open>simp add: step_def\<close>)
    then have "0 < \<bar>n\<bar> div step" using pos by (simp add: pos_imp_zdiv_pos_iff)
    then show False using z n pos unfolding float_of_int_def Let_def ks_def[symmetric] step_def[symmetric]
      by (auto simp: sgn_eq_0_iff split: if_splits)
  qed
qed (simp add: float_of_int_def)

lemma method_name_facts: "method_name n \<noteq> []" "hd (method_name n) \<noteq> CHR ''/''" "last (method_name n) \<noteq> CHR ''/''"
  "CHR ''/'' \<notin> set (method_name n)"
  using show_int_no_slash[of n] by (auto simp: method_name_def)

lemma method_dirs_apart:
  assumes w: "w \<noteq> []" "last w \<noteq> CHR ''/''" and p: "under (path_join w (method_name m)) p" "under (path_join w (method_name n)) p"
  shows "m = n"
proof -
  have eq: "path_join w (method_name k) = w @ CHR ''/'' # method_name k" for k
    using path_join_relative[OF method_name_facts(1,2) w] .
  obtain a b where "method_name m @ CHR ''/'' # a = method_name n @ CHR ''/'' # b"
    using p unfolding under_iff eq by auto
  then have "takeWhile (\<lambda>c. c \<noteq> CHR ''/'') (method_name m @ CHR ''/'' # a) = takeWhile (\<lambda>c. c \<noteq> CHR ''/'') (method_name n @ CHR ''/'' # b)" by simp
  moreover have "takeWhile (\<lambda>c. c \<noteq> CHR ''/'') (method_name k @ CHR ''/'' # x) = method_name k" for k x
    using method_name_facts(4)[of k] by (subst takeWhile_append2) auto
  ultimately show ?thesis by (simp add: method_name_def)
qed

text \<open>One run: every selected file gets its compressed text below the directory of the run, and nothing else changes.\<close>

lemma ifc_run_ok:
  assumes d: "input \<in> set (directories d)" and w: "out \<noteq> []" "last out \<noteq> CHR ''/''" and t: "tree_ok tree {}"
    and c: "\<And>rel. rel \<in> set (selected ''.ifc'' tree) \<Longrightarrow> \<exists>s t. contents d (path_join input rel) = Some s \<and> ifc_result lossy s = Some t"
    and a: "\<And>rel. rel \<in> set (selected ''.ifc'' tree) \<Longrightarrow> \<not> under out (path_join input rel)"
  shows "\<exists>rows d'. traverseDir (ifc_convert lossy) input out ''.ifc'' ''.ifc'' tree (create_directories out d) = Some (Inr (rows, d')) \<and>
    (\<forall>rel \<in> set (selected ''.ifc'' tree). contents d' (path_join out rel) = ifc_result lossy (the (contents d (path_join input rel)))) \<and>
    (\<forall>p. \<not> under out p \<longrightarrow> contents d' p = contents d p) \<and> set (directories d) \<subseteq> set (directories d')"
proof -
  let ?sel = "selected ''.ifc'' tree" and ?name = "output_filename out ''.ifc'' ''.ifc''"
  have n: "?name rel = path_join out rel" "under out (path_join out rel)" if "rel \<in> set ?sel" for rel
    using tree_ok_relative[OF t that] same_extension[of rel "''.ifc''" out] under_join[OF _ _ w, of rel] by simp_all
  have "inj_on ?name (set ?sel)"
    by (rule inj_onI) (use n tree_ok_relative[OF t] path_join_relative[OF _ _ w] in fastforce)
  then have dist: "distinct (map ?name ?sel)" using tree_ok_distinct[OF t] by (simp add: distinct_map)
  have "\<exists>rows d'. traverseDir (ifc_convert lossy) input out ''.ifc'' ''.ifc'' tree (create_directories out d) = Some (Inr (rows, d')) \<and>
      map experiment_name rows = map ?name ?sel \<and>
      (\<forall>rel \<in> set ?sel. contents d' (?name rel) = ifc_result lossy (the (contents (create_directories out d) (path_join input rel)))) \<and>
      (\<forall>p. p \<notin> ?name ` set ?sel \<longrightarrow> contents d' p = contents (create_directories out d) p) \<and>
      set (directories (create_directories out d)) \<subseteq> set (directories d')"
  proof (rule ifc.traverse_spec[OF _ _ _ dist])
    show "input \<in> set (directories (create_directories out d))" using d by simp
    show "laid_out out ''.ifc'' ''.ifc'' tree (set (directories (create_directories out d)))"
      by (rule tree_laid_out[OF w _ t]) simp_all
    show "\<exists>s t. contents (create_directories out d) (path_join input rel) = Some s \<and> ifc_result lossy s = Some t"
      if "rel \<in> set ?sel" for rel using c[OF that] by simp
    show "?name rel \<noteq> path_join input rel'" if "rel \<in> set ?sel" "rel' \<in> set ?sel" for rel rel'
      using n[OF that(1)] a[OF that(2)] by auto
  qed
  then obtain rows d' where r: "traverseDir (ifc_convert lossy) input out ''.ifc'' ''.ifc'' tree (create_directories out d) = Some (Inr (rows, d'))"
    "\<forall>rel \<in> set ?sel. contents d' (?name rel) = ifc_result lossy (the (contents d (path_join input rel)))"
    "\<forall>p. p \<notin> ?name ` set ?sel \<longrightarrow> contents d' p = contents d p" "set (directories d) \<subseteq> set (directories d')" by auto
  moreover have "p \<notin> ?name ` set ?sel" if "\<not> under out p" for p using n that by auto
  ultimately show ?thesis using n(1) by simp
qed

lemma ifc_runs_ok:
  assumes w: "out \<noteq> []" "last out \<noteq> CHR ''/''" and t: "tree_ok tree {}"
  shows "input \<in> set (directories d) \<Longrightarrow>
    (\<And>n rel. n \<in> set ns \<Longrightarrow> rel \<in> set (selected ''.ifc'' tree) \<Longrightarrow>
      \<exists>s t. contents d (path_join input rel) = Some s \<and> ifc_result (n \<noteq> 0) s = Some t) \<Longrightarrow>
    (\<And>rel. rel \<in> set (selected ''.ifc'' tree) \<Longrightarrow> \<not> under out (path_join input rel)) \<Longrightarrow>
    \<exists>rows' d'. ifc_runs input out ns tree (rows, d) = Some (Inr (rows', d')) \<and>
      (\<forall>n \<in> set ns. \<forall>rel \<in> set (selected ''.ifc'' tree).
        contents d' (path_join (path_join out (method_name n)) rel) = ifc_result (n \<noteq> 0) (the (contents d (path_join input rel)))) \<and>
      (\<forall>p. (\<forall>n \<in> set ns. \<not> under (path_join out (method_name n)) p) \<longrightarrow> contents d' p = contents d p)"
proof (induction ns arbitrary: rows d)
  case (Cons n ns)
  let ?dir = "\<lambda>n. path_join out (method_name n)" and ?sel = "selected ''.ifc'' tree"
  have m: "?dir n \<noteq> []" "last (?dir n) \<noteq> CHR ''/''"
    using path_join_relative[OF method_name_facts(1,2) w, of n] method_name_facts[of n] by auto
  have far: "\<not> under (?dir n) (path_join input rel)" if "rel \<in> set ?sel" for n rel
    using Cons.prems(3)[OF that] under_trans[OF _ method_name_facts(1,2) w] by blast
  have c: "\<exists>s t. contents d (path_join input rel) = Some s \<and> ifc_result (n \<noteq> 0) s = Some t" if "rel \<in> set ?sel" for rel
    using Cons.prems(2)[OF _ that, of n] by simp
  from ifc_run_ok[OF Cons.prems(1) m t c far] obtain rows1 d1 where
    r1: "traverseDir (ifc_convert (n \<noteq> 0)) input (?dir n) ''.ifc'' ''.ifc'' tree (create_directories (?dir n) d) = Some (Inr (rows1, d1))"
    and o1: "\<forall>rel \<in> set ?sel. contents d1 (path_join (?dir n) rel) = ifc_result (n \<noteq> 0) (the (contents d (path_join input rel)))"
    and k1: "\<forall>p. \<not> under (?dir n) p \<longrightarrow> contents d1 p = contents d p" and s1: "set (directories d) \<subseteq> set (directories d1)" by blast
  have same: "contents d1 (path_join input rel) = contents d (path_join input rel)" if "rel \<in> set ?sel" for rel
    using k1 far[OF that] by blast
  have "\<exists>rows' d'. ifc_runs input out ns tree (rows @ rows1, d1) = Some (Inr (rows', d')) \<and>
      (\<forall>n \<in> set ns. \<forall>rel \<in> set ?sel.
        contents d' (path_join (?dir n) rel) = ifc_result (n \<noteq> 0) (the (contents d1 (path_join input rel)))) \<and>
      (\<forall>p. (\<forall>n \<in> set ns. \<not> under (?dir n) p) \<longrightarrow> contents d' p = contents d1 p)"
    by (rule Cons.IH) (use Cons.prems s1 same in auto)
  then obtain rows' d' where r2: "ifc_runs input out ns tree (rows @ rows1, d1) = Some (Inr (rows', d'))"
    and o2: "\<forall>n \<in> set ns. \<forall>rel \<in> set ?sel. contents d' (path_join (?dir n) rel) = ifc_result (n \<noteq> 0) (the (contents d (path_join input rel)))"
    and k2: "\<forall>p. (\<forall>n \<in> set ns. \<not> under (?dir n) p) \<longrightarrow> contents d' p = contents d1 p" using same by auto
  have "contents d' (path_join (?dir n) rel) = ifc_result (n \<noteq> 0) (the (contents d (path_join input rel)))" if "rel \<in> set ?sel" for rel
  proof (cases "n \<in> set ns")
    case False
    have "under (?dir n) (path_join (?dir n) rel)" using tree_ok_relative[OF t that] under_join[OF _ _ m] by simp
    then have "\<forall>k \<in> set ns. \<not> under (?dir k) (path_join (?dir n) rel)" using False method_dirs_apart[OF w] by blast
    then show ?thesis using k2 o1 that by simp
  qed (use o2 that in simp)
  then show ?case using r1 r2 o2 k1 k2 by (intro exI[of _ rows'] exI[of _ d']) (simp add: Let_def)
qed simp

lemma win_in_place:
  assumes "path_join dir (filename file) = tmp" "fs tmp = None" "tmp \<noteq> file" "fs file = Some s" "w file"
  shows "replace_win_newlines_to_unix w (Some dir) file [] fs = Some (False, fs(file \<mapsto> unix_lines s))"
  using assms by (cases "file = []") (auto simp: replace_win_newlines_to_unix_def replace_win_newlines_to_unix_lines Let_def fun_eq_iff)

text \<open>Where the converted copy of a source is while it is converted; it must be fresh.\<close>

definition fresh_copies :: "(string \<Rightarrow> string option) \<Rightarrow> string \<Rightarrow> string list \<Rightarrow> disk \<Rightarrow> bool" where
  "fresh_copies tmp dir rels d \<longleftrightarrow> (\<forall>rel \<in> set rels. \<exists>td. tmp rel = Some td \<and>
     contents d (path_join td (filename (path_join dir rel))) = None \<and>
     (\<forall>rel' \<in> set rels. path_join td (filename (path_join dir rel)) \<noteq> path_join dir rel'))"

lemma sources_converted:
  assumes "tree_ok tree seen" "dir \<noteq> []" "last dir \<noteq> CHR ''/''"
  shows "fresh_copies tmp dir (selected ''.ifc'' tree) d \<Longrightarrow>
    (\<And>rel. rel \<in> set (selected ''.ifc'' tree) \<Longrightarrow> w (path_join dir rel) \<and> contents d (path_join dir rel) \<noteq> None) \<Longrightarrow>
    \<forall>(rel, reg) \<in> set tree. extension rel = ''.ifc'' \<longrightarrow> reg \<Longrightarrow>
    \<exists>d'. preprocess_sources w tmp goes_on dir tree d = Some (Inr (tree, d')) \<and> directories d' = directories d \<and>
      (\<forall>rel \<in> set (selected ''.ifc'' tree). contents d' (path_join dir rel) = Some (unix_lines (the (contents d (path_join dir rel))))) \<and>
      (\<forall>p. p \<notin> path_join dir ` set (selected ''.ifc'' tree) \<longrightarrow> contents d' p = contents d p)"
  using assms(1)
proof (induction tree arbitrary: d seen)
  case (Cons en tree)
  obtain rel reg where en: "en = (rel, reg)" by (cases en)
  obtain seen' where t: "tree_ok tree seen'" and hd: "rel \<noteq> []" "hd rel \<noteq> CHR ''/''" and new: "rel \<notin> fst ` set tree"
    using Cons.prems(4) by (auto simp: en)
  show ?case
  proof (cases "reg \<and> extension rel = ''.ifc''")
    case True
    obtain s where s: "contents d (path_join dir rel) = Some s" "w (path_join dir rel)"
      using Cons.prems(2)[of rel] True en by auto
    obtain td where td: "tmp rel = Some td" "contents d (path_join td (filename (path_join dir rel))) = None"
        "path_join td (filename (path_join dir rel)) \<noteq> path_join dir rel"
      using Cons.prems(1) True en by (auto simp: fresh_copies_def)
    define d1 where "d1 = d\<lparr>contents := (contents d)(path_join dir rel \<mapsto> unix_lines s)\<rparr>"
    have ne: "path_join dir rel' \<noteq> path_join dir rel" if "rel' \<in> set (selected ''.ifc'' tree)" for rel'
      using tree_ok_relative[OF t that] new path_join_relative[OF _ _ assms(2,3)] hd by auto
    have v: "preprocess_sources w tmp goes_on dir (en # tree) d =
        map_option (\<lambda>r. rbind r (\<lambda>(tree1, d2). Inr (en # tree1, d2))) (preprocess_sources w tmp goes_on dir tree d1)"
      using win_in_place[of td "path_join dir rel" _ "contents d" s w, OF refl td(2,3) s] True td(1) by (simp add: en d1_def)
    have "\<exists>d'. preprocess_sources w tmp goes_on dir tree d1 = Some (Inr (tree, d')) \<and> directories d' = directories d1 \<and>
      (\<forall>rel \<in> set (selected ''.ifc'' tree). contents d' (path_join dir rel) = Some (unix_lines (the (contents d1 (path_join dir rel))))) \<and>
      (\<forall>p. p \<notin> path_join dir ` set (selected ''.ifc'' tree) \<longrightarrow> contents d' p = contents d1 p)"
    proof (rule Cons.IH[OF _ _ _ t])
      show "fresh_copies tmp dir (selected ''.ifc'' tree) d1"
        using Cons.prems(1) True en by (fastforce simp: fresh_copies_def d1_def)
      show "w (path_join dir rel') \<and> contents d1 (path_join dir rel') \<noteq> None" if "rel' \<in> set (selected ''.ifc'' tree)" for rel'
        using Cons.prems(2)[of rel'] that True en by (auto simp: d1_def)
      show "\<forall>(rel, reg) \<in> set tree. extension rel = ''.ifc'' \<longrightarrow> reg" using Cons.prems(3) by simp
    qed
    then obtain d' where d': "preprocess_sources w tmp goes_on dir tree d1 = Some (Inr (tree, d'))" "directories d' = directories d1"
      "\<forall>rel \<in> set (selected ''.ifc'' tree). contents d' (path_join dir rel) = Some (unix_lines (the (contents d1 (path_join dir rel))))"
      "\<forall>p. p \<notin> path_join dir ` set (selected ''.ifc'' tree) \<longrightarrow> contents d' p = contents d1 p" by blast
    have "path_join dir rel \<notin> path_join dir ` set (selected ''.ifc'' tree)" using ne by force
    then have "contents d' (path_join dir rel) = Some (unix_lines s)" using d'(4) by (simp add: d1_def)
    then show ?thesis using d' v True en s(1) ne by (intro exI[of _ d']) (auto simp: d1_def)
  next
    case False
    then have "extension rel \<noteq> ''.ifc''" using Cons.prems(3) False en by auto
    then have "selected ''.ifc'' (en # tree) = selected ''.ifc'' tree" "preprocess_sources w tmp goes_on dir (en # tree) d =
        map_option (\<lambda>r. rbind r (\<lambda>(tree1, d2). Inr (en # tree1, d2))) (preprocess_sources w tmp goes_on dir tree d)"
      by (auto simp: en)
    then show ?thesis using Cons.IH[OF _ _ _ t, of d] Cons.prems(1-3) by auto
  qed
qed simp

section \<open>Theorems\<close>

text \<open>A configuration and a disk the benchmark can work on: the directories are there, no directory has the extension of a
  source, and the sources lie outside the directory of the results, can be written, and compress at every rate.\<close>

definition runnable :: "benchmark_config \<Rightarrow> (string \<Rightarrow> bool) \<Rightarrow> (string \<Rightarrow> string option) \<Rightarrow> (string \<times> bool) list \<Rightarrow> disk
    \<Rightarrow> string \<Rightarrow> string \<Rightarrow> int list \<Rightarrow> bool" where
  "runnable cfg may_write tmp tree d work src rates \<longleftrightarrow>
     has_global_config cfg \<and> result_dir cfg = Some work \<and> source_dir cfg = Some src \<and> rmap stoi (fpr cfg) = Inr rates \<and>
     work \<noteq> [] \<and> last work \<noteq> CHR ''/'' \<and> work \<in> set (directories d) \<and>
     src \<noteq> [] \<and> last src \<noteq> CHR ''/'' \<and> src \<in> set (directories d) \<and> \<not> under work src \<and>
     tree_ok tree {} \<and> (\<forall>(rel, reg) \<in> set tree. extension rel = ''.ifc'' \<longrightarrow> reg) \<and> fresh_copies tmp src (selected ''.ifc'' tree) d \<and>
     (\<forall>rel \<in> set (selected ''.ifc'' tree). may_write (path_join src rel) \<and> \<not> under work (path_join src rel) \<and>
        (\<exists>s. contents d (path_join src rel) = Some s \<and> (\<forall>n \<in> set rates. ifc_result (n \<noteq> 0) (unix_lines s) \<noteq> None)))"

lemma benchmark_loaded:
  assumes "runnable cfg may_write tmp tree d work src rates"
  shows "\<exists>d1. load_benchmark_config cfg may_write tmp goes_on tree d = Some (Inr (work, src, tree, d1)) \<and> src \<in> set (directories d1) \<and>
    (\<forall>rel \<in> set (selected ''.ifc'' tree).
       contents d1 (path_join src rel) = Some (unix_lines (the (contents d (path_join src rel)))))"
proof -
  let ?sel = "selected ''.ifc'' tree"
  note r = assms[unfolded runnable_def]
  have s: "src \<noteq> []" "last src \<noteq> CHR ''/''" and t: "tree_ok tree {}" using r by auto
  define d1 where "d1 = clear_directory work (create_directory work d)"
  have c1: "contents d1 p = (if under work p then None else contents d p)" for p by (simp add: d1_def clear_directory_def)
  have src: "src \<in> set (directories d1)" using r by (simp add: d1_def clear_directory_def)
  have in1: "contents d1 (path_join src rel) = contents d (path_join src rel)" if "rel \<in> set ?sel" for rel
    using r that by (auto simp: c1)
  have "fresh_copies tmp src ?sel d1" using r by (auto simp: fresh_copies_def c1)
  moreover have "may_write (path_join src rel) \<and> contents d1 (path_join src rel) \<noteq> None" if "rel \<in> set ?sel" for rel
    using r that in1[OF that] by auto
  ultimately obtain d2 where d2: "preprocess_sources may_write tmp goes_on src tree d1 = Some (Inr (tree, d2))" "directories d2 = directories d1"
    "\<forall>rel \<in> set ?sel. contents d2 (path_join src rel) = Some (unix_lines (the (contents d1 (path_join src rel))))"
    using sources_converted[OF t s, of tmp d1 may_write goes_on] r by blast
  have "load_benchmark_config cfg may_write tmp goes_on tree d = Some (Inr (work, src, tree, d2))"
    using r src d2(1) by (simp add: load_benchmark_config_def d1_def Let_def)
  then show ?thesis using d2(2,3) src in1 by simp
qed


text \<open>A file with the line ends of Windows, no instances, and two rates, of which the second is cut to zero.\<close>

definition dos_text :: string where
  "dos_text = ''DATA;'' @ [CHR 0x0D, CHR 0x0A] @ ''ENDSEC;'' @ [CHR 0x0D, CHR 0x0A]"

definition small_disk :: disk where
  "small_disk = \<lparr>directories = [''/r'', ''/s''], contents = [''/s/a.ifc'' \<mapsto> dos_text]\<rparr>"

definition small_config :: benchmark_config where
  "small_config = \<lparr>has_global_config = True, result_dir = Some ''/r'', source_dir = Some ''/s'', fpr = [''0'', ''0.5'']\<rparr>"

lemma dos_text_unix: "unix_lines dos_text = file_text [] [] []"
  by (simp add: unix_lines_def dos_text_def file_text_def line_text_def newline_def getline_split.simps)

lemma empty_result: "ifc_result False (file_text [] [] []) = Some (file_text [] [] [])"
proof -
  have p: "parses True 0 [] [] [] []" by (simp add: parses_def)
  have i: "inputs []" by (simp add: inputs_def)
  have "compress_instances 0 False [] = Some (Inr (init_compressor False))"
    by (simp add: compress_instances_def second_step_def first_report_def close_first_def init_compressor_def rename_all_def rounds.simps)
  then show ?thesis using IfcCompressor_text[OF p i, of 0]
    by (simp add: ifc_result_def compress_def render_def file_text_def line_text_def kept_def init_compressor_def newline_def)
qed

lemma cut_rates: "rmap stoi [''0'', ''0.01'', ''0.1''] = Inr [0, 0, 0]" "rmap stoi [''0'', ''0.5''] = Inr [0, 0]"
  by (simp_all add: stoi_def isspace_def isdigit_def digits_val_def digit_val_def)

lemma small_runnable:
  "runnable small_config (\<lambda>p. True) (\<lambda>r. Some ''/t'') [(''a.ifc'', True)] small_disk ''/r'' ''/s'' [0, 0]"
proof -
  have e: "extension ''a.ifc'' = ''.ifc''" by (simp add: extension_def filename_def Let_def)
  have "parent_path ''a.ifc'' = []" by (simp add: parent_path_def)
  moreover have "filename ''/s/a.ifc'' = ''a.ifc''" by (simp add: filename_def)
  ultimately show ?thesis
    using cut_rates(2) empty_result
    by (simp add: runnable_def small_config_def small_disk_def under_def e fresh_copies_def path_join_def dos_text_unix)
qed


text \<open>What goes wrong. The rates of the configuration that comes with the benchmark are all read as zero (\<open>cut_rates\<close>), so
  that its three runs write the same directory. The directory of a run of the other compressor does not exist when its
  first file is at the top of the sources, and what follows is a call of \<open>fwrite\<close> with a null pointer.\<close>

lemma zip_without_directory:
  assumes "zlib_ok zl v inflate bound" "fst (deflateInit zl level) = Z_OK" "-1 \<le> level" "level \<le> 9"
    "src \<in> set (directories d)" "extension rel = ''.ifc''" "contents d (path_join src rel) \<noteq> None"
    "parent_path (output_filename out ''.ifc'' ''.ifcZIP'' rel) \<notin> set (directories d)" "chunk_size < 2 ^ 32"
  shows "traverseDir (zip_convert zl stack level chunk_size) src out ''.ifc'' ''.ifcZIP'' ((rel, True) # tree) d = Some (Inl Undefined)"
proof -
  obtain s where s: "contents d (path_join src rel) = Some s" using assms(7) by blast
  have "deflate_compress zl stack (Some s) None level chunk_size None = Some (Inl Undefined)"
  proof (cases "chunk_size \<le> 0 \<or> int stack < 2 * chunk_size")
    case False
    then have n: "0 < nat chunk_size" "nat chunk_size < 2 ^ 32" using assms(9) by (simp_all add: nat_less_iff)
    have "Z_OK \<noteq> Z_MEM_ERROR" by (simp add: z_codes)
    then obtain z where z: "deflateInit zl level = (Z_OK, z)" "final v z = None"
      using zlib_init[OF assms(1,3,4)] assms(2) by auto
    let ?inp = "take (uInt (length (take (nat chunk_size) s))) (take (nat chunk_size) s)"
    obtain ret c out' z1 where "deflate zl ?inp (nat chunk_size) (length s < nat chunk_size) z = (ret, c, out', z1)" "ret \<noteq> Z_STREAM_ERROR"
      using zlib_step[OF assms(1) n(1) disjI1[OF z(2)], of ?inp "length s < nat chunk_size"] by (auto simp: deflate_ok_def)
    moreover have "uInt (nat chunk_size) = nat chunk_size" using n(2) by (simp add: uInt_def)
    ultimately show ?thesis
      using z(1) False by (subst deflate_compress_def) (simp add: deflate_file.simps deflate_chunk.simps Let_def)
  qed (simp add: deflate_compress_def)
  then show ?thesis using assms(5,6,8) s
    by (simp add: traverseDir_def visit_entry_def zip_convert_def opened_output_def caught_def Let_def)
qed

text \<open>An empty directory that is called like a source is replaced by an empty file, on which the compressor does not end.\<close>

lemma directory_replaced:
  assumes "extension rel = ''.ifc''" "tmp rel = Some td" "goes_on rel"
  shows "preprocess_sources w tmp goes_on dir [(rel, False)] d =
    Some (Inr ([(rel, True)], d\<lparr>directories := removeAll (path_join dir rel) (directories d),
                               contents := (contents d)(path_join dir rel \<mapsto> [])\<rparr>))"
  using assms by (simp add: convert_directory_def Let_def)

end
