(* ===== verification/Bench_Report.thy ===== *)
theory Bench_Report
  imports Benchmark
begin

text \<open>
  What the benchmark reports, and its second test. \<open>TestWatcher\<close> of \<open>experiments/test_util.cpp\<close> computes with \<open>double\<close>s, which
  are those of theory \<open>Decimal\<close>; the running times are given. \<open>run_deflate_test\<close> of \<open>compress_benchmark.cpp\<close> reads the
  levels and chunk sizes and runs zlib for every pair; its call in \<open>main\<close> is commented out.
\<close>

section \<open>Doubles\<close>

text \<open>A size as a \<open>double\<close>.\<close>

definition dbl_of_nat :: "nat \<Rightarrow> dbl" where
  "dbl_of_nat n = \<lparr>neg = False, mag = (if n < 2 ^ 53 then Fin (int n) 0 else to_dbl (int n) 1)\<rparr>"

text \<open>The value of a finite number, as numerator and denominator.\<close>

definition fraction :: "bool \<Rightarrow> int \<Rightarrow> int \<Rightarrow> int \<times> int" where
  "fraction n m e = ((if n then - m else m) * 2 ^ nat e, 2 ^ nat (- e))"

definition dbl_eq :: "dbl \<Rightarrow> dbl \<Rightarrow> bool" where
  "dbl_eq x y \<longleftrightarrow>
     (case (mag x, mag y) of
        (Fin m e, Fin m' e') \<Rightarrow>
          (let (a, b) = fraction (neg x) m e; (c, d) = fraction (neg y) m' e' in a * d = c * b)
      | (Infinite, Infinite) \<Rightarrow> neg x = neg y
      | _ \<Rightarrow> False)"

text \<open>Division; the sign of a new not-a-number is not determined by the standard and given.\<close>

definition dbl_div :: "bool \<Rightarrow> dbl \<Rightarrow> dbl \<Rightarrow> dbl" where
  "dbl_div nan_neg x y =
     (let s = (neg x \<noteq> neg y); nan = \<lparr>neg = nan_neg, mag = Not_a_number\<rparr>
      in case (mag x, mag y) of
           (Not_a_number, _) \<Rightarrow> x
         | (_, Not_a_number) \<Rightarrow> y
         | (Infinite, Infinite) \<Rightarrow> nan
         | (Infinite, Fin _ _) \<Rightarrow> \<lparr>neg = s, mag = Infinite\<rparr>
         | (Fin _ _, Infinite) \<Rightarrow> \<lparr>neg = s, mag = Fin 0 0\<rparr>
         | (Fin m e, Fin m' e') \<Rightarrow>
             if m' = 0 then (if m = 0 then nan else \<lparr>neg = s, mag = Infinite\<rparr>)
             else \<lparr>neg = s, mag = to_dbl (m * 2 ^ nat (e - e')) (m' * 2 ^ nat (e' - e))\<rparr>)"

section \<open>The watcher\<close>

definition INVALID_VALUE :: dbl where
  "INVALID_VALUE = \<lparr>neg = True, mag = Fin 1 0\<rparr>"

record TestWatcher =
  tw_experiment_name :: string
  tw_origin_size :: dbl
  tw_compress_size :: dbl
  tw_compress_time :: dbl
  tw_memory_usage :: dbl

definition new_watcher :: TestWatcher where
  "new_watcher = \<lparr>tw_experiment_name = [], tw_origin_size = INVALID_VALUE, tw_compress_size = INVALID_VALUE,
     tw_compress_time = INVALID_VALUE, tw_memory_usage = INVALID_VALUE\<rparr>"

definition get_header :: string where
  "get_header = ''experiment_name,origin_size,compress_size,compress_ratio,compress_time,compress_speed,memory_usage''"

definition compress_ratio :: "bool \<Rightarrow> TestWatcher \<Rightarrow> dbl" where
  "compress_ratio nan_neg w =
     (if dbl_eq (tw_compress_size w) INVALID_VALUE \<or> dbl_eq (tw_origin_size w) INVALID_VALUE then INVALID_VALUE
      else dbl_div nan_neg (tw_compress_size w) (tw_origin_size w))"

definition compress_speed :: "bool \<Rightarrow> TestWatcher \<Rightarrow> dbl" where
  "compress_speed nan_neg w =
     (if dbl_eq (tw_compress_time w) INVALID_VALUE \<or> dbl_eq (tw_origin_size w) INVALID_VALUE then INVALID_VALUE
      else dbl_div nan_neg (tw_origin_size w) (tw_compress_time w))"

definition get_result :: "bool \<Rightarrow> TestWatcher \<Rightarrow> string" where
  "get_result nan_neg w =
     tw_experiment_name w @ '','' @ show_fixed 6 (tw_origin_size w) @ '' ,'' @ show_fixed 6 (tw_compress_size w) @ '' ,'' @
     show_fixed 6 (compress_ratio nan_neg w) @ '' ,'' @ show_fixed 6 (tw_compress_time w) @ '' ,'' @
     show_fixed 6 (compress_speed nan_neg w) @ '' ,'' @ show_fixed 6 (tw_memory_usage w) @ '' ,''"

text \<open>What \<open>traverseDir\<close> does with the watcher for one file, and what it appends to \<open>profile.csv\<close>.\<close>

definition watch :: "watcher_row \<Rightarrow> dbl \<Rightarrow> TestWatcher \<Rightarrow> TestWatcher" where
  "watch r time w = w\<lparr>tw_experiment_name := experiment_name r, tw_compress_time := time,
     tw_origin_size := dbl_of_nat (origin_size r), tw_compress_size := dbl_of_nat (compress_size r)\<rparr>"

fun profile_rows :: "bool \<Rightarrow> TestWatcher \<Rightarrow> (watcher_row \<times> dbl) list \<Rightarrow> string" where
  "profile_rows nan_neg w [] = []"
| "profile_rows nan_neg w ((r, time) # rs) =
     (let w1 = watch r time w in get_result nan_neg w1 @ [CHR 0x0A] @ profile_rows nan_neg w1 rs)"

definition profile_text :: "bool \<Rightarrow> (watcher_row \<times> dbl) list \<Rightarrow> string" where
  "profile_text nan_neg rs = get_header @ [CHR 0x0A] @ profile_rows nan_neg new_watcher rs"

section \<open>The test of zlib\<close>

text \<open>\<open>std::stol\<close>.\<close>

definition stol :: "string \<Rightarrow> int res" where
  "stol s =
     (let t = dropWhile isspace s;
          neg = (t \<noteq> [] \<and> hd t = CHR ''-'');
          u = (if t \<noteq> [] \<and> (hd t = CHR ''-'' \<or> hd t = CHR ''+'') then tl t else t);
          ds = takeWhile isdigit u;
          v = (if neg then - digits_val ds else digits_val ds)
      in if ds = [] then Inl Invalid_argument
         else if v < - 9223372036854775808 \<or> 9223372036854775807 < v then Inl Out_of_range
         else Inr v)"

text \<open>The setters keep the default for an empty vector.\<close>

definition set_compress_levels :: "int list \<Rightarrow> int list" where
  "set_compress_levels levels = (if levels = [] then [-1] else levels)"

definition set_chunk_sizes :: "int list \<Rightarrow> int list" where
  "set_chunk_sizes sizes = (if sizes = [] then [16384] else sizes)"

definition deflate_tasks :: "int list \<Rightarrow> int list \<Rightarrow> (int \<times> int) list" where
  "deflate_tasks levels sizes = concat (map (\<lambda>l. map (Pair l) sizes) levels)"

definition run_deflate_test :: "'z zlib \<Rightarrow> nat \<Rightarrow> string \<Rightarrow> string \<Rightarrow> string list \<Rightarrow> string list \<Rightarrow> (string \<times> bool) list \<Rightarrow> disk
    \<Rightarrow> (watcher_row list \<times> disk) res option" where
  "run_deflate_test zl stack working_dir data_dir level_node size_node tree d =
     (case rbind (rmap stoi level_node) (\<lambda>ls. rbind (rmap stol size_node) (\<lambda>cs. Inr (ls, cs))) of
        Inl e \<Rightarrow> Some (Inl (caught e))
      | Inr (ls, cs) \<Rightarrow>
          deflate_runs zl stack data_dir (path_join working_dir ''deflate'')
            (deflate_tasks (set_compress_levels ls) (set_chunk_sizes cs)) tree ([], d))"

section \<open>What is reported\<close>

text \<open>Of sizes below \<open>2 ^ 53\<close> the ratio is the quotient of the sizes, rounded once; the ratio and the speed of an empty
  source are no numbers.\<close>

lemma size_valid [simp]: "\<not> dbl_eq (dbl_of_nat n) INVALID_VALUE"
proof (cases "n < 2 ^ 53")
  case False
  show ?thesis
  proof (cases "to_dbl (int n) 1")
    case (Fin m e)
    have "0 \<le> m" using Fin round_half_even_nonneg
      by (auto simp: to_dbl_def scaled_def Let_def split: if_splits)
    then have "0 \<le> m * 2 ^ nat e" by simp
    moreover have "0 < (2::int) ^ nat (- e)" by simp
    ultimately have "m * 2 ^ nat e \<noteq> - (2 ^ nat (- e))" by linarith
    then show ?thesis using False Fin by (simp add: dbl_eq_def dbl_of_nat_def INVALID_VALUE_def fraction_def)
  qed (use False in \<open>simp_all add: dbl_eq_def dbl_of_nat_def INVALID_VALUE_def\<close>)
qed (simp add: dbl_eq_def dbl_of_nat_def INVALID_VALUE_def fraction_def)

lemma ratio_of_sizes:
  assumes "origin_size r < 2 ^ 53" "compress_size r < 2 ^ 53"
  shows "mag (compress_ratio nan_neg (watch r time w)) =
    (if 0 < origin_size r then to_dbl (int (compress_size r)) (int (origin_size r))
     else if compress_size r = 0 then Not_a_number else Infinite)"
  using assms by (simp add: compress_ratio_def watch_def dbl_div_def) (simp add: dbl_of_nat_def Let_def)

text \<open>Every row has a column more than the header: a comma also follows the last value.\<close>

definition commas :: "string \<Rightarrow> nat" where
  "commas s = length (filter ((=) (CHR '','')) s)"

lemma commas_append [simp]: "commas (s @ t) = commas s + commas t" "commas [] = 0"
  "commas (c # s) = (if c = CHR '','' then Suc (commas s) else commas s)"
  by (auto simp: commas_def)

lemma commas_none: "CHR '','' \<notin> set s \<Longrightarrow> commas s = 0"
  by (induction s) auto

lemma show_dec_no_comma: "CHR '','' \<notin> set (show_dec k)"
  using show_dec_digits[of "CHR '',''" k] by (auto simp: isdigit_def)

lemma show_fixed_no_comma [simp]: "commas (show_fixed prec x) = 0"
  by (rule commas_none)
    (use show_dec_no_comma in \<open>auto simp: show_fixed_def fixed_digits_def pad_left_def split: magnitude.splits if_splits\<close>)

lemma profile_columns:
  "commas get_header = 6" "CHR '','' \<notin> set (tw_experiment_name w) \<Longrightarrow> commas (get_result nan_neg w) = 7"
  by (simp_all add: get_header_def get_result_def commas_none)

section \<open>The directory of a run of zlib\<close>

text \<open>The test of zlib never succeeds on sources that begin with a file whose output would lie in the directory of the first
  run, since nothing creates that directory.\<close>

lemma deflate_test_fails:
  assumes "zlib_ok zl v inflate bound" "fst (deflateInit zl level) = Z_OK" "-1 \<le> level" "level \<le> 9"
    "src \<in> set (directories d)" "extension rel = ''.ifc''" "contents d (path_join src rel) \<noteq> None"
    "parent_path (output_filename (path_join (path_join work ''deflate'') (zip_method_name level chunk)) ''.ifc'' ''.ifcZIP'' rel)
       \<notin> set (directories d)" "chunk < 2 ^ 32"
    "rmap stoi level_node = Inr ls" "rmap stol size_node = Inr cs"
    "set_compress_levels ls = level # ls'" "set_chunk_sizes cs = chunk # cs'"
  shows "run_deflate_test zl stack work src level_node size_node ((rel, True) # tree) d = Some (Inl Undefined)"
proof -
  note u = zip_without_directory[OF assms(1-9)]
  obtain rest where "deflate_tasks (set_compress_levels ls) (set_chunk_sizes cs) = (level, chunk) # rest"
    using assms(12,13) by (simp add: deflate_tasks_def)
  then show ?thesis using u assms(10,11) by (simp add: run_deflate_test_def)
qed

end
