(* ===== verification/Spec2Isabelle.thy ===== *)
theory Spec2Isabelle
  imports Ifc_Agree Ifc_Parse Signals Logging Service Client File_Lock Express_Cli Datastore Bench_Report
begin

text \<open>
  VulcanDB is a server for building models in the IFC format. Its own code, all modelled here, is under \<open>src/src\<close>:

  \<^item> \<open>storage/compression\<close>: the content-based compression of IFC files;
  \<^item> \<open>storage/datastore\<close>: sessions of a key-value store over the WiredTiger library;
  \<^item> \<open>backend/seda\<close>: staged event handling, that is stages with event lists, pools of threads that serve them, events with
    callbacks and timeouts, and the configuration that builds all this;
  \<^item> \<open>backend\<close>: the parameters, the server with its connections, the life of the process and the signals that end it;
  \<^item> \<open>client\<close>: the command-line client;
  \<^item> \<open>common\<close>: strings, configuration files, bytes on sockets, file locks, the logger;
  \<^item> \<open>express_parser\<close>: a tool that reads EXPRESS schemas, prints their types and generates SQL for them;
  \<^item> \<open>experiments\<close>: a benchmark that compresses the files of a directory, with the compressor or with zlib.

  The server process (\<open>backend/main.cpp\<close>) reads its parameters from a configuration file, initialises the stages and
  pools, opens a socket, and turns every request of a connection into an event of the session stage, whose threads send
  the reply that the client prints. The compressor, its benchmark and the EXPRESS tool stand beside it.

  \<^bold>\<open>Conventions.\<close> Structures are records and enumerations datatypes with the names of the source; where a name is taken
  in HOL it is changed slightly. A failure is a value: \<open>'a res\<close> of theory \<open>Prelude\<close> is an error of the type \<open>cxx_error\<close> (the
  exceptions the sources throw, an undefined access, a failed assertion, a call of \<open>exit\<close>) or a result. \<open>std::string\<close> is
  a list of characters, \<open>std::map\<close> a sorted association list or a partial function, whose common contract is the locale
  \<open>std_map\<close>. Code that may not return is a partial function to \<open>option\<close>, where \<open>None\<close> is not returning, or takes fuel; in
  each case a property says when it returns. System calls, libraries (libevent, WiredTiger, zlib, getopt), the generated EXPRESS
  grammar and the file system are arguments of the definitions.

  \<^bold>\<open>Theories.\<close>

  \<^item> \<open>Prelude\<close>, \<open>Ordered_Map\<close>: errors, strings and their searches, numbers in strings; maps.
  \<^item> \<open>Decimal\<close>, \<open>Ifc_Text\<close>, \<open>Ifc_Dedup\<close>: the compressor (\<open>ifccompressor_impl.cpp\<close>): decimal rounding, the text of statements
    (\<open>trim\<close>, \<open>StandardContent\<close>, \<open>IfcInstanceAna\<close> and their helpers), and the two steps on instances. \<open>Ifc_Compressor\<close> and
    \<open>Ifc_File\<close> add reading, every overload, \<open>compress\<close> and \<open>decompress\<close>, and the files; \<open>Ifc_Analysis\<close> is \<open>IfcCompressorAna\<close>.
  \<^item> \<open>Ifc_Fields\<close>, \<open>Ifc_Parse\<close>: well-formed contents, and that what parses prints back. \<open>Ifc_Steps\<close>, \<open>Ifc_Spec\<close>: an abstract
    compressor over settled numbers and waiting instances, and that the code's loops by index refine it (locale
    \<open>inst_store\<close>, shared with the analysis). \<open>Ifc_Invariant\<close>, \<open>Ifc_Correct\<close>, \<open>Ifc_Result\<close>: the invariant of the numbering
    and what a run guarantees. \<open>Ifc_Agree\<close>: the analysis reports what the compressor does (locale \<open>match_loop\<close>).
  \<^item> \<open>Text_Utils\<close>, \<open>Ini_Parser\<close>, \<open>Vulcan_Param\<close>: \<open>common/string.cpp\<close>, \<open>vulcan_utility.cpp\<close>, \<open>resp_protocol.cpp\<close>; \<open>ini_parser.cpp\<close>;
    \<open>vulcan_param.cpp\<close>, \<open>pidfile.cpp\<close>, \<open>os.cpp\<close> and the options of \<open>main.cpp\<close>.
  \<^item> \<open>Net_IO\<close>: \<open>io.cpp\<close>, the message loops of server and client as functions of what the calls of \<open>read\<close> and \<open>write\<close> return.
  \<^item> \<open>Seda_Event\<close>, \<open>Seda_Pool\<close>, \<open>Seda_Config\<close>: events, callbacks and timeouts; stages and pools as a step relation in which each
    critical section is a step and everything else interleaves; the configuration.
  \<^item> \<open>Server\<close>, \<open>Startup\<close>: the server's descriptors, connections and session stage; \<open>main\<close> from the options to the removal of
    the pid file. \<open>Signals\<close>: \<open>main\<close>, the signals and the quit threads they start (\<open>os.cpp\<close>, \<open>quit_thread_func\<close>,
    \<open>Server::shutdown\<close>) as a step relation in which all interleavings of the threads' steps are considered.
  \<^item> \<open>Service\<close>: the server, its connections and the pool of the session stage as one step relation, from the arrival of a
    request to the reply.
  \<^item> \<open>Client\<close>: the options, the connection and \<open>main\<close> of the client. \<open>Logging\<close>: \<open>vulcan_logger.cpp\<close> over spdlog. \<open>File_Lock\<close>:
    \<open>open_file_and_lock\<close> over a table of record locks.
  \<^item> \<open>Datastore\<close>: the store; its interface is the locale \<open>kv_session\<close>, interpreted on the sessions of an engine that behaves
    as its manual says.
  \<^item> \<open>Topo_Graph\<close>, \<open>Express_Schema\<close>, \<open>Express_Sql\<close>, \<open>Express_Print\<close>, \<open>Express_Cli\<close>: the graph of inheritance; the schema with its
    shared types, the first pass over the text, the functions the grammar calls; the generator of SQL; the printer with its
    buffer; the loop over the commands.
  \<^item> \<open>Deflate\<close>, \<open>Benchmark\<close>: the loop over zlib; the traversal of a directory with a converter, whose contract is the locale
    \<open>file_converter\<close> (interpreted on the compressor and on zlib), the runs and the configuration. \<open>Bench_Report\<close>: the profile with its
    doubles, and the test of zlib.

  \<^bold>\<open>What is shown.\<close> For the compressor: it ends exactly on acyclic, closed references; it keeps every instance, merges exactly
  those equal up to renaming, and writes instances after those they refer to; the overloads and the analysis agree with it;
  and the same from file text to file text. For the pool: an invariant of every interleaving from which its assertions hold,
  events leave a stage in the order of their arrival, no wake-up is lost, work ends, and \<open>disconnect\<close> waits exactly for what
  is outstanding and is woken when it is done. For the server: descriptors neither leak nor close twice (but for one error path), every
  request is answered through the pool, once and to its own connection (if that is still open), a signal stops the process
  whatever the interleaving, unless a second one comes at a bad time, and with the default configuration the process serves
  only where reading the first of no next stages has a result. For the client: what a whole session sends and prints,
  also against this server. For configuration, messages and strings: round trips and bounds. For the
  EXPRESS tool: what the first pass declares, type safety of every parsed schema, a complete and ordered SQL script, and that
  the printer prints exactly the text of its specification, with the places where it is cut. For the store: it implements
  a map, up to a removal of an absent key that the engine refuses. For the benchmark: what lies on the disk when it has
  ended, and that the loop over zlib writes a complete stream where the disk has room for it. For locks and
  logs: that locks exclude each other, and which messages are written. Errors of the code
  found on the way are properties or lemmas of the same theories.

  \<^bold>\<open>Bounds and fuel.\<close> The outer loop of the compressor is the partial function \<open>rounds\<close> in \<open>Ifc_Dedup\<close>; \<open>Ifc_Result\<close> says
  exactly when it returns, and \<open>Ifc_File\<close> the same of the loops that look for a marker in a file. The topological sort, the
  SQL cast, the printer and the stack of supertypes are partial functions; the first always returns, for the others the
  acyclicity they need is stated. The work of a pool is bounded by a measure. Machine integers are \<open>int\<close> with their range, and the conversions that wrap, written out where the code relies on them.

  \<^bold>\<open>Not modelled.\<close> \<open>ifcparse\<close> is a copy of IfcOpenShell (over a million lines, mostly generated from the IFC schemas). The scanner and
  the grammar of the EXPRESS tool (\<open>lex_exp.l\<close>, \<open>yacc_exp.y\<close>) are input of generators. \<open>mutex.h\<close> names pthread calls, or, for
  debugging, the class \<open>LockTrace\<close>, which is defined nowhere. \<open>vulcan_schema\<close>, \<open>db.h\<close> and \<open>session.cpp\<close> are stubs. Of \<open>experiments\<close>,
  running times are given, and YAML files are records. Help texts, prompts and the text of messages are left out.
  Allocation failures are not modelled.
\<close>

section \<open>The client and the server\<close>

text \<open>What a session of the client sends is one request per line for \<open>Server::recv\<close>.\<close>

lemma line_received:
  assumes "command_ok x" "list_all arriving qs" "data qs = command x @ [newline_char, CHR 0x00]"
  shows "\<exists>rest. recv SOCKET_BUFFER_SIZE qs = Some (Request (command x @ [newline_char]) (length (command x) + 2), rest)"
proof -
  have "\<exists>rest. recv SOCKET_BUFFER_SIZE qs = Some (Request (command x @ [newline_char]) (length (command x @ [newline_char]) + 1), rest)"
    by (rule recv_message[OF assms(2), where t = "[]"])
      (use assms(1,3) in \<open>auto simp: command_ok_def newline_char_def MAX_MEM_BUFFER_SIZE_def SOCKET_BUFFER_SIZE_def\<close>)
  then show ?thesis by simp
qed

text \<open>C9. The client program against the server: the client connects, its lines are written and arrive cut up in any way,
  and what arrives back for each line is what handling the event of its connection sends. Then the server receives every
  line as one request, and the client sends them in order, prints the greeting once for each, and ends with status zero
  and its descriptor closed.\<close>

theorem client_meets_server:
  assumes "conns_ok srv" "c \<in> set (contexts srv)" "0 < fd" "0 \<le> k" "host" "last_line fin"
    and "\<forall>x \<in> set xs. command_ok x \<and> list_all arriving (at_server x) \<and>
      data (at_server x) = command x @ [newline_char, CHR 0x00] \<and> list_all arrived (arrivals x) \<and>
      (\<exists>bufs. handle_event hops srv (new_session_event (ctx_name c)) = Inr (ctx_fd c, bufs) \<and> data (arrivals x) = concat bufs)"
  shows "client_main opts host fd k (concat (map (\<lambda>x. command x @ [newline_char]) xs) @ fin)
      (concat (map writes xs) @ ws) (concat (map arrivals xs) @ rs) =
    Some (map (\<lambda>x. command x @ [newline_char, CHR 0x00]) xs, concat (map (\<lambda>x. hello @ [newline_char]) xs), [], Inr 0) \<and>
    (\<forall>x \<in> set xs. \<exists>rest. recv SOCKET_BUFFER_SIZE (at_server x) =
       Some (Request (command x @ [newline_char]) (length (command x) + 2), rest))"
proof -
  let ?greet = "\<lambda>x. x\<lparr>reply := hello\<rparr>"
  have "CHR 0x00 \<notin> set hello" by (simp add: hello_def)
  then have ok: "list_all exchange_ok (map ?greet xs)"
    using assms(7) handle_event_reply[OF assms(1,2)] by (auto simp: list_all_iff exchange_ok_def command_ok_def)
  have "client_main opts host fd k (concat (map (\<lambda>x. command x @ [newline_char]) (map ?greet xs)) @ fin)
      (concat (map writes (map ?greet xs)) @ ws) (concat (map arrivals (map ?greet xs)) @ rs) =
    Some (map (\<lambda>x. command x @ [newline_char, CHR 0x00]) (map ?greet xs), concat (map (\<lambda>x. reply x @ [newline_char]) (map ?greet xs)), [], Inr 0)"
    by (rule client_main_session[OF client_connects[OF assms(3-5), unfolded Let_def] _ ok assms(6)]) (use assms(3) in simp)
  then show ?thesis using assms(7) line_received by (auto simp: comp_def)
qed

theorem client_meets_server_witness:
  "client_main [] True 5 0 (''ls'' @ [newline_char] @ ''bye'') [Wrote 4] [Arrived (hello @ [CHR 0x00])] =
   Some ([''ls'' @ [newline_char, CHR 0x00]], hello @ [newline_char], [], Inr 0)"
proof -
  let ?x = "\<lparr>command = ''ls'', writes = [Wrote 4], arrivals = [Arrived (hello @ [CHR 0x00])], reply = []\<rparr>"
  obtain c where c: "c \<in> set (contexts running_server)" by (auto simp: running_server_def)
  have x: "command_ok ?x" and l: "last_line ''bye''" by code_simp+
  have h: "handle_event 4 running_server (new_session_event (ctx_name c)) = Inr (ctx_fd c, [hello @ [CHR 0x00]])"
    by (rule handle_event_reply[OF running_server_ok c])
  have "\<forall>x \<in> set [?x]. command_ok x \<and> list_all arriving [Arrived (''ls'' @ [newline_char, CHR 0x00])] \<and>
      data [Arrived (''ls'' @ [newline_char, CHR 0x00])] = command x @ [newline_char, CHR 0x00] \<and> list_all arrived (arrivals x) \<and>
      (\<exists>bufs. handle_event 4 running_server (new_session_event (ctx_name c)) = Inr (ctx_fd c, bufs) \<and> data (arrivals x) = concat bufs)"
    using x h by simp
  from client_meets_server[OF running_server_ok c _ _ _ l this, of 5 0 True "[]" "[]" "[]"] show ?thesis by simp
qed

end
